(* ===== verification/C_Prelude.thy ===== *)
theory C_Prelude
  imports Main "HOL-Library.Word"
begin

text \<open>
  The C machine the components of the library run on, and the lemmas they share.

  \<^item> Faults and results.  Whatever C leaves undefined (a null dereference, an access out of
    the bounds of its object, the read of an uninitialised cell, a signed overflow, a shift
    outside its range, ...) is a value of \<open>fault\<close>; a fallible operation returns
    \<open>fault + 'a\<close>, and \<open>rbind\<close> runs two of them one after the other.
  \<^item> Integers.  A signed \<open>long\<close> or \<open>int\<close> is an \<open>int\<close> whose arithmetic is checked
    (\<open>chk_long\<close>, \<open>chk_int\<close>), because signed overflow is undefined; \<open>unsigned long\<close>,
    \<open>size_t\<close> and pointers are 64 bit words, whose arithmetic wraps.
  \<^item> Memory.  A heap maps the base address of every live block to its 64 bit cells, a cell
    being \<open>None\<close> until it is first written.  Blocks are separate objects: an access is a
    base address and an index, checked against the block's size.
  \<^item> The allocator.  Which address \<open>malloc\<close> returns is the choice of the C library, kept
    in the heap as the list \<open>answers\<close> of its answers: an address that is live or null in
    that list, or an exhausted list, makes the call fail with a null pointer.  A theorem
    that holds for every \<open>answers\<close> holds for every allocator.
\<close>

unbundle bit_operations_syntax

section \<open>Faults and results\<close>

datatype fault =
    Null_Deref
  | Dangling
  | Out_Of_Bounds
  | Uninit_Read
  | Invalid_Free
  | Signed_Overflow
  | Shift_Range
  | Div_By_Zero
  | Lock_Misuse

type_synonym 'a result = "fault + 'a"

definition rbind :: "'a result \<Rightarrow> ('a \<Rightarrow> 'b result) \<Rightarrow> 'b result" where
  "rbind m f = (case m of Inl e \<Rightarrow> Inl e | Inr x \<Rightarrow> f x)"

named_theorems c_eval \<open>equations that run the model on concrete input\<close>

lemma rbind_simps [simp, c_eval]:
  "rbind (Inl e) f = Inl e"
  "rbind (Inr x) f = f x"
  by (simp_all add: rbind_def)

lemma rbind_Inr_iff: "rbind m f = Inr y \<longleftrightarrow> (\<exists>x. m = Inr x \<and> f x = Inr y)"
  by (cases m) auto

lemma rbind_InrE:
  assumes "rbind m f = Inr y"
  obtains x where "m = Inr x" and "f x = Inr y"
  using assms by (auto simp: rbind_Inr_iff)

lemma rbind_assoc: "rbind (rbind m f) g = rbind m (\<lambda>x. rbind (f x) g)"
  by (cases m) auto

lemma rbind_cong [fundef_cong]:
  assumes "m = m'" and "\<And>x. m' = Inr x \<Longrightarrow> f x = g x"
  shows "rbind m f = rbind m' g"
  using assms by (cases m') auto

text \<open>A fallible action for every element of a list, in order.\<close>

fun rfold :: "('i \<Rightarrow> 's \<Rightarrow> 's result) \<Rightarrow> 'i list \<Rightarrow> 's \<Rightarrow> 's result" where
  "rfold f [] s = Inr s"
| "rfold f (x # xs) s = rbind (f x s) (rfold f xs)"

lemma rfold_append: "rfold f (xs @ ys) s = rbind (rfold f xs s) (rfold f ys)"
proof (induction xs arbitrary: s)
  case (Cons x xs)
  then show ?case by (cases "f x s") auto
qed simp

lemma rfold_idle: "\<forall>p \<in> set ps. f p s = Inr s \<Longrightarrow> rfold f ps s = Inr s"
  by (induction ps) simp_all

lemma rfold_invariant:
  assumes "P s" and "\<And>x s s'. x \<in> set xs \<Longrightarrow> P s \<Longrightarrow> f x s = Inr s' \<Longrightarrow> P s'" and "rfold f xs s = Inr s'"
  shows "P s'"
  using assms
proof (induction xs arbitrary: s)
  case (Cons x xs)
  then show ?case by (auto simp: rbind_Inr_iff)
qed simp

section \<open>Signed integers\<close>

text \<open>An \<open>int\<close> computed at type \<open>long\<close> or \<open>int\<close>: undefined when it does not fit.\<close>

definition chk_long :: "int \<Rightarrow> int result" where
  "chk_long i = (if - (2 ^ 63) \<le> i \<and> i < 2 ^ 63 then Inr i else Inl Signed_Overflow)"

definition chk_int :: "int \<Rightarrow> int result" where
  "chk_int i = (if - (2 ^ 31) \<le> i \<and> i < 2 ^ 31 then Inr i else Inl Signed_Overflow)"

text \<open>The shift \<open>1 << n\<close> at type \<open>int\<close>: 2 to the \<open>n\<close> must fit an \<open>int\<close>.\<close>

definition int_shl1 :: "nat \<Rightarrow> int result" where
  "int_shl1 n = (if n < 31 then Inr (2 ^ n) else Inl Shift_Range)"

lemma chk_long_ok [simp]: "- (2 ^ 63) \<le> i \<Longrightarrow> i < 2 ^ 63 \<Longrightarrow> chk_long i = Inr i"
  by (simp add: chk_long_def)

lemma chk_int_ok [simp]: "- (2 ^ 31) \<le> i \<Longrightarrow> i < 2 ^ 31 \<Longrightarrow> chk_int i = Inr i"
  by (simp add: chk_int_def)

lemma chk_long_nonneg [simp]: "0 \<le> i \<Longrightarrow> i < 2 ^ 63 \<Longrightarrow> chk_long i = Inr i"
  by (simp add: chk_long_def)

lemma int_shl1_ok [simp]: "n < 31 \<Longrightarrow> int_shl1 n = Inr (2 ^ n)"
  by (simp add: int_shl1_def)

text \<open>A mask of \<open>k\<close> one bits reduces a signed value modulo \<open>2 ^ k\<close>.\<close>

lemma and_mask_mod: "(i::int) AND (2 ^ k - 1) = i mod 2 ^ k"
  by (simp add: take_bit_eq_mod [symmetric] take_bit_eq_mask mask_eq_exp_minus_1)

section \<open>Memory\<close>

type_synonym ptr = "64 word"
type_synonym cell = "64 word option"

record heap =
  mem :: "ptr \<Rightarrow> cell list option"
  answers :: "ptr list"

definition put_block :: "ptr \<Rightarrow> cell list \<Rightarrow> heap \<Rightarrow> heap" where
  "put_block p cs h = h\<lparr>mem := (mem h)(p \<mapsto> cs)\<rparr>"

definition del_block :: "ptr \<Rightarrow> heap \<Rightarrow> heap" where
  "del_block p h = h\<lparr>mem := (mem h)(p := None)\<rparr>"

lemma mem_put_block [simp]: "mem (put_block p cs h) a = (if a = p then Some cs else mem h a)"
  by (simp add: put_block_def)

lemma mem_del_block [simp]: "mem (del_block p h) a = (if a = p then None else mem h a)"
  by (simp add: del_block_def)

lemma answers_block [simp]:
  "answers (put_block p cs h) = answers h" "answers (del_block p h) = answers h"
  by (simp_all add: put_block_def del_block_def)

lemma put_put_block [simp]: "put_block p cs (put_block p ds h) = put_block p cs h"
  by (simp add: put_block_def)

lemma del_put_block: "mem h p = None \<Longrightarrow> del_block p (put_block p cs h) = h"
  by (simp add: put_block_def del_block_def fun_upd_idem)

lemma put_block_same: "mem h p = Some cs \<Longrightarrow> put_block p cs h = h"
  by (simp add: put_block_def map_upd_triv)

definition malloc :: "64 word \<Rightarrow> heap \<Rightarrow> ptr \<times> heap" where
  "malloc n h =
    (case answers h of
       [] \<Rightarrow> (0, h)
     | p # ps \<Rightarrow>
         if p = 0 \<or> mem h p \<noteq> None then (0, h\<lparr>answers := ps\<rparr>)
         else (p, put_block p (replicate (unat n div 8) None) (h\<lparr>answers := ps\<rparr>)))"

definition free :: "ptr \<Rightarrow> heap \<Rightarrow> heap result" where
  "free p h =
    (if p = 0 then Inr h
     else if mem h p = None then Inl Invalid_Free
     else Inr (del_block p h))"

definition block_of :: "ptr \<Rightarrow> heap \<Rightarrow> cell list result" where
  "block_of p h =
    (if p = 0 then Inl Null_Deref
     else case mem h p of None \<Rightarrow> Inl Dangling | Some cs \<Rightarrow> Inr cs)"

definition load :: "ptr \<Rightarrow> int \<Rightarrow> heap \<Rightarrow> 64 word result" where
  "load p i h = rbind (block_of p h) (\<lambda>cs.
     if 0 \<le> i \<and> i < int (length cs)
     then (case cs ! nat i of None \<Rightarrow> Inl Uninit_Read | Some w \<Rightarrow> Inr w)
     else Inl Out_Of_Bounds)"

definition store :: "ptr \<Rightarrow> int \<Rightarrow> 64 word \<Rightarrow> heap \<Rightarrow> heap result" where
  "store p i w h = rbind (block_of p h) (\<lambda>cs.
     if 0 \<le> i \<and> i < int (length cs)
     then Inr (put_block p (cs[nat i := Some w]) h)
     else Inl Out_Of_Bounds)"

text \<open>\<open>memset (p, 0, n)\<close> and \<open>memcpy (d, s, n)\<close> for a whole number of cells.\<close>

definition memset0 :: "ptr \<Rightarrow> 64 word \<Rightarrow> heap \<Rightarrow> heap result" where
  "memset0 p n h = rbind (block_of p h) (\<lambda>cs.
     if unat n div 8 \<le> length cs
     then Inr (put_block p (replicate (unat n div 8) (Some 0) @ drop (unat n div 8) cs) h)
     else Inl Out_Of_Bounds)"

definition memcpy :: "ptr \<Rightarrow> ptr \<Rightarrow> 64 word \<Rightarrow> heap \<Rightarrow> heap result" where
  "memcpy d s n h = rbind (block_of d h) (\<lambda>ds. rbind (block_of s h) (\<lambda>ss.
     if unat n div 8 \<le> length ds \<and> unat n div 8 \<le> length ss
     then Inr (put_block d (take (unat n div 8) ss @ drop (unat n div 8) ds) h)
     else Inl Out_Of_Bounds))"

text \<open>The next \<open>malloc\<close> succeeds: the allocator offers an address that is not in use.\<close>

definition can_alloc :: "heap \<Rightarrow> bool" where
  "can_alloc h = (case answers h of [] \<Rightarrow> False | p # _ \<Rightarrow> p \<noteq> 0 \<and> mem h p = None)"

text \<open>The number of cells behind a byte count computed in 64 bit arithmetic.\<close>

lemma cells_of_bytes:
  assumes "0 \<le> n" and "n < 2 ^ 61"
  shows "unat (word_of_int n * 8 :: 64 word) div 8 = nat n"
proof -
  have "(word_of_int n * 8 :: 64 word) = word_of_int (n * 8)" by simp
  then have "unat (word_of_int n * 8 :: 64 word) = nat (n * 8)"
    using assms by (simp only: unat_eq_nat_uint uint_word_of_int) simp
  then show ?thesis using assms(1) by (simp add: nat_mult_distrib)
qed

lemma cells_of_words:
  assumes "unat m < 2 ^ 61"
  shows "unat (m * 8 :: 64 word) div 8 = unat m"
proof -
  have "unat m * unat (8 :: 64 word) < 2 ^ LENGTH(64)" using assms by simp
  then have "unat (m * 8) = unat m * unat (8 :: 64 word)" by (simp only: unat_mult_lem)
  then show ?thesis by simp
qed

lemma malloc_ok:
  assumes "can_alloc h"
  obtains p where "p = hd (answers h)" and "p \<noteq> 0" and "mem h p = None" and
    "malloc n h = (p, put_block p (replicate (unat n div 8) None)
       (h\<lparr>answers := tl (answers h)\<rparr>))"
  using assms by (cases "answers h") (auto simp: can_alloc_def malloc_def)

text \<open>
  \<open>ample m h\<close>: the next \<open>m\<close> answers of the allocator are addresses of new blocks.
\<close>

definition ample :: "nat \<Rightarrow> heap \<Rightarrow> bool" where
  "ample m h \<longleftrightarrow> m \<le> length (answers h) \<and> distinct (take m (answers h)) \<and>
    (\<forall>p \<in> set (take m (answers h)). p \<noteq> 0 \<and> mem h p = None)"

lemma ample_0 [simp]: "ample 0 h"
  by (simp add: ample_def)

lemma ample_can_alloc: "ample (Suc m) h \<Longrightarrow> can_alloc h"
  by (cases "answers h") (auto simp: ample_def can_alloc_def)

lemma ample_mono:
  assumes "ample m h" and "n \<le> m"
  shows "ample n h"
proof -
  have "take n (answers h) = take n (take m (answers h))" using assms(2) by simp
  then have "set (take n (answers h)) \<subseteq> set (take m (answers h))"
    and "distinct (take m (answers h)) \<Longrightarrow> distinct (take n (answers h))"
    by (metis set_take_subset, metis distinct_take)
  then show ?thesis using assms by (auto simp: ample_def)
qed

lemma ample_step:
  assumes "ample (Suc m) h" and "answers h' = tl (answers h)"
    and "\<forall>a. a \<noteq> hd (answers h) \<longrightarrow> mem h a = None \<longrightarrow> mem h' a = None"
  shows "ample m h'"
proof -
  obtain p ps where ps: "answers h = p # ps" using assms(1) by (cases "answers h") (auto simp: ample_def)
  have "mem h' a = None" if "a \<in> set (take m ps)" for a
    using that assms(1,3) ps unfolding ample_def by (metis distinct.simps(2) list.sel(1)
      list.set_intros(2) take_Suc_Cons)
  then show ?thesis using assms(1,2) ps by (simp add: ample_def)
qed

lemma ample_same:
  assumes "ample m h" and "answers h' = answers h" and "\<forall>a. mem h a = None \<longrightarrow> mem h' a = None"
  shows "ample m h'"
  using assms by (auto simp: ample_def)

lemma malloc_null:
  assumes "\<not> can_alloc h"
  shows "malloc n h = (0, h\<lparr>answers := tl (answers h)\<rparr>)"
  using assms by (cases "answers h") (auto simp: can_alloc_def malloc_def)

lemma block_of_Inr_iff: "block_of p h = Inr cs \<longleftrightarrow> p \<noteq> 0 \<and> mem h p = Some cs"
  by (auto simp: block_of_def split: option.splits)

lemma block_of_null [simp, c_eval]: "block_of 0 h = Inl Null_Deref"
  by (simp add: block_of_def)

lemma load_null [simp]: "load 0 i h = Inl Null_Deref"
  by (simp add: load_def)

lemma store_null [simp]: "store 0 i w h = Inl Null_Deref"
  by (simp add: store_def)

lemma load_ok:
  assumes "p \<noteq> 0" and "mem h p = Some cs" and "0 \<le> i" and "i < int (length cs)"
    and "cs ! nat i = Some w"
  shows "load p i h = Inr w"
  using assms by (simp add: load_def block_of_def)

lemma store_ok:
  assumes "p \<noteq> 0" and "mem h p = Some cs" and "0 \<le> i" and "i < int (length cs)"
  shows "store p i w h = Inr (put_block p (cs[nat i := Some w]) h)"
  using assms by (simp add: store_def block_of_def)

lemma free_ok:
  assumes "p \<noteq> 0" and "mem h p = Some cs"
  shows "free p h = Inr (del_block p h)"
  using assms by (simp add: free_def)

lemma memset0_ok:
  assumes "p \<noteq> 0" and "mem h p = Some cs" and "unat n div 8 = length cs"
  shows "memset0 p n h = Inr (put_block p (replicate (length cs) (Some 0)) h)"
  using assms by (simp add: memset0_def block_of_def)

lemma memcpy_ok:
  assumes "d \<noteq> 0" and "mem h d = Some ds" and "s \<noteq> 0" and "mem h s = Some ss"
    and "unat n div 8 = length ss" and "length ss \<le> length ds"
  shows "memcpy d s n h = Inr (put_block d (ss @ drop (length ss) ds) h)"
  using assms by (simp add: memcpy_def block_of_def)

lemmas heap_run_defs [c_eval] =
  chk_long_def chk_int_def int_shl1_def malloc_def free_def block_of_def load_def store_def
  memset0_def memcpy_def

section \<open>Frames\<close>

text \<open>
  \<open>replaced p p' h h'\<close>: between \<open>h\<close> and \<open>h'\<close> the block \<open>p\<close> was given up for the
  block \<open>p'\<close> (possibly the same one), and no other block was allocated, freed or written.
\<close>

definition replaced :: "ptr \<Rightarrow> ptr \<Rightarrow> heap \<Rightarrow> heap \<Rightarrow> bool" where
  "replaced p p' h h' \<longleftrightarrow>
    (\<forall>a. a \<noteq> p \<longrightarrow> a \<noteq> p' \<longrightarrow> mem h' a = mem h a) \<and> mem h' p' \<noteq> None \<and>
    (p \<noteq> p' \<longrightarrow> mem h p' = None \<and> mem h' p = None)"

lemma replaced_other:
  "replaced p p' h h' \<Longrightarrow> mem h a \<noteq> None \<Longrightarrow> a \<noteq> p \<Longrightarrow> mem h' a = mem h a"
  unfolding replaced_def by metis

lemma replaced_trans:
  assumes "replaced p q h h'" and "replaced q r h' h''"
  shows "replaced p r h h''"
  using assms unfolding replaced_def by metis

lemma replaced_refl: "mem h p \<noteq> None \<Longrightarrow> replaced p p h h"
  by (simp add: replaced_def)

text \<open>Every address fits in 64 bits, so only finitely many blocks are live.\<close>

lemma finite_mem [simp]: "finite (dom (mem h))"
  by (rule finite)

text \<open>Where an element of a list that has grown by one can be.\<close>

lemma snoc_split: "xs @ [x] = l @ c # l' \<longleftrightarrow> l' = [] \<and> c = x \<and> l = xs \<or> (\<exists>k. l' = k @ [x] \<and> xs = l @ c # k)"
  by (cases l' rule: rev_cases) auto

end
