(* ===== verification/Interfaces.thy ===== *)
theory Interfaces
  imports C_Prelude
begin

text \<open>
  The contracts between the containers of the library and their clients.  A client runs a
  sequence of \<open>Put\<close> and \<open>Get\<close> operations against an implementation (\<open>run_ops\<close>); the
  contract says what the same sequence does to a plain list (\<open>spec_ops\<close>).  \<open>container\<close> is
  the common part, parametrised by where a new value is put and by how much room a \<open>Get\<close> gives back; \<open>fifo\<close> (the queue) puts it last
  and defines what reading an empty container returns, \<open>lifo\<close> (the stack) puts it first.
\<close>

datatype 'a cop = Put 'a | Get

fun run_ops :: "('a \<Rightarrow> 's \<Rightarrow> 's result) \<Rightarrow> ('s \<Rightarrow> ('a \<times> 's) result) \<Rightarrow> 'a cop list \<Rightarrow> 's
    \<Rightarrow> ('a list \<times> 's) result" where
  "run_ops push pop [] s = Inr ([], s)"
| "run_ops push pop (Put x # ops) s = rbind (push x s) (\<lambda>s'. run_ops push pop ops s')"
| "run_ops push pop (Get # ops) s =
     rbind (pop s) (\<lambda>(v, s'). rbind (run_ops push pop ops s') (\<lambda>(vs, s''). Inr (v # vs, s'')))"

fun spec_ops :: "('a \<Rightarrow> 'a list \<Rightarrow> 'a list) \<Rightarrow> 'a cop list \<Rightarrow> 'a list \<Rightarrow> ('a list \<times> 'a list) option" where
  "spec_ops add [] xs = Some ([], xs)"
| "spec_ops add (Put x # ops) xs = spec_ops add ops (add x xs)"
| "spec_ops add (Get # ops) [] = None"
| "spec_ops add (Get # ops) (x # xs) =
     (case spec_ops add ops xs of None \<Rightarrow> None | Some (vs, ys) \<Rightarrow> Some (x # vs, ys))"

text \<open>
  \<open>fits g ops n\<close>: with room for \<open>n\<close> values at the start, and \<open>g\<close> places regained by every
  \<open>Get\<close>, no \<open>Put\<close> of the sequence finds the container without room.
\<close>

fun fits :: "nat \<Rightarrow> 'a cop list \<Rightarrow> nat \<Rightarrow> bool" where
  "fits g [] n = True"
| "fits g (Put x # ops) n = (0 < n \<and> fits g ops (n - 1))"
| "fits g (Get # ops) n = fits g ops (n + g)"

lemma fits_Get [simp]: "fits g (replicate k Get) n"
  by (induction k arbitrary: n) auto

lemma fits_Put: "fits g (map Put xs @ replicate k Get) n \<longleftrightarrow> length xs \<le> n"
proof (induction xs arbitrary: n)
  case (Cons x xs)
  show ?case by (cases n) (simp_all add: Cons.IH)
qed simp

section \<open>Containers\<close>

text \<open>
  \<open>room n s\<close>: \<open>n\<close> more values can be put without a failing allocation; a \<open>pop\<close> makes room
  for \<open>gain\<close> more.
\<close>

locale container =
  fixes inv :: "'s \<Rightarrow> bool"
    and contents :: "'s \<Rightarrow> 'a list"
    and room :: "nat \<Rightarrow> 's \<Rightarrow> bool"
    and push :: "'a \<Rightarrow> 's \<Rightarrow> 's result"
    and pop :: "'s \<Rightarrow> ('a \<times> 's) result"
    and is_empty :: "'s \<Rightarrow> bool"
    and add :: "'a \<Rightarrow> 'a list \<Rightarrow> 'a list"
    and gain :: nat
  assumes push_ok: "inv s \<Longrightarrow> room (Suc n) s \<Longrightarrow>
      \<exists>s'. push x s = Inr s' \<and> inv s' \<and> contents s' = add x (contents s) \<and> room n s'"
    and pop_ok: "inv s \<Longrightarrow> contents s = x # xs \<Longrightarrow>
      \<exists>s'. pop s = Inr (x, s') \<and> inv s' \<and> contents s' = xs \<and> (\<forall>n. room n s \<longrightarrow> room (n + gain) s')"
    and empty_iff: "inv s \<Longrightarrow> is_empty s \<longleftrightarrow> contents s = []"
begin

lemma run_refines:
  assumes "inv s" and "room n s" and "fits gain ops n" and "spec_ops add ops (contents s) = Some (vs, ys)"
  shows "\<exists>s'. run_ops push pop ops s = Inr (vs, s') \<and> inv s' \<and> contents s' = ys"
  using assms
proof (induction ops arbitrary: s vs n)
  case Nil
  then show ?case by simp
next
  case (Cons op ops)
  show ?case
  proof (cases op)
    case (Put x)
    with Cons.prems push_ok[of s "n - 1" x] obtain s' where
      "push x s = Inr s'" "inv s'" "contents s' = add x (contents s)" "room (n - 1) s'" by auto
    with Cons.IH[of s' "n - 1" vs] Cons.prems Put show ?thesis by simp
  next
    case Get
    with Cons.prems obtain x xs vs' where x: "contents s = x # xs"
      and rest: "spec_ops add ops xs = Some (vs', ys)" "vs = x # vs'"
      by (cases "contents s") (auto split: option.splits)
    from pop_ok[OF Cons.prems(1) x] Cons.prems(2) Get obtain s' where
      "pop s = Inr (x, s')" "inv s'" "contents s' = xs" "room (n + gain) s'" by auto
    with Cons.IH[of s' "n + gain" vs'] Cons.prems(3) rest Get show ?thesis by auto
  qed
qed

text \<open>Popping until empty takes exactly as many steps as there are values.\<close>

lemma drain:
  assumes "inv s" and "contents s = xs"
  shows "\<exists>s'. run_ops push pop (replicate (length xs) Get) s = Inr (xs, s') \<and> inv s' \<and> is_empty s'"
  using assms
proof (induction xs arbitrary: s)
  case Nil
  then show ?case using empty_iff by simp
next
  case (Cons x xs)
  from pop_ok[OF Cons.prems] obtain s' where "pop s = Inr (x, s')" "inv s'" "contents s' = xs"
    by blast
  with Cons.IH[of s'] show ?case by auto
qed

end

section \<open>First in, first out\<close>

locale fifo =
  container inv contents room push pop is_empty "\<lambda>x xs. xs @ [x]" 1
  for inv :: "'s \<Rightarrow> bool" and contents :: "'s \<Rightarrow> 'a list" and room push pop is_empty +
  fixes null :: 'a
  assumes pop_empty: "inv s \<Longrightarrow> contents s = [] \<Longrightarrow> pop s = Inr (null, s)"
begin

lemma put_all:
  "spec_ops (\<lambda>x xs. xs @ [x]) (map Put ys @ ops) xs = spec_ops (\<lambda>x xs. xs @ [x]) ops (xs @ ys)"
  by (induction ys arbitrary: xs) simp_all

lemma get_all:
  "spec_ops (\<lambda>x xs. xs @ [x]) (replicate (length xs) Get) xs = Some (xs, [])"
  by (induction xs) simp_all

text \<open>Values come out in the order in which they went in.\<close>

lemma fifo_order:
  assumes "inv s" and "contents s = []" and "room (length xs) s"
  shows "\<exists>s'. run_ops push pop (map Put xs @ replicate (length xs) Get) s = Inr (xs, s') \<and> is_empty s'"
  using run_refines[OF assms(1,3), of "map Put xs @ replicate (length xs) Get" xs "[]"]
    assms empty_iff by (auto simp: put_all get_all fits_Put)

text \<open>Two values put together come out together: how the pool stores a job.\<close>

lemma put_pair:
  assumes "inv s" and "room (Suc (Suc n)) s"
  shows "\<exists>s' s''. push x s = Inr s' \<and> push y s' = Inr s'' \<and> inv s'' \<and>
    contents s'' = contents s @ [x, y] \<and> room n s''"
  using push_ok[OF assms, of x] push_ok[of _ n y] by fastforce

end

section \<open>Last in, first out\<close>

locale lifo =
  container inv contents room push pop is_empty "(#)" 0
  for inv :: "'s \<Rightarrow> bool" and contents :: "'s \<Rightarrow> 'a list" and room push pop is_empty
begin

lemma put_all: "spec_ops (#) (map Put ys @ ops) xs = spec_ops (#) ops (rev ys @ xs)"
  by (induction ys arbitrary: xs) simp_all

lemma get_all: "spec_ops (#) (replicate (length xs) Get) xs = Some (xs, [])"
  by (induction xs) simp_all

lemma lifo_order:
  assumes "inv s" and "contents s = []" and "room (length xs) s"
  shows "\<exists>s'. run_ops push pop (map Put xs @ replicate (length xs) Get) s = Inr (rev xs, s') \<and>
    is_empty s'"
  using run_refines[OF assms(1,3), of "map Put xs @ replicate (length xs) Get" "rev xs" "[]"]
    assms empty_iff get_all[of "rev xs"] by (auto simp: put_all fits_Put)

lemma push_pop:
  assumes "inv s" and "room (Suc n) s"
  shows "\<exists>s' s''. push x s = Inr s' \<and> pop s' = Inr (x, s'') \<and> inv s'' \<and> contents s'' = contents s"
proof -
  from push_ok[OF assms, of x] obtain s' where
    "push x s = Inr s'" "inv s'" "contents s' = x # contents s" by auto
  with pop_ok[of s' x "contents s"] show ?thesis by blast
qed

end

section \<open>Sets of indices\<close>

text \<open>
  A set kept as bits, the contract the endpoints rely on for their connected clients: \<open>put i v\<close>
  makes \<open>i\<close> a member or removes it, \<open>get\<close> decides membership where it returns, and always
  returns for an index that has been put.
\<close>

definition upd_member :: "'i \<times> bool \<Rightarrow> 'i set \<Rightarrow> 'i set" where
  "upd_member u A = (if snd u then insert (fst u) A else A - {fst u})"

locale index_set =
  fixes inv :: "'s \<Rightarrow> bool"
    and members :: "'s \<Rightarrow> 'i set"
    and room :: "nat \<Rightarrow> 's \<Rightarrow> bool"
    and put :: "'i \<Rightarrow> bool \<Rightarrow> 's \<Rightarrow> 's result"
    and get :: "'i \<Rightarrow> 's \<Rightarrow> bool result"
  assumes put_ok: "inv s \<Longrightarrow> room (Suc n) s \<Longrightarrow>
      \<exists>s'. put i v s = Inr s' \<and> inv s' \<and> members s' = upd_member (i, v) (members s) \<and> room n s'"
    and get_member: "inv s \<Longrightarrow> i \<in> members s \<Longrightarrow> get i s = Inr True"
    and get_sound: "inv s \<Longrightarrow> get i s = Inr v \<Longrightarrow> v \<longleftrightarrow> i \<in> members s"
    and get_put: "inv s \<Longrightarrow> put i v s = Inr s' \<Longrightarrow> get i s' = Inr v"
begin

text \<open>A sequence of updates leaves the set a sequence of insertions and removals leaves.\<close>

lemma put_all:
  assumes "inv s" and "room (length us) s"
  shows "\<exists>s'. rfold (\<lambda>(i, v). put i v) us s = Inr s' \<and> inv s' \<and>
    members s' = fold upd_member us (members s)"
  using assms
proof (induction us arbitrary: s)
  case Nil
  then show ?case by simp
next
  case (Cons u us)
  obtain i v where u: "u = (i, v)" by (cases u)
  from put_ok[of s "length us" i v] Cons.prems obtain s1 where s1: "put i v s = Inr s1" "inv s1"
    "members s1 = upd_member u (members s)" "room (length us) s1" by (auto simp: u)
  from Cons.IH[OF s1(2,4)] s1 u show ?case by simp
qed

lemma get_after_puts:
  assumes "inv s" and "room (length us) s" and "i \<in> fold upd_member us (members s)"
  shows "\<exists>s'. rfold (\<lambda>(i, v). put i v) us s = Inr s' \<and> get i s' = Inr True"
  using put_all[OF assms(1,2)] get_member assms(3) by blast

end

section \<open>Stepwise refinement\<close>

text \<open>
  A component whose every operation does what an abstract operation does, as long as the operation
  is legal and the component is granted the resources the operation costs: \<open>rep n s a\<close> says that
  the state \<open>s\<close> represents \<open>a\<close> and that resources for a total cost of \<open>n\<close> are left.
\<close>

fun run_steps :: "('o \<Rightarrow> 's \<Rightarrow> ('r \<times> 's) result) \<Rightarrow> 'o list \<Rightarrow> 's \<Rightarrow> ('r list \<times> 's) result" where
  "run_steps step [] s = Inr ([], s)"
| "run_steps step (p # ps) s =
     rbind (step p s) (\<lambda>(r, s1). rbind (run_steps step ps s1) (\<lambda>(rs, s2). Inr (r # rs, s2)))"

fun spec_steps :: "('o \<Rightarrow> 'a \<Rightarrow> 'r \<times> 'a) \<Rightarrow> 'o list \<Rightarrow> 'a \<Rightarrow> 'r list \<times> 'a" where
  "spec_steps spec [] a = ([], a)"
| "spec_steps spec (p # ps) a =
     (let (r, a1) = spec p a; (rs, a2) = spec_steps spec ps a1 in (r # rs, a2))"

locale stepwise_refinement =
  fixes rep :: "nat \<Rightarrow> 's \<Rightarrow> 'a \<Rightarrow> bool"
    and step :: "'o \<Rightarrow> 's \<Rightarrow> ('r \<times> 's) result"
    and spec :: "'o \<Rightarrow> 'a \<Rightarrow> 'r \<times> 'a"
    and cost :: "'o \<Rightarrow> nat"
    and legal :: "'o \<Rightarrow> bool"
  assumes step_ok: "rep (cost p + n) s a \<Longrightarrow> legal p \<Longrightarrow>
      \<exists>s'. step p s = Inr (fst (spec p a), s') \<and> rep n s' (snd (spec p a))"
begin

lemma steps_ok:
  assumes "rep (sum_list (map cost ps) + n) s a" and "\<forall>p \<in> set ps. legal p"
  shows "\<exists>s'. run_steps step ps s = Inr (fst (spec_steps spec ps a), s') \<and> rep n s' (snd (spec_steps spec ps a))"
  using assms
proof (induction ps arbitrary: s a)
  case Nil
  then show ?case by simp
next
  case (Cons p ps)
  from step_ok[of p "sum_list (map cost ps) + n" s a] Cons.prems obtain s1 where
    "step p s = Inr (fst (spec p a), s1)" "rep (sum_list (map cost ps) + n) s1 (snd (spec p a))"
    by (auto simp: add.assoc)
  with Cons.IH[of s1 "snd (spec p a)"] Cons.prems(2) show ?case by (auto simp: split_beta)
qed

end

section \<open>Runs with named faults\<close>

text \<open>A system whose components take turns: a step from a state of the invariant keeps it, with a budget
  that shrinks by the cost of a step, or ends in one of the named faults.  Then so does every schedule.\<close>

locale guarded_steps =
  fixes inv :: "nat \<Rightarrow> 's \<Rightarrow> bool"
    and step :: "'o \<Rightarrow> 's \<Rightarrow> 's result"
    and cost :: nat
    and faults :: "fault set"
  assumes step_ok: "inv (cost + n) s \<Longrightarrow> case step p s of Inl e \<Rightarrow> e \<in> faults | Inr s' \<Rightarrow> inv n s'"
begin

lemma run_ok:
  assumes "inv (cost * length ps + n) s"
  shows "case rfold step ps s of Inl e \<Rightarrow> e \<in> faults | Inr s' \<Rightarrow> inv n s'"
  using assms
proof (induction ps arbitrary: s)
  case (Cons p ps)
  have "inv (cost + (cost * length ps + n)) s" using Cons.prems by (simp add: add.assoc)
  from step_ok[OF this, of p] show ?case
    using Cons.IH by (cases "step p s") simp_all
qed simp

end

section \<open>Simulation of an abstract machine\<close>

text \<open>A concurrent system that does what an abstract machine does, action by action: \<open>rel ps s a\<close> says that
  the actions \<open>ps\<close> have been done and that the machine is in \<open>a\<close> when the system is in \<open>s\<close>.  A step of the
  system is an action that the machine allows, or no action at all.\<close>

primrec run_acts :: "('o \<Rightarrow> 'a \<Rightarrow> 'a option) \<Rightarrow> 'o list \<Rightarrow> 'a \<Rightarrow> 'a option" where
  "run_acts act [] a = Some a"
| "run_acts act (p # ps) a = (case act p a of None \<Rightarrow> None | Some a' \<Rightarrow> run_acts act ps a')"

lemma run_acts_snoc: "run_acts act ps a = Some b \<Longrightarrow> act p b = Some c \<Longrightarrow> run_acts act (ps @ [p]) a = Some c"
  by (induction ps arbitrary: a) (auto split: option.splits)

locale action_simulation =
  fixes inv :: "'s \<Rightarrow> bool"
    and step :: "'s \<Rightarrow> 's \<Rightarrow> bool"
    and act :: "'o \<Rightarrow> 'a \<Rightarrow> 'a option"
    and rel :: "'o list \<Rightarrow> 's \<Rightarrow> 'a \<Rightarrow> bool"
  assumes inv_step: "inv s \<Longrightarrow> step s s' \<Longrightarrow> inv s'"
    and sim_step: "inv s \<Longrightarrow> rel ps s a \<Longrightarrow> step s s' \<Longrightarrow>
      rel ps s' a \<or> (\<exists>p a'. act p a = Some a' \<and> rel (ps @ [p]) s' a')"
begin

lemma runs_simulated:
  assumes "step\<^sup>*\<^sup>* s s'" and "inv s" and "rel [] s a"
  shows "inv s' \<and> (\<exists>ps a'. run_acts act ps a = Some a' \<and> rel ps s' a')"
  using assms(1)
proof (induction rule: rtranclp_induct)
  case base
  then show ?case using assms(2,3) by (auto intro!: exI[of _ "[]"])
next
  case (step t u)
  then obtain ps b where b: "run_acts act ps a = Some b" "rel ps t b" "inv t" by blast
  from sim_step[OF b(3,2) step.hyps(2)] have "\<exists>ps a'. run_acts act ps a = Some a' \<and> rel ps u a'"
    using b(1) run_acts_snoc by metis
  then show ?case using inv_step[OF b(3) step.hyps(2)] by blast
qed

end

section \<open>Fair schedules\<close>

text \<open>
  A system whose turns never bring back work that was done, and in which some actor of the set \<open>actors\<close> can
  always move until it has finished.  Then every schedule of enough rounds in each of which all of them move
  brings the system to its end.
\<close>

locale fair_progress =
  fixes step :: "'o \<Rightarrow> 's \<Rightarrow> 's result"
    and good :: "'s \<Rightarrow> bool"
    and finished :: "'s \<Rightarrow> bool"
    and left :: "'s \<Rightarrow> nat"
    and actors :: "'o set"
  assumes good_step: "good s \<Longrightarrow> step p s = Inr s' \<Longrightarrow> good s'"
    and step_left: "good s \<Longrightarrow> step p s = Inr s' \<Longrightarrow> s' = s \<or> left s' < left s"
    and enabled: "good s \<Longrightarrow> \<not> finished s \<Longrightarrow> \<exists>p \<in> actors. step p s \<noteq> Inr s"
    and finished_step: "good s \<Longrightarrow> finished s \<Longrightarrow> step p s = Inr s' \<Longrightarrow> finished s'"
begin

lemma schedule_keeps:
  assumes "rfold step ps s = Inr s'" and "good s"
  shows "good s' \<and> (finished s \<longrightarrow> finished s') \<and> left s' \<le> left s"
  using assms
proof (induction ps arbitrary: s)
  case (Cons p ps)
  then obtain t where t: "step p s = Inr t" "rfold step ps t = Inr s'" by (auto simp: rbind_Inr_iff)
  have "left t \<le> left s" using step_left[OF Cons.prems(2) t(1)] by auto
  then show ?case
    using Cons.IH[OF t(2) good_step[OF Cons.prems(2) t(1)]] finished_step[OF Cons.prems(2) _ t(1)] by auto
qed simp

text \<open>A schedule that lets every actor move once brings the work down, unless there is none left.\<close>

lemma schedule_idle:
  assumes "rfold step ps s = Inr s'" and "good s" and "left s' = left s"
  shows "s' = s \<and> (\<forall>p \<in> set ps. step p s = Inr s)"
  using assms
proof (induction ps arbitrary: s)
  case (Cons p ps)
  then obtain t where t: "step p s = Inr t" "rfold step ps t = Inr s'" by (auto simp: rbind_Inr_iff)
  have "left s' \<le> left t" using schedule_keeps[OF t(2) good_step[OF Cons.prems(2) t(1)]] by simp
  then have "t = s" using step_left[OF Cons.prems(2) t(1)] Cons.prems(3) by auto
  then show ?case using Cons.IH[of s] Cons.prems(2,3) t by auto
qed simp

lemma round_works:
  assumes "rfold step ps s = Inr s'" and "good s" and "actors \<subseteq> set ps"
  shows "finished s' \<or> left s' < left s"
proof (rule disjCI)
  assume "\<not> left s' < left s"
  then have "left s' = left s" using schedule_keeps[OF assms(1,2)] by simp
  from schedule_idle[OF assms(1,2) this] show "finished s'" using enabled[OF assms(2)] assms(3) by auto
qed

lemma rounds_finish:
  assumes "rfold step (concat rounds) s = Inr s'" and "good s" and "\<forall>r \<in> set rounds. actors \<subseteq> set r"
    and "left s < length rounds"
  shows "finished s'"
  using assms
proof (induction rounds arbitrary: s)
  case (Cons r rounds)
  then obtain t where t: "rfold step r s = Inr t" "rfold step (concat rounds) t = Inr s'"
    by (auto simp: rfold_append rbind_Inr_iff)
  note keeps = schedule_keeps[OF t(1) Cons.prems(2)]
  show ?case
  proof (cases "finished t")
    case True
    then show ?thesis using schedule_keeps[OF t(2)] keeps by blast
  next
    case False
    then have "left t < left s" using round_works[OF t(1) Cons.prems(2)] Cons.prems(3) by auto
    then show ?thesis using Cons.IH[OF t(2)] keeps Cons.prems(3,4) by simp
  qed
qed simp

end

end
