(* ===== verification/Job_Queue.thy ===== *)
theory Job_Queue
  imports C_Prelude Interfaces
begin

text \<open>
  The growable ring buffer of \<open>src/unix/queue.c\<close> (\<open>include/unix/queue.h\<close>), with its
  buffer in the heap.  \<open>q_inv\<close> is its representation invariant, \<open>q_list\<close> the list of the
  values it holds, oldest first.  The lemmas show that every operation keeps the invariant and
  does to that list what a first-in first-out queue does, that the buffer is reallocated
  without losing a value and without leaking the old block, and where growing stops.
  The locale \<open>fifo\<close> states the contract the worker pool relies on.
\<close>

section \<open>The operations\<close>

record queue =
  q_front :: int
  q_back :: int
  q_size :: int
  q_range_mask :: int
  q_data :: ptr

definition CUSTOM_QUEUE_DEFAULT_SIZE :: int where
  "CUSTOM_QUEUE_DEFAULT_SIZE = 8"

fun MSB_loop :: "64 word \<Rightarrow> 64 word \<Rightarrow> nat \<Rightarrow> nat" where
  "MSB_loop number val m =
     (if number AND val = 0 \<and> m \<noteq> 0 then MSB_loop number (drop_bit 1 val) (m - 1) else m)"

declare MSB_loop.simps [simp del, c_eval]

definition MSB :: "int \<Rightarrow> nat" where
  "MSB number = MSB_loop (word_of_int number) (push_bit 63 1) 63"

definition q_create :: "heap \<Rightarrow> queue \<times> heap" where
  "q_create h =
    (let (p, h') = malloc (8 * word_of_int CUSTOM_QUEUE_DEFAULT_SIZE) h
     in (\<lparr>q_front = 0, q_back = 0, q_size = 0, q_range_mask = CUSTOM_QUEUE_DEFAULT_SIZE - 1,
          q_data = p\<rparr>, h'))"

definition q_is_empty :: "queue \<Rightarrow> bool" where
  "q_is_empty q \<longleftrightarrow> q_size q = 0"

definition q_next :: "queue \<Rightarrow> heap \<Rightarrow> (64 word \<times> queue) result" where
  "q_next q h =
    (if q_size q \<le> 0 then Inr (0, q)
     else rbind (load (q_data q) (q_front q) h) (\<lambda>next.
       rbind (chk_long (q_front q + 1)) (\<lambda>front.
       rbind (chk_long (q_size q - 1)) (\<lambda>size.
       Inr (next, q\<lparr>q_front := front AND q_range_mask q, q_size := size\<rparr>)))))"

text \<open>The loop of \<open>q_resize\<close>: \<open>new_data[i] = q_next(q)\<close> for \<open>i < move_size\<close>.\<close>

function q_move :: "ptr \<Rightarrow> int \<Rightarrow> int \<Rightarrow> queue \<Rightarrow> heap \<Rightarrow> (queue \<times> heap) result" where
  "q_move new_data i move_size q h =
    (if i < move_size
     then rbind (q_next q h) (\<lambda>(v, q').
            rbind (store new_data i v h) (\<lambda>h'. q_move new_data (i + 1) move_size q' h'))
     else Inr (q, h))"
  by pat_completeness auto
termination
  by (relation "measure (\<lambda>(p, i, n, q, h). nat (n - i))") auto

declare q_move.simps [simp del, c_eval]

definition q_resize :: "queue \<Rightarrow> int \<Rightarrow> heap \<Rightarrow> (queue \<times> heap) result" where
  "q_resize q req h =
    rbind (int_shl1 (MSB req)) (\<lambda>s.
    rbind (int_shl1 (if req > s then MSB req + 1 else MSB req)) (\<lambda>new_size.
    rbind (chk_long (q_range_mask q + 1)) (\<lambda>cap.
    if new_size = cap then Inr (q, h)
    else
      (let (new_data, h1) = malloc (word_of_int new_size * 8) h;
           move_size = (if q_size q < new_size then q_size q else new_size)
       in rbind (q_move new_data 0 move_size q h1) (\<lambda>(q1, h2).
          rbind (free (q_data q1) h2) (\<lambda>h3.
          Inr (q1\<lparr>q_data := new_data, q_size := move_size, q_range_mask := new_size - 1,
                  q_front := 0, q_back := move_size AND (new_size - 1)\<rparr>, h3)))))))"

text \<open>The part of \<open>q_push\<close> after the growth check, and the whole function.\<close>

definition q_append :: "queue \<Rightarrow> 64 word \<Rightarrow> heap \<Rightarrow> (queue \<times> heap) result" where
  "q_append q v h =
    rbind (store (q_data q) (q_back q) v h) (\<lambda>h'.
    rbind (chk_long (q_size q + 1)) (\<lambda>size.
    rbind (chk_long (q_back q + 1)) (\<lambda>back.
    Inr (q\<lparr>q_size := size, q_back := back AND q_range_mask q\<rparr>, h'))))"

definition q_push :: "queue \<Rightarrow> 64 word \<Rightarrow> heap \<Rightarrow> (queue \<times> heap) result" where
  "q_push q v h =
    rbind (chk_long (q_range_mask q + 1)) (\<lambda>cap.
    if q_size q \<ge> cap
    then rbind (chk_long (cap * 2)) (\<lambda>n.
           rbind (q_resize q n h) (\<lambda>(q', h'). q_append q' v h'))
    else q_append q v h)"

definition q_destroy :: "queue \<Rightarrow> heap \<Rightarrow> heap result" where
  "q_destroy q h = free (q_data q) h"

lemmas queue_run_defs [c_eval] =
  CUSTOM_QUEUE_DEFAULT_SIZE_def MSB_def q_create_def q_is_empty_def q_next_def q_resize_def
  q_append_def q_push_def q_destroy_def

section \<open>The most significant bit\<close>

lemma MSB_loop_spec:
  assumes "val = push_bit m 1" and "m < 64" and "\<forall>j>m. \<not> bit number j"
  shows "MSB_loop number val m \<le> m \<and>
    (bit number (MSB_loop number val m) \<or> MSB_loop number val m = 0) \<and>
    (\<forall>j > MSB_loop number val m. \<not> bit number j)"
  using assms
proof (induction number val m rule: MSB_loop.induct)
  case (1 number val m)
  have bit_m: "number AND val = 0 \<longleftrightarrow> \<not> bit number m"
    using "1.prems" by (simp add: push_bit_eq_mult and_exp_eq_0_iff_not_bit)
  show ?case
  proof (cases "number AND val = 0 \<and> m \<noteq> 0")
    case True
    then obtain k where k: "m = Suc k" by (cases m) auto
    have val: "drop_bit 1 val = push_bit (m - 1) 1"
      using "1.prems"(1,2) k by (auto intro!: bit_word_eqI simp: bit_simps)
    have "\<forall>j > m - 1. \<not> bit number j"
      using "1.prems"(3) True bit_m k by (metis Suc_lessI diff_Suc_1)
    moreover have "MSB_loop number val m = MSB_loop number (drop_bit 1 val) (m - 1)"
      using True by (simp add: MSB_loop.simps[of number val m])
    ultimately show ?thesis
      using "1.IH"[OF True val] "1.prems"(2) by simp linarith
  next
    case False
    then have "MSB_loop number val m = m"
      by (subst MSB_loop.simps) (rule if_not_P)
    moreover have "bit number m \<or> m = 0" using False bit_m by blast
    ultimately show ?thesis using "1.prems"(3) by simp
  qed
qed

lemma MSB_bounds:
  assumes "0 < n" and "n < 2 ^ 63"
  shows "2 ^ MSB n \<le> n \<and> n < 2 ^ (MSB n + 1) \<and> MSB n < 63"
proof -
  let ?w = "word_of_int n :: 64 word"
  have hi: "\<not> bit n j" if "63 \<le> j" for j
  proof -
    have "n = take_bit 63 n" using assms by (simp add: take_bit_int_eq_self)
    then show ?thesis using that by (metis bit_take_bit_iff not_le)
  qed
  have wbit: "bit ?w j \<longleftrightarrow> bit n j" for j
    using hi[of j] by (cases "63 \<le> j") (auto simp: bit_word_of_int_iff)
  have start: "\<forall>j>63. \<not> bit ?w j" by (auto simp: bit_word_of_int_iff)
  have top: "bit n (MSB n) \<or> MSB n = 0" and above: "\<And>j. j > MSB n \<Longrightarrow> \<not> bit n j"
    using MSB_loop_spec[OF refl _ start] by (auto simp: MSB_def wbit)
  have "take_bit (MSB n + 1) n = n"
    by (rule bit_eqI) (metis above bit_take_bit_iff not_less_eq Suc_eq_plus1)
  then have upper: "n < 2 ^ (MSB n + 1)"
    by (metis take_bit_int_less_exp)
  have "n div 2 ^ MSB n > 0" if "bit n (MSB n)"
    using that assms(1)
    by (metis bit_iff_odd even_zero order_le_less pos_imp_zdiv_nonneg_iff zero_less_numeral zero_less_power)
  then have lower: "2 ^ MSB n \<le> n"
    using top assms(1) by (cases "MSB n = 0") (auto simp: pos_imp_zdiv_pos_iff)
  have "(2::int) ^ MSB n < 2 ^ 63" using lower assms(2) by linarith
  then have "MSB n < 63" using power_less_imp_less_exp[of "2::int" "MSB n" 63] by simp
  with lower upper show ?thesis by simp
qed

lemma MSB_unique:
  assumes "2 ^ k \<le> n" and "n < 2 ^ (k + 1)" and "k < 63"
  shows "MSB n = k"
proof -
  have "(0::int) < 2 ^ k" by simp
  with assms have pos: "0 < n" by linarith
  have "(2::int) ^ (k + 1) \<le> 2 ^ 63" using assms(3) by (intro power_increasing) auto
  with assms have "n < 2 ^ 63" by linarith
  from MSB_bounds[OF pos this] have m: "2 ^ MSB n \<le> n" "n < 2 ^ (MSB n + 1)" by auto
  have "(2::int) ^ MSB n < 2 ^ (k + 1)" "(2::int) ^ k < 2 ^ (MSB n + 1)"
    using m assms by linarith+
  then have "MSB n < k + 1" "k < MSB n + 1"
    by (simp_all only: power_strict_increasing_iff one_less_numeral_iff semiring_norm)
  then show ?thesis by simp
qed

section \<open>Invariant and abstraction\<close>

text \<open>
  \<open>q_shape q h k cs\<close>: the buffer is a live block of \<open>2 ^ k\<close> cells \<open>cs\<close>, \<open>_back\<close> is the
  slot after the last value, and the occupied slots are initialised.
\<close>

definition q_shape :: "queue \<Rightarrow> heap \<Rightarrow> nat \<Rightarrow> cell list \<Rightarrow> bool" where
  "q_shape q h k cs \<longleftrightarrow>
    k < 31 \<and> q_range_mask q = 2 ^ k - 1 \<and>
    q_data q \<noteq> 0 \<and> mem h (q_data q) = Some cs \<and> length cs = 2 ^ k \<and>
    0 \<le> q_front q \<and> q_front q < 2 ^ k \<and> 0 \<le> q_size q \<and> q_size q \<le> 2 ^ k \<and>
    q_back q = (q_front q + q_size q) mod 2 ^ k \<and>
    (\<forall>j < nat (q_size q). cs ! nat ((q_front q + int j) mod 2 ^ k) \<noteq> None)"

definition q_inv :: "queue \<Rightarrow> heap \<Rightarrow> bool" where
  "q_inv q h \<longleftrightarrow> (\<exists>k cs. q_shape q h k cs)"

definition q_list :: "queue \<Rightarrow> heap \<Rightarrow> 64 word list" where
  "q_list q h =
    (case mem h (q_data q) of
       None \<Rightarrow> []
     | Some cs \<Rightarrow>
         map (\<lambda>j. the (cs ! nat ((q_front q + int j) mod (q_range_mask q + 1))))
           [0..<nat (q_size q)])"

lemma q_shape_exp:
  assumes "q_inv q h" and "q_range_mask q = 2 ^ k - 1"
  obtains cs where "q_shape q h k cs"
proof -
  obtain k' cs where sh: "q_shape q h k' cs" using assms(1) by (auto simp: q_inv_def)
  then have "(2::int) ^ k' = 2 ^ k" using assms(2) by (simp add: q_shape_def)
  then have "k' = k" by (simp add: power_inject_exp)
  then show ?thesis using sh that by simp
qed

lemma q_list_eq:
  assumes "q_shape q h k cs"
  shows "q_list q h = map (\<lambda>j. the (cs ! nat ((q_front q + int j) mod 2 ^ k))) [0..<nat (q_size q)]"
  using assms by (simp add: q_list_def q_shape_def)

lemma length_q_list: "q_inv q h \<Longrightarrow> int (length (q_list q h)) = q_size q"
  by (auto simp: q_inv_def q_list_eq) (auto simp: q_shape_def)

lemma q_is_empty_iff: "q_inv q h \<Longrightarrow> q_is_empty q \<longleftrightarrow> q_list q h = []"
  using length_q_list[of q h] by (auto simp: q_is_empty_def)

lemma slot_in_range: "(nat (i mod 2 ^ k) :: nat) < 2 ^ k"
  by (simp add: nat_less_iff)

text \<open>Only the queue's own block matters.\<close>

lemma q_frame:
  assumes "mem h' (q_data q) = mem h (q_data q)"
  shows "q_list q h' = q_list q h" and "q_inv q h' = q_inv q h"
  using assms by (simp_all add: q_list_def q_inv_def q_shape_def)

section \<open>Creation, removal and the move loop\<close>

lemma q_create_ok:
  assumes "can_alloc h"
  obtains q h' where "q_create h = (q, h')" and "q_inv q h'" and "q_list q h' = []"
    and "mem h (q_data q) = None" and "q_data q \<noteq> 0"
    and "\<forall>a. a \<noteq> q_data q \<longrightarrow> mem h' a = mem h a" and "answers h' = tl (answers h)"
    and "q_range_mask q = 7" and "q_data q = hd (answers h)"
proof -
  obtain p where p: "p = hd (answers h)" "p \<noteq> 0" "mem h p = None"
    "malloc (8 * 8) h = (p, put_block p (replicate (unat (8 * 8 :: 64 word) div 8) None)
      (h\<lparr>answers := tl (answers h)\<rparr>))"
    using malloc_ok[OF assms] by blast
  let ?q = "\<lparr>q_front = 0, q_back = 0, q_size = 0, q_range_mask = 7, q_data = p\<rparr>"
  let ?h = "put_block p (replicate 8 None) (h\<lparr>answers := tl (answers h)\<rparr>)"
  have "q_shape ?q ?h 3 (replicate 8 None)" using p by (simp add: q_shape_def)
  then have "q_inv ?q ?h" unfolding q_inv_def by blast
  moreover have "q_create h = (?q, ?h)"
    using p by (simp add: q_create_def CUSTOM_QUEUE_DEFAULT_SIZE_def)
  moreover have "q_list ?q ?h = []" by (simp add: q_list_def)
  ultimately show ?thesis using that p by fastforce
qed

lemma q_next_empty: "q_size q \<le> 0 \<Longrightarrow> q_next q h = Inr (0, q)"
  by (simp add: q_next_def)

text \<open>The queue after one removal.\<close>

definition q_drop1 :: "queue \<Rightarrow> queue" where
  "q_drop1 q = q\<lparr>q_front := (q_front q + 1) AND q_range_mask q, q_size := q_size q - 1\<rparr>"

lemma q_drop1_data [simp]: "q_data (q_drop1 q) = q_data q" "q_range_mask (q_drop1 q) = q_range_mask q"
  "q_size (q_drop1 q) = q_size q - 1" "q_back (q_drop1 q) = q_back q"
  by (simp_all add: q_drop1_def)

lemma q_shape_bounds:
  assumes "q_shape q h k cs"
  shows "(2::int) ^ k \<le> 2 ^ 30" and "q_front q < 2 ^ 30" and "q_size q \<le> 2 ^ 30"
proof -
  show k: "(2::int) ^ k \<le> 2 ^ 30"
    using assms by (intro power_increasing) (auto simp: q_shape_def)
  show "q_front q < 2 ^ 30" "q_size q \<le> 2 ^ 30"
    using assms k unfolding q_shape_def by linarith+
qed

lemma q_next_step:
  assumes sh: "q_shape q h k cs" and pos: "0 < q_size q"
  shows "q_next q h = Inr (hd (q_list q h), q_drop1 q)" (is ?eq)
    and "q_shape (q_drop1 q) h k cs" (is ?shape)
    and "q_list (q_drop1 q) h = tl (q_list q h)" (is ?list)
proof -
  have mask: "q_range_mask q = 2 ^ k - 1" and front: "0 \<le> q_front q" "q_front q < 2 ^ k"
    using sh by (simp_all add: q_shape_def)
  have f1: "q_front (q_drop1 q) = (q_front q + 1) mod 2 ^ k"
    by (simp add: q_drop1_def mask and_mask_mod)
  have slot: "(q_front (q_drop1 q) + int j) mod 2 ^ k = (q_front q + int (Suc j)) mod 2 ^ k" for j
    unfolding f1 mod_add_left_eq by (simp add: algebra_simps)
  have n: "nat (q_size q) = Suc (nat (q_size q - 1))" using pos by simp
  have hd: "hd (q_list q h) = the (cs ! nat (q_front q))"
    using front by (simp add: q_list_eq[OF sh] n upt_conv_Cons del: upt_Suc)
  have "cs ! nat (q_front q) = Some (hd (q_list q h))"
    using sh pos front unfolding hd q_shape_def by fastforce
  then have "load (q_data q) (q_front q) h = Inr (hd (q_list q h))"
    using sh by (intro load_ok[of _ _ cs]) (auto simp: q_shape_def)
  then show ?eq
    using pos front q_shape_bounds[OF sh] by (simp add: q_next_def q_drop1_def)
  have "(q_front (q_drop1 q) + (q_size q - 1)) mod 2 ^ k = q_back q"
    using sh unfolding f1 mod_add_left_eq by (simp add: q_shape_def algebra_simps)
  moreover have "cs ! nat ((q_front (q_drop1 q) + int j) mod 2 ^ k) \<noteq> None"
    if "j < nat (q_size q - 1)" for j
    using sh that pos unfolding slot q_shape_def by (metis Suc_less_eq n)
  ultimately show ?shape
    using sh pos by (simp add: q_shape_def f1)
  then show ?list
    by (simp add: q_list_eq[OF sh] q_list_eq slot n map_upt_Suc del: upt_Suc)
qed

text \<open>
  The move loop fills \<open>new_data[i..n-1]\<close> with the oldest values of the queue, in order.
\<close>

lemma q_move_spec:
  assumes "q_shape q h k cs" and "nd \<noteq> q_data q" and "nd \<noteq> 0"
    and "mem h nd = Some ns" and "0 \<le> i" and "i \<le> n" and "n - i \<le> q_size q"
    and "n \<le> int (length ns)"
  shows "\<exists>q' h'. q_move nd i n q h = Inr (q', h') \<and> q_data q' = q_data q \<and>
    h' = put_block nd
      (take (nat i) ns @ map Some (take (nat (n - i)) (q_list q h)) @ drop (nat n) ns) h"
  using assms
proof (induction nd i n q h arbitrary: ns rule: q_move.induct)
  case (1 nd i n q h)
  show ?case
  proof (cases "i < n")
    case False
    with "1.prems" have "i = n" by simp
    then have "q_move nd i n q h = Inr (q, h)" by (simp add: q_move.simps)
    moreover have "take (nat i) ns @ map Some (take (nat (n - i)) (q_list q h)) @ drop (nat n) ns = ns"
      using \<open>i = n\<close> by simp
    ultimately show ?thesis using put_block_same[OF "1.prems"(4)] by simp
  next
    case True
    let ?x = "hd (q_list q h)"
    let ?h = "put_block nd (ns[nat i := Some ?x]) h"
    have pos: "0 < q_size q" using True "1.prems" by linarith
    note next_q = q_next_step[OF "1.prems"(1) pos]
    have st: "store nd i ?x h = Inr ?h"
      using "1.prems" True by (intro store_ok) auto
    have fr: "mem ?h (q_data (q_drop1 q)) = mem h (q_data (q_drop1 q))"
      using "1.prems"(2) by simp
    have sh: "q_shape (q_drop1 q) ?h k cs"
      using next_q(2) fr by (simp add: q_shape_def)
    have len: "length (q_list q h) = nat (q_size q)"
      using q_list_eq[OF "1.prems"(1)] by simp
    have "\<exists>q' h'. q_move nd (i + 1) n (q_drop1 q) ?h = Inr (q', h') \<and> q_data q' = q_data q \<and>
      h' = put_block nd (take (nat (i + 1)) (ns[nat i := Some ?x]) @
        map Some (take (nat (n - (i + 1))) (q_list (q_drop1 q) ?h)) @
        drop (nat n) (ns[nat i := Some ?x])) ?h"
      using "1.IH"[OF True next_q(1) refl st sh] "1.prems" True by simp
    moreover have "take (nat (i + 1)) (ns[nat i := Some ?x]) = take (nat i) ns @ [Some ?x]"
      using "1.prems" True by (simp add: nat_add_distrib take_Suc_conv_app_nth)
    moreover have "drop (nat n) (ns[nat i := Some ?x]) = drop (nat n) ns"
      using True "1.prems" by (simp add: drop_update_cancel nat_less_iff)
    moreover have "take (nat (n - i)) (q_list q h) =
        ?x # take (nat (n - (i + 1))) (q_list (q_drop1 q) ?h)"
    proof -
      have "nat (n - i) = Suc (nat (n - (i + 1)))" using True by simp
      moreover have "q_list q h = ?x # tl (q_list q h)"
        using len pos by (metis hd_Cons_tl length_0_conv zero_less_nat_eq less_numeral_extra(3))
      ultimately show ?thesis
        unfolding q_frame(1)[OF fr] next_q(3) by (metis take_Suc_Cons)
    qed
    ultimately show ?thesis
      using True next_q(1) st by (simp add: q_move.simps[of nd i n q h])
  qed
qed

text \<open>A buffer whose values start at slot 0.\<close>

lemma q_fresh:
  assumes "q_front q = 0" and "q_range_mask q = 2 ^ k - 1" and "k < 31" and "q_data q \<noteq> 0"
    and "mem h (q_data q) = Some (map Some xs @ rest)" and "q_size q = int (length xs)"
    and "length xs + length rest = 2 ^ k" and "q_back q = q_size q mod 2 ^ k"
  shows "q_inv q h" and "q_list q h = xs"
proof -
  have slot: "nat ((q_front q + int j) mod 2 ^ k) = j" if "j < length xs" for j
    using that assms(1,7) by (simp add: nat_mod_distrib nat_power_eq)
  have len: "int (length xs) \<le> 2 ^ k"
    using assms(7) by (metis le_add1 of_nat_le_iff of_nat_numeral of_nat_power)
  have "q_shape q h k (map Some xs @ rest)"
    using assms len slot by (auto simp: q_shape_def nth_append)
  then show "q_inv q h" and "q_list q h = xs"
    using slot assms(6) by (auto simp: q_inv_def q_list_eq nth_append intro!: nth_equalityI)
qed

section \<open>Growing and shrinking\<close>

text \<open>The size \<open>q_resize\<close> really uses: the least power of two that is at least the request.\<close>

definition q_round :: "int \<Rightarrow> nat" where
  "q_round req = (if req > 2 ^ MSB req then MSB req + 1 else MSB req)"

lemma q_round_ceil:
  assumes "0 < req" and "req \<le> 2 ^ 30"
  shows "req \<le> 2 ^ q_round req" and "2 ^ q_round req < 2 * req" and "q_round req < 31"
proof -
  have m: "2 ^ MSB req \<le> req" "req < 2 ^ (MSB req + 1)"
    using MSB_bounds[of req] assms by auto
  show "req \<le> 2 ^ q_round req" "2 ^ q_round req < 2 * req"
    using m assms(1) by (auto simp: q_round_def)
  have "(2::int) ^ MSB req \<le> 2 ^ 30" using m assms(2) by linarith
  then have "MSB req \<le> 30" by (simp only: power_increasing_iff one_less_numeral_iff semiring_norm)
  moreover have "MSB req \<noteq> 30" if "req > 2 ^ MSB req" using that assms(2) by auto
  ultimately show "q_round req < 31" by (auto simp: q_round_def)
qed

lemma q_round_pow2: "k < 63 \<Longrightarrow> MSB (2 ^ k) = k"
  by (rule MSB_unique) auto

lemma q_resize_same:
  assumes "q_inv q h" and "0 < req" and "req \<le> 2 ^ 30" and "2 ^ q_round req = q_range_mask q + 1"
  shows "q_resize q req h = Inr (q, h)"
proof -
  have "MSB req < 31" using q_round_ceil[OF assms(2,3)] by (auto simp: q_round_def split: if_splits)
  with assms q_round_ceil[OF assms(2,3)] show ?thesis
    by (auto simp: q_resize_def q_round_def q_inv_def q_shape_def)
qed

lemma q_resize_realloc:
  assumes inv: "q_inv q h" and req: "0 < req" "req \<le> 2 ^ 30"
    and ne: "2 ^ q_round req \<noteq> q_range_mask q + 1" and alloc: "can_alloc h"
  obtains q' h' where "q_resize q req h = Inr (q', h')" and "q_inv q' h'"
    and "q_list q' h' = take (2 ^ q_round req) (q_list q h)"
    and "q_range_mask q' = 2 ^ q_round req - 1"
    and "replaced (q_data q) (q_data q') h h'" and "answers h' = tl (answers h)"
    and "q_data q' = hd (answers h)"
proof -
  let ?r = "q_round req"
  let ?n = "(2::int) ^ ?r"
  let ?mv = "if q_size q < ?n then q_size q else ?n"
  let ?xs = "take (2 ^ ?r) (q_list q h)"
  obtain k cs where sh: "q_shape q h k cs" using inv by (auto simp: q_inv_def)
  have r31: "?r < 31" and msb31: "MSB req < 31"
    using q_round_ceil[OF req] by (auto simp: q_round_def split: if_splits)
  have n30: "?n \<le> 2 ^ 30" using r31 by (intro power_increasing) auto
  have nat_n: "nat ?n = 2 ^ ?r" by (simp add: nat_power_eq)
  obtain p where hd: "p = hd (answers h)" and p: "p \<noteq> 0" "mem h p = None"
    "malloc (word_of_int ?n * 8) h = (p, put_block p
       (replicate (unat (word_of_int ?n * 8 :: 64 word) div 8) None) (h\<lparr>answers := tl (answers h)\<rparr>))"
    by (rule malloc_ok[OF alloc])
  have "unat (word_of_int ?n * 8 :: 64 word) div 8 = 2 ^ ?r"
    using cells_of_bytes[of ?n] n30 nat_n by simp
  note p = p(1,2) p(3)[unfolded this]
  let ?h1 = "put_block p (replicate (2 ^ ?r) None) (h\<lparr>answers := tl (answers h)\<rparr>)"
  have pq: "p \<noteq> q_data q" using p(2) sh by (auto simp: q_shape_def)
  then have fr: "mem ?h1 (q_data q) = mem h (q_data q)" by simp
  have sh1: "q_shape q ?h1 k cs" using sh fr by (simp add: q_shape_def)
  have len: "length (q_list q h) = nat (q_size q)" using q_list_eq[OF sh] by simp
  have mv: "0 \<le> ?mv" "?mv - 0 \<le> q_size q" "?mv \<le> int (length (replicate (2 ^ ?r) None :: cell list))"
    using sh by (auto simp: q_shape_def)
  have take_mv: "take (nat ?mv) (q_list q h) = ?xs"
    using len sh by (auto simp: q_shape_def nat_less_iff nat_power_eq)
  obtain q1 h2 where mvd: "q_move p 0 ?mv q ?h1 = Inr (q1, h2)" and q1: "q_data q1 = q_data q"
    and h2: "h2 = put_block p (map Some ?xs @ drop (nat ?mv) (replicate (2 ^ ?r) None)) ?h1"
    using q_move_spec[OF sh1 pq p(1) _ _ mv] q_frame(1)[OF fr] take_mv by auto
  let ?q' = "q1\<lparr>q_data := p, q_size := ?mv, q_range_mask := ?n - 1, q_front := 0,
      q_back := ?mv AND (?n - 1)\<rparr>"
  let ?h' = "del_block (q_data q) h2"
  have fre: "free (q_data q1) h2 = Inr ?h'"
    unfolding q1 using sh h2 pq by (intro free_ok[of _ _ cs]) (auto simp: q_shape_def)
  have "q_range_mask q + 1 \<le> 2 ^ 30" "0 \<le> q_range_mask q"
    using sh q_shape_bounds[OF sh] by (simp_all add: q_shape_def)
  then have run: "q_resize q req h = Inr (?q', ?h')"
    using ne r31 msb31 p(3) mvd fre
    by (simp add: q_resize_def q_round_def [symmetric] Let_def split del: if_split)
  have lenx: "int (length ?xs) = ?mv"
    using len sh by (auto simp: q_shape_def nat_less_iff min_def)
  have "mem ?h' p = Some (map Some ?xs @ replicate (2 ^ ?r - nat ?mv) None)"
    using h2 pq by simp
  moreover have "length ?xs + length (replicate (2 ^ ?r - nat ?mv) (None :: cell)) = 2 ^ ?r"
    using lenx mv(3) by (simp add: nat_le_iff)
  ultimately have "q_inv ?q' ?h'" "q_list ?q' ?h' = ?xs"
    using q_fresh[of ?q' ?r ?h' ?xs "replicate (2 ^ ?r - nat ?mv) None"] r31 p(1) lenx
    by (simp_all add: and_mask_mod)
  moreover have "replaced (q_data q) p h ?h'"
    using p(2) pq h2 by (auto simp: replaced_def)
  moreover have "answers ?h' = tl (answers h)" using h2 by simp
  ultimately show ?thesis using that[OF run] hd by simp
qed

lemma q_resize_oom:
  assumes inv: "q_inv q h" and "0 < req" "req \<le> 2 ^ 30" and "0 < q_size q"
    and ne: "2 ^ q_round req \<noteq> q_range_mask q + 1" and alloc: "\<not> can_alloc h"
  shows "q_resize q req h = Inl Null_Deref"
proof -
  obtain k cs where sh: "q_shape q h k cs" using inv by (auto simp: q_inv_def)
  have r: "q_round req < 31" "MSB req < 31"
    using q_round_ceil[OF assms(2,3)] by (auto simp: q_round_def split: if_splits)
  have "q_range_mask q + 1 \<le> 2 ^ 30" "0 \<le> q_range_mask q"
    using sh q_shape_bounds[OF sh] by (simp_all add: q_shape_def)
  moreover have "q_move 0 0 (if q_size q < 2 ^ q_round req then q_size q else 2 ^ q_round req) q
      (h\<lparr>answers := tl (answers h)\<rparr>) = Inl Null_Deref"
    using q_next_step(1)[of q "h\<lparr>answers := tl (answers h)\<rparr>" k cs] sh assms(4)
    by (subst q_move.simps) (simp add: q_shape_def)
  ultimately show ?thesis
    using ne r malloc_null[OF alloc]
    by (simp add: q_resize_def q_round_def [symmetric] Let_def split del: if_split)
qed

lemma q_resize_too_big:
  assumes "2 ^ 30 < req" and "req < 2 ^ 63"
  shows "q_resize q req h = Inl Shift_Range"
proof -
  have m: "req < 2 ^ (MSB req + 1)" "2 ^ MSB req \<le> req" using MSB_bounds[of req] assms by auto
  have "(2::int) ^ 30 < 2 ^ (MSB req + 1)" using m assms(1) by linarith
  then have "30 < MSB req + 1"
    by (simp only: power_strict_increasing_iff one_less_numeral_iff semiring_norm)
  then show ?thesis
    using assms(1) by (cases "MSB req = 30") (auto simp: q_resize_def int_shl1_def)
qed

section \<open>Pushing\<close>

lemma q_append_spec:
  assumes sh: "q_shape q h k cs" and room: "q_size q < 2 ^ k"
  obtains q' h' where "q_append q v h = Inr (q', h')" and "q_inv q' h'"
    and "q_list q' h' = q_list q h @ [v]" and "q_data q' = q_data q"
    and "q_range_mask q' = q_range_mask q"
    and "replaced (q_data q) (q_data q) h h'" and "answers h' = answers h"
proof -
  let ?b = "nat (q_back q)"
  let ?h = "put_block (q_data q) (cs[?b := Some v]) h"
  let ?q = "q\<lparr>q_size := q_size q + 1, q_back := (q_back q + 1) AND q_range_mask q\<rparr>"
  have mask: "q_range_mask q = 2 ^ k - 1" and bk: "q_back q = (q_front q + q_size q) mod 2 ^ k"
    and sz: "0 \<le> q_size q" and len: "length cs = 2 ^ k" and blk: "mem h (q_data q) = Some cs"
    and front: "0 \<le> q_front q" "q_front q < 2 ^ k"
    using sh by (simp_all add: q_shape_def)
  have b: "0 \<le> q_back q" "q_back q < 2 ^ k" by (simp_all add: bk)
  have k30: "(2::int) ^ k \<le> 2 ^ 30" by (rule q_shape_bounds[OF sh])
  have st: "store (q_data q) (q_back q) v h = Inr ?h"
    using sh b by (intro store_ok) (auto simp: q_shape_def)
  have "(q_back q + 1) mod 2 ^ k = (q_front q + (q_size q + 1)) mod 2 ^ k"
    unfolding bk mod_add_left_eq by (simp add: algebra_simps)
  moreover have other: "nat ((q_front q + int j) mod 2 ^ k) \<noteq> ?b" if "j < nat (q_size q)" for j
  proof
    assume "nat ((q_front q + int j) mod 2 ^ k) = ?b"
    then have "(q_front q + int j) mod 2 ^ k = (q_front q + q_size q) mod 2 ^ k"
      unfolding bk by (subst (asm) eq_nat_nat_iff) simp_all
    then have "2 ^ k dvd (q_size q - int j)"
      by (metis add_diff_cancel_left mod_eq_dvd_iff)
    then have "2 ^ k \<le> q_size q - int j" using that by (intro zdvd_imp_le) auto
    then show False using room by simp
  qed
  have "?b < 2 ^ k" using b by (simp add: nat_less_iff)
  then have cells: "cs[?b := Some v] ! nat ((q_front q + int j) mod 2 ^ k) =
      (if j = nat (q_size q) then Some v else cs ! nat ((q_front q + int j) mod 2 ^ k))"
    if "j < nat (q_size q + 1)" for j
  proof -
    from that sz consider "j < nat (q_size q)" | "j = nat (q_size q)" by linarith
    then show ?thesis using other[of j] sz len by cases (auto simp: bk)
  qed
  ultimately have sh': "q_shape ?q ?h k (cs[?b := Some v])"
    using sh room by (auto simp: q_shape_def mask and_mask_mod)
  have "nat (q_size q + 1) = Suc (nat (q_size q))" using sz by simp
  then have "q_list ?q ?h = q_list q h @ [v]"
    using cells cells[of "nat (q_size q)"] sz by (simp add: q_list_eq[OF sh'] q_list_eq[OF sh])
  moreover have "q_append q v h = Inr (?q, ?h)"
    using st b sz room k30 by (simp add: q_append_def)
  moreover have "replaced (q_data q) (q_data q) h ?h" by (simp add: replaced_def)
  ultimately show ?thesis using that sh' by (auto simp: q_inv_def)
qed

text \<open>
  There is room for one more value: the buffer is not full, or it may still double and the
  allocator grants the new block.
\<close>

definition q_full :: "queue \<Rightarrow> bool" where
  "q_full q \<longleftrightarrow> q_size q \<ge> q_range_mask q + 1"

definition q_room :: "queue \<Rightarrow> heap \<Rightarrow> bool" where
  "q_room q h \<longleftrightarrow> (q_full q \<longrightarrow> q_range_mask q + 1 < 2 ^ 30 \<and> can_alloc h)"

lemma q_double:
  assumes "q_shape q h k cs"
  shows "(q_range_mask q + 1) * 2 = 2 ^ (k + 1)" and "q_round (2 ^ (k + 1)) = k + 1"
    and "2 ^ q_round (2 ^ (k + 1)) \<noteq> q_range_mask q + 1"
  using assms q_round_pow2[of "k + 1"] by (auto simp: q_shape_def q_round_def)

lemma q_push_grows:
  assumes sh: "q_shape q h k cs" and full: "q_full q"
  shows "q_push q v h = rbind (q_resize q (2 ^ (k + 1)) h) (\<lambda>(q', h'). q_append q' v h')"
proof -
  have "chk_long (q_range_mask q + 1) = Inr (q_range_mask q + 1)"
    and "chk_long ((q_range_mask q + 1) * 2) = Inr (2 ^ (k + 1))"
    using sh q_shape_bounds(1)[OF sh] by (auto simp: q_shape_def intro!: chk_long_ok)
  then show ?thesis using full by (simp add: q_push_def q_full_def)
qed

lemma q_push_ok:
  assumes inv: "q_inv q h" and room: "q_room q h"
  obtains q' h' where "q_push q v h = Inr (q', h')" and "q_inv q' h'"
    and "q_list q' h' = q_list q h @ [v]" and "replaced (q_data q) (q_data q') h h'"
    and "answers h' = (if q_full q then tl (answers h) else answers h)"
    and "q_range_mask q' + 1 = (if q_full q then 2 else 1) * (q_range_mask q + 1)"
    and "q_data q' = (if q_full q then hd (answers h) else q_data q)"
proof -
  obtain k cs where sh: "q_shape q h k cs" using inv by (auto simp: q_inv_def)
  have cap: "q_range_mask q + 1 = 2 ^ k" using sh by (simp add: q_shape_def)
  show thesis
  proof (cases "q_full q")
    case False
    then have "q_size q < 2 ^ k" using sh by (simp add: q_full_def q_shape_def)
    then obtain q' h' where "q_append q v h = Inr (q', h')" "q_inv q' h'"
      "q_list q' h' = q_list q h @ [v]" "q_data q' = q_data q" "q_range_mask q' = q_range_mask q"
      "replaced (q_data q) (q_data q) h h'" "answers h' = answers h"
      using q_append_spec[OF sh] by metis
    moreover have "q_push q v h = q_append q v h"
      using False q_shape_bounds(1)[OF sh] cap by (simp add: q_push_def q_full_def)
    ultimately show ?thesis using that False by simp
  next
    case True
    have alloc: "can_alloc h" and "(2::int) ^ k < 2 ^ 30" using room True cap by (auto simp: q_room_def)
    then have "k < 30" by (simp only: power_strict_increasing_iff one_less_numeral_iff semiring_norm)
    then have "(2::int) ^ (k + 1) \<le> 2 ^ 30" by (intro power_increasing) auto
    then obtain q1 h1 where r: "q_resize q (2 ^ (k + 1)) h = Inr (q1, h1)" "q_inv q1 h1"
      "q_list q1 h1 = take (2 ^ (k + 1)) (q_list q h)" "q_range_mask q1 = 2 ^ (k + 1) - 1"
      "replaced (q_data q) (q_data q1) h h1" "answers h1 = tl (answers h)"
      "q_data q1 = hd (answers h)"
      using q_resize_realloc[OF inv _ _ _ alloc, of "2 ^ (k + 1)"] q_double[OF sh] by auto
    have size: "q_size q = 2 ^ k" using True sh cap by (simp add: q_full_def q_shape_def)
    then have len: "length (q_list q h) = 2 ^ k"
      using length_q_list[OF inv] by (metis of_nat_eq_iff of_nat_numeral of_nat_power)
    then have l1: "q_list q1 h1 = q_list q h" using r(3) by simp
    obtain cs1 where sh1: "q_shape q1 h1 (k + 1) cs1"
      using q_shape_exp[OF r(2,4)] by blast
    have "q_size q1 = 2 ^ k" using length_q_list[OF r(2)] len l1 by simp
    then have "q_size q1 < 2 ^ (k + 1)" by simp
    then obtain q' h' where a: "q_append q1 v h1 = Inr (q', h')" "q_inv q' h'"
      "q_list q' h' = q_list q1 h1 @ [v]" "q_data q' = q_data q1" "q_range_mask q' = q_range_mask q1"
      "replaced (q_data q1) (q_data q1) h1 h'" "answers h' = answers h1"
      using q_append_spec[OF sh1] by metis
    have "q_push q v h = Inr (q', h')" using q_push_grows[OF sh True] r(1) a(1) by simp
    then show ?thesis
      using that a r(4,6,7) replaced_trans[OF r(5) a(6)] l1 True cap by simp
  qed
qed

lemma q_push_limit:
  assumes "q_inv q h" and "q_full q" and "q_range_mask q + 1 = 2 ^ 30"
  shows "q_push q v h = Inl Shift_Range"
proof -
  obtain k cs where sh: "q_shape q h k cs" using assms(1) by (auto simp: q_inv_def)
  have "(2::int) ^ (k + 1) = 2 * 2 ^ 30" using sh assms(3) by (simp add: q_shape_def)
  then show ?thesis
    using q_push_grows[OF sh assms(2)] q_resize_too_big[of "2 ^ (k + 1)" q h] by simp
qed

lemma q_push_oom:
  assumes "q_inv q h" and "q_full q" and "q_range_mask q + 1 < 2 ^ 30" and "\<not> can_alloc h"
  shows "q_push q v h = Inl Null_Deref"
proof -
  obtain k cs where sh: "q_shape q h k cs" using assms(1) by (auto simp: q_inv_def)
  have cap: "q_range_mask q + 1 = 2 ^ k" using sh by (simp add: q_shape_def)
  then have "k < 30" using assms(3)
    by (simp only: power_strict_increasing_iff one_less_numeral_iff semiring_norm)
  then have "(2::int) ^ (k + 1) \<le> 2 ^ 30" by (intro power_increasing) auto
  moreover have "0 < q_size q"
    using assms(2) cap zero_less_power[of "2::int" k] unfolding q_full_def by linarith
  ultimately show ?thesis
    using q_push_grows[OF sh assms(2)] q_resize_oom[OF assms(1), of "2 ^ (k + 1)"] assms(4)
      q_double[OF sh] by simp
qed

lemma q_destroy_ok:
  assumes "q_inv q h"
  shows "q_destroy q h = Inr (del_block (q_data q) h)"
  using assms by (auto simp: q_destroy_def q_inv_def q_shape_def intro: free_ok)

section \<open>The queue as a first-in first-out container\<close>

text \<open>
  The state of the contract is the queue together with the heap its buffer lives in.
  \<open>jq_room n\<close>: at most \<open>2 ^ 30\<close> values will be pending, and the allocator grants the at
  most \<open>30 - k\<close> doublings that a buffer of \<open>2 ^ k\<close> cells can still go through.
\<close>

type_synonym jq = "queue \<times> heap"

definition jq_inv :: "jq \<Rightarrow> bool" where
  "jq_inv = (\<lambda>(q, h). q_inv q h)"

definition jq_list :: "jq \<Rightarrow> 64 word list" where
  "jq_list = (\<lambda>(q, h). q_list q h)"

definition jq_room :: "nat \<Rightarrow> jq \<Rightarrow> bool" where
  "jq_room n = (\<lambda>(q, h). q_size q + int n \<le> 2 ^ 30 \<and> ample (30 - MSB (q_range_mask q + 1)) h)"

definition jq_push :: "64 word \<Rightarrow> jq \<Rightarrow> jq result" where
  "jq_push v = (\<lambda>(q, h). q_push q v h)"

definition jq_next :: "jq \<Rightarrow> (64 word \<times> jq) result" where
  "jq_next = (\<lambda>(q, h). rbind (q_next q h) (\<lambda>(v, q'). Inr (v, (q', h))))"

definition jq_is_empty :: "jq \<Rightarrow> bool" where
  "jq_is_empty = (\<lambda>(q, h). q_is_empty q)"

lemmas jq_defs = jq_inv_def jq_list_def jq_room_def jq_push_def jq_next_def jq_is_empty_def

lemma jq_apply:
  "jq_push v (q, h) = q_push q v h"
  "jq_next (q, h) = rbind (q_next q h) (\<lambda>(v, q'). Inr (v, (q', h)))"
  "jq_list (q, h) = q_list q h" "jq_inv (q, h) = q_inv q h"
  by (simp_all add: jq_defs)

lemma jq_push_room:
  assumes inv: "q_inv q h" and room: "jq_room (Suc n) (q, h)"
  shows "\<exists>q' h'. q_push q v h = Inr (q', h') \<and> q_inv q' h' \<and>
    q_list q' h' = q_list q h @ [v] \<and> jq_room n (q', h') \<and>
    replaced (q_data q) (q_data q') h h'"
proof -
  obtain k cs where sh: "q_shape q h k cs" using inv by (auto simp: q_inv_def)
  have cap: "q_range_mask q + 1 = 2 ^ k" and k: "k < 31" using sh by (simp_all add: q_shape_def)
  have amp: "ample (30 - k) h" and sz: "q_size q + 1 + int n \<le> 2 ^ 30"
    using room q_round_pow2[of k] k by (auto simp: jq_room_def cap)
  have grow: "k < 30" if "q_full q"
  proof -
    have "(2::int) ^ k < 2 ^ 30" using that sz cap unfolding q_full_def by linarith
    then show ?thesis by (simp only: power_strict_increasing_iff one_less_numeral_iff semiring_norm)
  qed
  have qroom: "q_room q h"
  proof -
    have "q_range_mask q + 1 < 2 ^ 30 \<and> can_alloc h" if full: "q_full q"
    proof
      show "q_range_mask q + 1 < 2 ^ 30" using full sz unfolding q_full_def by linarith
      have "30 - k = Suc (29 - k)" using grow[OF full] by simp
      then show "can_alloc h" using ample_can_alloc[of "29 - k" h] amp by simp
    qed
    then show ?thesis by (simp add: q_room_def)
  qed
  obtain q' h' where p: "q_push q v h = Inr (q', h')" "q_inv q' h'" "q_list q' h' = q_list q h @ [v]"
    "replaced (q_data q) (q_data q') h h'"
    "answers h' = (if q_full q then tl (answers h) else answers h)"
    "q_range_mask q' + 1 = (if q_full q then 2 else 1) * (q_range_mask q + 1)"
    "q_data q' = (if q_full q then hd (answers h) else q_data q)"
    by (rule q_push_ok[OF inv qroom])
  have "q_size q' = q_size q + 1"
    using length_q_list[OF p(2)] length_q_list[OF inv] p(3) by simp
  moreover have "ample (30 - MSB (q_range_mask q' + 1)) h'"
  proof (cases "q_full q")
    case True
    have "MSB (q_range_mask q' + 1) = k + 1"
      using True p(6) cap grow q_round_pow2[of "k + 1"] by simp
    moreover have "ample (29 - k) h'"
    proof (rule ample_step)
      have "30 - k = Suc (29 - k)" using grow[OF True] by simp
      with amp show "ample (Suc (29 - k)) h" by simp
      show "answers h' = tl (answers h)" using p(5) True by simp
      show "\<forall>a. a \<noteq> hd (answers h) \<longrightarrow> mem h a = None \<longrightarrow> mem h' a = None"
        using p(4,7) True by (metis replaced_def)
    qed
    ultimately show ?thesis by simp
  next
    case False
    have "MSB (q_range_mask q' + 1) = k" using False p(6) cap k q_round_pow2[of k] by simp
    moreover have "\<forall>a. mem h a = None \<longrightarrow> mem h' a = None"
      using p(4,7) False sh by (metis replaced_def q_shape_def option.distinct(1))
    ultimately show ?thesis using ample_same[OF amp] p(5) False by simp
  qed
  ultimately show ?thesis using p sz by (auto simp: jq_room_def)
qed

lemma jq_next_room:
  assumes inv: "q_inv q h" and xs: "q_list q h = x # xs"
  shows "\<exists>q'. q_next q h = Inr (x, q') \<and> q_inv q' h \<and> q_list q' h = xs \<and>
    q_data q' = q_data q \<and> (\<forall>n. jq_room n (q, h) \<longrightarrow> jq_room (n + 1) (q', h))"
proof -
  obtain k cs where sh: "q_shape q h k cs" using inv by (auto simp: q_inv_def)
  have pos: "0 < q_size q" using length_q_list[OF inv] xs by simp
  have "q_inv (q_drop1 q) h" using q_next_step(2)[OF sh pos] by (auto simp: q_inv_def)
  then show ?thesis
    using q_next_step(1,3)[OF sh pos] xs by (auto simp: jq_room_def)
qed

interpretation jq: fifo jq_inv jq_list jq_room jq_push jq_next jq_is_empty 0
proof
  fix s :: jq and n x
  assume "jq_inv s" and "jq_room (Suc n) s"
  then show "\<exists>s'. jq_push x s = Inr s' \<and> jq_inv s' \<and> jq_list s' = jq_list s @ [x] \<and> jq_room n s'"
    using jq_push_room[of "fst s" "snd s" n x] by (auto simp: jq_defs split_beta)
next
  fix s :: jq and x xs
  assume "jq_inv s" and "jq_list s = x # xs"
  then show "\<exists>s'. jq_next s = Inr (x, s') \<and> jq_inv s' \<and> jq_list s' = xs \<and>
      (\<forall>n. jq_room n s \<longrightarrow> jq_room (n + 1) s')"
    using jq_next_room[of "fst s" "snd s" x xs] by (auto simp: jq_inv_def jq_list_def jq_next_def split_beta)
next
  fix s :: jq
  assume "jq_inv s"
  then show "jq_is_empty s \<longleftrightarrow> jq_list s = []"
    using q_is_empty_iff[of "fst s" "snd s"] by (simp add: jq_defs split_beta)
next
  fix s :: jq
  assume "jq_inv s" and "jq_list s = []"
  then show "jq_next s = Inr (0, s)"
    using length_q_list[of "fst s" "snd s"] q_next_empty[of "fst s" "snd s"]
    by (simp add: jq_defs split_beta)
qed

text \<open>A push that returns found room, so a run touches no block but the queue's own.\<close>

lemma q_push_no_room:
  assumes inv: "q_inv q h" and "\<not> q_room q h"
  shows "q_push q v h = Inl (if q_range_mask q + 1 = 2 ^ 30 then Shift_Range else Null_Deref)"
proof -
  obtain k cs where sh: "q_shape q h k cs" using inv by (auto simp: q_inv_def)
  then have "q_range_mask q + 1 \<le> 2 ^ 30" using q_shape_bounds(1)[OF sh] by (simp add: q_shape_def)
  then show ?thesis
    using assms(2) q_push_limit[OF inv, of v] q_push_oom[OF inv, of v]
    by (cases "q_range_mask q + 1 = 2 ^ 30") (auto simp: q_room_def)
qed

lemma q_push_frame:
  assumes inv: "q_inv q h" and run: "q_push q v h = Inr (q', h')"
  shows "q_inv q' h' \<and> q_list q' h' = q_list q h @ [v] \<and> replaced (q_data q) (q_data q') h h'"
proof -
  have "q_room q h" using q_push_no_room[OF inv, of v] run by fastforce
  from q_push_ok[OF inv this, of v] run show ?thesis by (metis Inr_inject prod.inject)
qed

lemma jq_run_frame:
  assumes "q_inv q h" and "run_ops jq_push jq_next ops (q, h) = Inr (vs, (q', h'))"
  shows "q_inv q' h' \<and> replaced (q_data q) (q_data q') h h'"
  using assms
proof (induction ops arbitrary: q h vs)
  case Nil
  then show ?case by (auto simp: q_inv_def q_shape_def intro: replaced_refl)
next
  case (Cons op ops)
  show ?case
  proof (cases op)
    case (Put x)
    with Cons.prems(2) obtain q1 h1 where push: "q_push q x h = Inr (q1, h1)"
      and rest: "run_ops jq_push jq_next ops (q1, h1) = Inr (vs, (q', h'))"
      by (auto simp: jq_apply rbind_Inr_iff)
    from q_push_frame[OF Cons.prems(1) push] Cons.IH[OF _ rest] show ?thesis
      by (auto intro: replaced_trans)
  next
    case Get
    obtain q1 v where q1: "q_next q h = Inr (v, q1)" "q_inv q1 h" "q_data q1 = q_data q"
    proof (cases "q_list q h")
      case Nil
      then show ?thesis
        using that[of 0 q] q_next_empty[of q h] length_q_list[OF Cons.prems(1)] Cons.prems(1) by simp
    next
      case (Cons x xs)
      then show ?thesis using that jq_next_room[OF \<open>q_inv q h\<close>] by blast
    qed
    with Cons.IH[of q1 h] Cons.prems Get show ?thesis
      by (auto simp: jq_apply rbind_Inr_iff)
  qed
qed

lemma jq_create:
  assumes "ample 28 h" and "n \<le> 2 ^ 30"
  shows "jq_inv (q_create h)" and "jq_list (q_create h) = []" and "jq_room n (q_create h)"
proof -
  have alloc: "can_alloc h" using assms(1) ample_can_alloc[of 27 h] by simp
  obtain q h' where c: "q_create h = (q, h')" "q_inv q h'" "q_list q h' = []"
    "mem h (q_data q) = None" "q_data q \<noteq> 0" "\<forall>a. a \<noteq> q_data q \<longrightarrow> mem h' a = mem h a"
    "answers h' = tl (answers h)" "q_range_mask q = 7" "q_data q = hd (answers h)"
    by (rule q_create_ok[OF alloc])
  have "ample (Suc 27) h" using assms(1) by simp
  then have "ample 27 h'" by (rule ample_step) (use c(6,7,9) in auto)
  moreover have "MSB 8 = 3" using q_round_pow2[of 3] by simp
  moreover have "q_size q = 0" using length_q_list[OF c(2)] c(3) by simp
  ultimately show "jq_inv (q_create h)" "jq_list (q_create h) = []" "jq_room n (q_create h)"
    using c assms(2) by (auto simp: jq_inv_def jq_list_def jq_room_def)
qed

section \<open>Properties\<close>

text \<open>Concrete heaps for the witnesses: an allocator with 28 addresses, and the queue it gives.\<close>

definition heap28 :: heap where
  "heap28 = \<lparr>mem = (\<lambda>_. None), answers = map word_of_nat [1..<29]\<rparr>"

lemma ample_heap28: "ample 28 heap28"
  by (simp add: ample_def heap28_def upt_rec)

lemma q_create28:
  "q_create heap28 = (\<lparr>q_front = 0, q_back = 0, q_size = 0, q_range_mask = 7, q_data = 1\<rparr>,
     put_block 1 (replicate 8 None) (heap28\<lparr>answers := map word_of_nat [2..<29]\<rparr>))"
  by (simp add: q_create_def CUSTOM_QUEUE_DEFAULT_SIZE_def malloc_def heap28_def upt_rec)

lemma q_inv28: "q_inv (fst (q_create heap28)) (snd (q_create heap28))"
  using jq_create(1)[OF ample_heap28 order_refl] by (simp add: jq_inv_def split_beta)

lemma can_alloc28: "can_alloc (snd (q_create heap28))"
  by (simp add: q_create28 can_alloc_def upt_rec) (simp add: heap28_def)

text \<open>C35: Started from \<open>q_create\<close>, the ring buffer returns for every sequence of pushes and
  removals exactly what a first-in first-out list returns, across any number of reallocations, and
  holds the same values afterwards: as long as at most \<open>2 ^ 30\<close> values are pending at any time and
  the allocator grants the 28 blocks a queue can ever ask for.\<close>

theorem queue_refines_fifo:
  assumes "ample 28 h" and "fits 1 ops (2 ^ 30)"
    and "spec_ops (\<lambda>x xs. xs @ [x]) ops [] = Some (vs, ys)"
  shows "\<exists>s. run_ops jq_push jq_next ops (q_create h) = Inr (vs, s) \<and> jq_list s = ys"
  using jq.run_refines[OF jq_create(1,3)[OF assms(1) order_refl] assms(2)] assms(3)
    jq_create(2)[OF assms(1) order_refl] by auto

lemma queue_refines_fifo_witness:
  "\<exists>s. run_ops jq_push jq_next [Put 5, Put 6, Get, Put 7, Get] (q_create heap28) = Inr ([5, 6], s) \<and>
     jq_list s = [7]"
  by (rule queue_refines_fifo[OF ample_heap28]) simp_all

text \<open>What \<open>q_push\<close> does on every branch of a well-formed queue.  Without growth, or when the
  buffer can double, the value goes last, nothing else changes, and no other block of the heap is
  touched; when the doubling is refused by the allocator, the unchecked result of \<open>malloc\<close> is
  dereferenced; and a full buffer of \<open>2 ^ 30\<close> cells can not grow, because the new size is computed
  with a shift at type \<open>int\<close>.\<close>

theorem q_push_branches:
  assumes "q_inv q h"
  shows "case q_push q v h of
      Inr (q', h') \<Rightarrow> q_room q h \<and> q_inv q' h' \<and> q_list q' h' = q_list q h @ [v] \<and>
        replaced (q_data q) (q_data q') h h'
    | Inl e \<Rightarrow> \<not> q_room q h \<and>
        e = (if q_range_mask q + 1 = 2 ^ 30 then Shift_Range else Null_Deref)"
proof (cases "q_room q h")
  case True
  obtain q' h' where "q_push q v h = Inr (q', h')" "q_inv q' h'" "q_list q' h' = q_list q h @ [v]"
    "replaced (q_data q) (q_data q') h h'" by (rule q_push_ok[OF assms True])
  with True show ?thesis by simp
next
  case False
  then show ?thesis using q_push_no_room[OF assms False] by simp
qed


lemma q_push_branches_witness:
  "case q_push (fst (q_create heap28)) 5 (snd (q_create heap28)) of
      Inr (q', h') \<Rightarrow> q_room (fst (q_create heap28)) (snd (q_create heap28)) \<and> q_inv q' h' \<and>
        q_list q' h' = q_list (fst (q_create heap28)) (snd (q_create heap28)) @ [5] \<and>
        replaced (q_data (fst (q_create heap28))) (q_data q') (snd (q_create heap28)) h'
    | Inl e \<Rightarrow> \<not> q_room (fst (q_create heap28)) (snd (q_create heap28)) \<and>
        e = (if q_range_mask (fst (q_create heap28)) + 1 = 2 ^ 30 then Shift_Range else Null_Deref)"
  by (rule q_push_branches[OF q_inv28])

text \<open>\<open>q_resize\<close> gives the buffer the least power of two at least as large as the request,
  keeps the oldest values that fit in it, in order (so growing loses nothing), and hands the old
  block back to the allocator without touching any other block.\<close>

theorem q_resize_keeps_oldest:
  assumes "q_inv q h" and "0 < req" and "req \<le> 2 ^ 30" and "can_alloc h"
  shows "\<exists>q' h' n. q_resize q req h = Inr (q', h') \<and> q_inv q' h' \<and>
    q_range_mask q' + 1 = 2 ^ n \<and> req \<le> 2 ^ n \<and> 2 ^ n < 2 * req \<and>
    q_list q' h' = take (2 ^ n) (q_list q h) \<and> replaced (q_data q) (q_data q') h h'"
proof (cases "2 ^ q_round req = q_range_mask q + 1")
  case True
  have "int (length (q_list q h)) \<le> 2 ^ q_round req"
    using length_q_list[OF assms(1)] assms(1) True by (auto simp: q_inv_def q_shape_def)
  then have "take (2 ^ q_round req) (q_list q h) = q_list q h" by simp
  moreover have "replaced (q_data q) (q_data q) h h"
    using assms(1) by (auto simp: q_inv_def q_shape_def intro: replaced_refl)
  ultimately show ?thesis
    using q_resize_same[OF assms(1-3) True] q_round_ceil(1,2)[OF assms(2,3)] assms(1) True by metis
next
  case False
  obtain q' h' where "q_resize q req h = Inr (q', h')" "q_inv q' h'"
    "q_list q' h' = take (2 ^ q_round req) (q_list q h)" "q_range_mask q' = 2 ^ q_round req - 1"
    "replaced (q_data q) (q_data q') h h'"
    by (rule q_resize_realloc[OF assms(1-3) False assms(4)])
  then show ?thesis
    using q_round_ceil(1,2)[OF assms(2,3)] by (intro exI[of _ q'] exI[of _ h'] exI) auto
qed

lemma q_resize_keeps_oldest_witness:
  "\<exists>q' h' n. q_resize (fst (q_create heap28)) 5 (snd (q_create heap28)) = Inr (q', h') \<and>
     q_inv q' h' \<and> q_range_mask q' + 1 = 2 ^ n \<and> (5::int) \<le> 2 ^ n \<and> (2::int) ^ n < 2 * 5 \<and>
     q_list q' h' = take (2 ^ n) (q_list (fst (q_create heap28)) (snd (q_create heap28))) \<and>
     replaced (q_data (fst (q_create heap28))) (q_data q') (snd (q_create heap28)) h'"
  by (rule q_resize_keeps_oldest[OF q_inv28 _ _ can_alloc28]) simp_all

text \<open>\<open>MSB\<close> is the position of the highest bit of a positive \<open>long\<close>, the floor of its
  logarithm; the scan from bit 63 always ends there.\<close>

theorem MSB_is_log2:
  assumes "0 < n" and "n < 2 ^ 63"
  shows "2 ^ MSB n \<le> n \<and> n < 2 ^ (MSB n + 1)"
  using MSB_bounds[OF assms] by simp

lemma MSB_is_log2_witness: "2 ^ MSB 1000 \<le> (1000::int) \<and> 1000 < (2::int) ^ (MSB 1000 + 1)"
  by (rule MSB_is_log2) simp_all

text \<open>No leak and no double free: whatever was pushed and removed, however often the buffer was
  reallocated, \<open>q_destroy\<close> succeeds and leaves the heap with exactly the blocks it had before
  \<open>q_create\<close>.\<close>

theorem queue_no_leak:
  assumes "can_alloc h" and "run_ops jq_push jq_next ops (q_create h) = Inr (vs, (q, h1))"
  shows "\<exists>h2. q_destroy q h1 = Inr h2 \<and> mem h2 = mem h"
proof -
  obtain q0 h0 where c: "q_create h = (q0, h0)" "q_inv q0 h0" "mem h (q_data q0) = None"
    "\<forall>a. a \<noteq> q_data q0 \<longrightarrow> mem h0 a = mem h a" by (rule q_create_ok[OF assms(1)])
  have r: "q_inv q h1" "replaced (q_data q0) (q_data q) h0 h1"
    using jq_run_frame[OF c(2)] assms(2) c(1) by auto
  have "mem (del_block (q_data q) h1) a = mem h a" for a
    using r(2) c(3,4) by (cases "a = q_data q0"; cases "a = q_data q") (auto simp: replaced_def)
  then show ?thesis using q_destroy_ok[OF r(1)] by auto
qed

lemma queue_no_leak_witness:
  "\<exists>q h1 h2. run_ops jq_push jq_next [Put 5, Get] (q_create heap28) = Inr ([5], (q, h1)) \<and>
     q_destroy q h1 = Inr h2 \<and> mem h2 = mem heap28"
proof -
  obtain q h1 where r: "run_ops jq_push jq_next [Put 5, Get] (q_create heap28) = Inr ([5], (q, h1))"
    using jq.run_refines[OF jq_create(1,3)[OF ample_heap28 order_refl], of "[Put 5, Get]" "[5]" "[]"]
      jq_create(2)[OF ample_heap28 order_refl] by auto
  have "can_alloc heap28" using ample_heap28 ample_can_alloc[of 27 heap28] by simp
  from queue_no_leak[OF this r] r show ?thesis by blast
qed

end
