(* ===== verification/Node_Stack.thy ===== *)
theory Node_Stack
  imports C_Prelude Interfaces
begin

text \<open>
  The linked stack of \<open>src/unix/stack.c\<close> (\<open>include/unix/stack.h\<close>): a \<open>stack_node\<close> is a
  block of two cells, \<open>prev\<close> and \<open>data\<close>, and a \<open>stack\<close> is the address of its top node.
  \<open>chain h p ps xs\<close> reads the nodes \<open>ps\<close> and the values \<open>xs\<close> reached from \<open>p\<close>.  The
  lemmas show that the operations are those of a list with its top first, that every node is
  allocated and freed exactly once, and that emptying a stack ends for every heap, whatever the
  nodes look like.
\<close>

section \<open>The operations\<close>

record stack =
  s_top :: ptr

lemma s_top_upd [simp]: "s\<lparr>s_top := p\<rparr> = \<lparr>s_top = p\<rparr>"
  by (cases s) simp

text \<open>Offsets of the fields of \<open>struct stack_node\<close> and its size in bytes.\<close>

definition NODE_PREV :: int where "NODE_PREV = 0"
definition NODE_DATA :: int where "NODE_DATA = 1"
definition NODE_BYTES :: "64 word" where "NODE_BYTES = 16"

definition stack_create :: stack where
  "stack_create = \<lparr>s_top = 0\<rparr>"

definition stack_push :: "stack \<Rightarrow> 64 word \<Rightarrow> heap \<Rightarrow> (stack \<times> heap) result" where
  "stack_push s val h =
    (let (new_node, h1) = malloc NODE_BYTES h
     in rbind (store new_node NODE_DATA val h1) (\<lambda>h2.
        rbind (store new_node NODE_PREV (s_top s) h2) (\<lambda>h3.
        Inr (s\<lparr>s_top := new_node\<rparr>, h3))))"

definition stack_pop :: "stack \<Rightarrow> heap \<Rightarrow> (64 word \<times> stack \<times> heap) result" where
  "stack_pop s h =
    rbind (load (s_top s) NODE_DATA h) (\<lambda>val.
    rbind (load (s_top s) NODE_PREV h) (\<lambda>new_top.
    rbind (free (s_top s) h) (\<lambda>h'.
    Inr (val, s\<lparr>s_top := new_top\<rparr>, h'))))"

definition stack_is_empty :: "stack \<Rightarrow> bool" where
  "stack_is_empty s \<longleftrightarrow> s_top s = 0"

text \<open>Every round of the loop frees a live block, so it ends in every heap.\<close>

function stack_empty :: "stack \<Rightarrow> heap \<Rightarrow> (stack \<times> heap) result" where
  "stack_empty s h =
    (if s_top s \<noteq> 0
     then rbind (load (s_top s) NODE_PREV h) (\<lambda>new_top.
          rbind (free (s_top s) h) (\<lambda>h'. stack_empty (s\<lparr>s_top := new_top\<rparr>) h'))
     else Inr (s, h))"
  by pat_completeness auto

lemma free_shrinks:
  assumes "free p h = Inr h'" and "p \<noteq> 0"
  shows "card (dom (mem h')) < card (dom (mem h))"
proof -
  have "mem h p \<noteq> None" and h': "h' = del_block p h"
    using assms by (auto simp: free_def split: if_splits)
  then have "p \<in> dom (mem h)" by auto
  moreover have "dom (mem h') = dom (mem h) - {p}"
    using h' by (auto simp: dom_def split: if_splits)
  ultimately show ?thesis by (simp only: card_Diff1_less finite_mem)
qed

termination stack_empty
  by (relation "measure (\<lambda>(s, h). card (dom (mem h)))") (auto dest: free_shrinks)

declare stack_empty.simps [simp del, c_eval]

definition stack_destroy :: "stack \<Rightarrow> heap \<Rightarrow> (stack \<times> heap) result" where
  "stack_destroy s h = stack_empty s h"

lemmas stack_run_defs [c_eval] =
  NODE_PREV_def NODE_DATA_def NODE_BYTES_def stack_create_def stack_push_def stack_pop_def
  stack_is_empty_def stack_destroy_def

section \<open>Chains of nodes\<close>

fun chain :: "heap \<Rightarrow> ptr \<Rightarrow> ptr list \<Rightarrow> 64 word list \<Rightarrow> bool" where
  "chain h p [] [] \<longleftrightarrow> p = 0"
| "chain h p (a # as) (x # xs) \<longleftrightarrow>
     p = a \<and> p \<noteq> 0 \<and> (\<exists>n. mem h p = Some [Some n, Some x] \<and> chain h n as xs)"
| "chain h p _ _ \<longleftrightarrow> False"

text \<open>The stack \<open>s\<close> consists of the distinct nodes \<open>ps\<close> and holds \<open>xs\<close>, top first.\<close>

definition stack_at :: "stack \<Rightarrow> heap \<Rightarrow> ptr list \<Rightarrow> 64 word list \<Rightarrow> bool" where
  "stack_at s h ps xs \<longleftrightarrow> chain h (s_top s) ps xs \<and> distinct ps"

lemma chain_live: "chain h p ps xs \<Longrightarrow> a \<in> set ps \<Longrightarrow> mem h a \<noteq> None"
  by (induction h p ps xs rule: chain.induct) auto

lemma chain_frame:
  "chain h p ps xs \<Longrightarrow> \<forall>a \<in> set ps. mem h' a = mem h a \<Longrightarrow> chain h' p ps xs"
  by (induction h p ps xs rule: chain.induct) auto

lemma chain_unique:
  "chain h p ps xs \<Longrightarrow> chain h p qs ys \<Longrightarrow> ps = qs \<and> xs = ys"
proof (induction h p ps xs arbitrary: qs ys rule: chain.induct)
  case (1 h p)
  then show ?case by (cases qs; cases ys) auto
next
  case (2 h p a as x xs)
  then show ?case by (cases qs; cases ys) fastforce+
qed auto

lemma chain_length: "chain h p ps xs \<Longrightarrow> length ps = length xs"
  by (induction h p ps xs rule: chain.induct) auto

lemma chain_empty_iff: "chain h p ps xs \<Longrightarrow> p = 0 \<longleftrightarrow> xs = []"
  by (cases ps; cases xs) auto

lemma stack_create_at: "stack_at stack_create h [] []"
  by (simp add: stack_at_def stack_create_def)

lemma stack_push_ok:
  assumes "stack_at s h ps xs" and "can_alloc h"
  shows "\<exists>p h'. stack_push s v h = Inr (\<lparr>s_top = p\<rparr>, h') \<and> stack_at \<lparr>s_top = p\<rparr> h' (p # ps) (v # xs) \<and>
    p = hd (answers h) \<and> mem h p = None \<and> (\<forall>a. a \<noteq> p \<longrightarrow> mem h' a = mem h a) \<and>
    answers h' = tl (answers h)"
proof -
  obtain p where p: "p = hd (answers h)" "p \<noteq> 0" "mem h p = None"
    "malloc NODE_BYTES h =
      (p, put_block p (replicate (unat NODE_BYTES div 8) None) (h\<lparr>answers := tl (answers h)\<rparr>))"
    by (rule malloc_ok[OF assms(2)])
  have "replicate (unat NODE_BYTES div 8) None = [None, None :: cell]"
    by (simp add: NODE_BYTES_def) (simp add: numeral_2_eq_2)
  note p = p(1-3) p(4)[unfolded this]
  let ?h = "put_block p [Some (s_top s), Some v] (h\<lparr>answers := tl (answers h)\<rparr>)"
  have "stack_push s v h = Inr (\<lparr>s_top = p\<rparr>, ?h)"
    using p by (simp add: stack_push_def store_def block_of_def NODE_DATA_def NODE_PREV_def)
  moreover have notin: "p \<notin> set ps"
    using chain_live[of h "s_top s" ps xs p] assms(1) p(3) by (auto simp: stack_at_def)
  moreover have "chain ?h (s_top s) ps xs"
    using assms(1) notin by (auto simp: stack_at_def intro: chain_frame)
  ultimately show ?thesis using assms(1) p by (simp add: stack_at_def)
qed

lemma stack_push_oom:
  "\<not> can_alloc h \<Longrightarrow> stack_push s v h = Inl Null_Deref"
  by (simp add: stack_push_def malloc_null)

lemma stack_pop_ok:
  assumes "stack_at s h (p # ps) (x # xs)"
  shows "\<exists>n. stack_pop s h = Inr (x, \<lparr>s_top = n\<rparr>, del_block p h) \<and> stack_at \<lparr>s_top = n\<rparr> (del_block p h) ps xs"
proof -
  obtain n where n: "s_top s = p" "p \<noteq> 0" "mem h p = Some [Some n, Some x]" "chain h n ps xs"
    using assms by (auto simp: stack_at_def)
  then have "stack_pop s h = Inr (x, \<lparr>s_top = n\<rparr>, del_block p h)"
    by (simp add: stack_pop_def load_def block_of_def free_def NODE_DATA_def NODE_PREV_def)
  moreover have "chain (del_block p h) n ps xs"
    using n(4) assms by (auto simp: stack_at_def intro: chain_frame)
  ultimately show ?thesis using assms by (simp add: stack_at_def)
qed

lemma stack_pop_empty: "stack_is_empty s \<Longrightarrow> stack_pop s h = Inl Null_Deref"
  by (simp add: stack_pop_def stack_is_empty_def)

lemma stack_is_empty_iff: "stack_at s h ps xs \<Longrightarrow> stack_is_empty s \<longleftrightarrow> xs = []"
  by (auto simp: stack_at_def stack_is_empty_def dest: chain_empty_iff)

text \<open>Freeing a list of blocks, one after the other.\<close>

definition del_blocks :: "ptr list \<Rightarrow> heap \<Rightarrow> heap" where
  "del_blocks ps h = fold del_block ps h"

lemma del_blocks_simps [simp]:
  "del_blocks [] h = h" "del_blocks (p # ps) h = del_blocks ps (del_block p h)"
  by (simp_all add: del_blocks_def)

lemma mem_del_blocks: "mem (del_blocks ps h) a = (if a \<in> set ps then None else mem h a)"
  by (induction ps arbitrary: h) auto

lemma stack_empty_ok:
  "stack_at s h ps xs \<Longrightarrow> stack_empty s h = Inr (\<lparr>s_top = 0\<rparr>, del_blocks ps h)"
proof (induction ps arbitrary: s h xs)
  case Nil
  then show ?case by (cases xs; cases s) (auto simp: stack_at_def stack_empty.simps)
next
  case (Cons p ps)
  then obtain x xs' where xs: "xs = x # xs'" by (cases xs) (auto simp: stack_at_def)
  obtain n where n: "s_top s = p" "p \<noteq> 0" "mem h p = Some [Some n, Some x]" "chain h n ps xs'"
    using Cons.prems xs by (auto simp: stack_at_def)
  have "stack_at \<lparr>s_top = n\<rparr> (del_block p h) ps xs'"
    using n(4) Cons.prems by (auto simp: stack_at_def intro: chain_frame)
  from Cons.IH[OF this] n show ?case
    by (subst stack_empty.simps) (simp add: load_def block_of_def free_def NODE_PREV_def)
qed

section \<open>The stack as a last-in first-out container\<close>

text \<open>
  The values read from the top node down; a node that has been read is taken out of the heap, so
  the walk ends also when the nodes form a cycle.
\<close>

function read_chain :: "ptr \<Rightarrow> heap \<Rightarrow> 64 word list" where
  "read_chain p h =
    (if p = 0 then []
     else case mem h p of
       Some [Some n, Some x] \<Rightarrow> x # read_chain n (del_block p h)
     | _ \<Rightarrow> [])"
  by pat_completeness auto

lemma del_block_shrinks:
  assumes "mem h p = Some cs"
  shows "card (dom (mem (del_block p h))) < card (dom (mem h))"
  using free_shrinks[of p h "del_block p h"] assms
proof (cases "p = 0")
  case True
  have "dom (mem (del_block p h)) = dom (mem h) - {p}" by (auto simp: dom_def split: if_splits)
  moreover have "p \<in> dom (mem h)" using assms by auto
  ultimately show ?thesis by (simp only: card_Diff1_less finite_mem)
qed (simp add: free_def)

termination read_chain
  by (relation "measure (\<lambda>(p, h). card (dom (mem h)))") (auto intro: del_block_shrinks)

declare read_chain.simps [simp del, c_eval]

lemma read_chain_eq: "chain h p ps xs \<Longrightarrow> distinct ps \<Longrightarrow> read_chain p h = xs"
proof (induction ps arbitrary: p h xs)
  case Nil
  then show ?case by (cases xs) (auto simp: read_chain.simps)
next
  case (Cons a as)
  then obtain x xs' n where xs: "xs = x # xs'" "p = a" "p \<noteq> 0" "mem h p = Some [Some n, Some x]"
    "chain h n as xs'" by (cases xs) auto
  then have "chain (del_block p h) n as xs'" using Cons.prems by (auto intro: chain_frame)
  with Cons.IH[OF this] Cons.prems xs show ?case by (simp add: read_chain.simps[of a h])
qed

type_synonym st = "stack \<times> heap"

definition st_inv :: "st \<Rightarrow> bool" where
  "st_inv = (\<lambda>(s, h). \<exists>ps xs. stack_at s h ps xs)"

definition st_list :: "st \<Rightarrow> 64 word list" where
  "st_list = (\<lambda>(s, h). read_chain (s_top s) h)"

definition st_room :: "nat \<Rightarrow> st \<Rightarrow> bool" where
  "st_room n = (\<lambda>(s, h). ample n h)"

definition st_push :: "64 word \<Rightarrow> st \<Rightarrow> st result" where
  "st_push v = (\<lambda>(s, h). stack_push s v h)"

definition st_pop :: "st \<Rightarrow> (64 word \<times> st) result" where
  "st_pop = (\<lambda>(s, h). stack_pop s h)"

definition st_is_empty :: "st \<Rightarrow> bool" where
  "st_is_empty = (\<lambda>(s, h). stack_is_empty s)"

lemmas st_defs = st_inv_def st_list_def st_room_def st_push_def st_pop_def st_is_empty_def

lemma st_apply:
  "st_push v (s, h) = stack_push s v h" "st_pop (s, h) = stack_pop s h"
  by (simp_all add: st_defs)

lemma stack_at_list: "stack_at s h ps xs \<Longrightarrow> st_list (s, h) = xs"
  by (auto simp: st_list_def stack_at_def intro: read_chain_eq)

lemma st_invE:
  assumes "st_inv (s, h)"
  obtains ps where "stack_at s h ps (st_list (s, h))"
  using assms by (auto simp: st_inv_def stack_at_list)

lemma st_push_room:
  assumes "st_inv (s, h)" and "ample (Suc n) h"
  shows "\<exists>s' h'. stack_push s v h = Inr (s', h') \<and> st_inv (s', h') \<and>
    st_list (s', h') = v # st_list (s, h) \<and> ample n h'"
proof -
  obtain ps where at: "stack_at s h ps (st_list (s, h))" by (rule st_invE[OF assms(1)])
  from stack_push_ok[OF at ample_can_alloc[OF assms(2)], of v] obtain p h' where
    p: "stack_push s v h = Inr (\<lparr>s_top = p\<rparr>, h')" "stack_at \<lparr>s_top = p\<rparr> h' (p # ps) (v # st_list (s, h))"
    "p = hd (answers h)" "\<forall>a. a \<noteq> p \<longrightarrow> mem h' a = mem h a" "answers h' = tl (answers h)" by blast
  have "ample n h'" by (rule ample_step[OF assms(2) p(5)]) (use p(3,4) in auto)
  then show ?thesis using p(1,2) stack_at_list[OF p(2)] unfolding st_inv_def by blast
qed

lemma st_pop_room:
  assumes "st_inv (s, h)" and "st_list (s, h) = x # xs"
  shows "\<exists>s' h'. stack_pop s h = Inr (x, s', h') \<and> st_inv (s', h') \<and> st_list (s', h') = xs \<and>
    (\<forall>n. ample n h \<longrightarrow> ample n h')"
proof -
  obtain ps where at: "stack_at s h ps (x # xs)" using st_invE[OF assms(1)] assms(2) by metis
  then obtain p ps' where ps: "ps = p # ps'" by (cases ps) (auto simp: stack_at_def)
  from stack_pop_ok[OF at[unfolded ps]] obtain n where
    n: "stack_pop s h = Inr (x, \<lparr>s_top = n\<rparr>, del_block p h)"
    "stack_at \<lparr>s_top = n\<rparr> (del_block p h) ps' xs" by blast
  then have "st_inv (\<lparr>s_top = n\<rparr>, del_block p h)" by (auto simp: st_inv_def)
  then show ?thesis using n stack_at_list[OF n(2)] by (auto intro: ample_same)
qed

interpretation st: lifo st_inv st_list st_room st_push st_pop st_is_empty
proof
  fix s :: st and n x
  assume "st_inv s" and "st_room (Suc n) s"
  then show "\<exists>s'. st_push x s = Inr s' \<and> st_inv s' \<and> st_list s' = x # st_list s \<and> st_room n s'"
    using st_push_room[of "fst s" "snd s" n x] by (auto simp: st_push_def st_room_def split_beta)
next
  fix s :: st and x xs
  assume "st_inv s" and "st_list s = x # xs"
  then show "\<exists>s'. st_pop s = Inr (x, s') \<and> st_inv s' \<and> st_list s' = xs \<and>
      (\<forall>n. st_room n s \<longrightarrow> st_room (n + 0) s')"
    using st_pop_room[of "fst s" "snd s" x xs] by (auto simp: st_pop_def st_room_def split_beta)
next
  fix s :: st
  assume "st_inv s"
  then show "st_is_empty s \<longleftrightarrow> st_list s = []"
    using st_invE[of "fst s" "snd s"] stack_is_empty_iff[of "fst s" "snd s"]
    by (auto simp: st_is_empty_def split_beta)
qed

text \<open>
  Bookkeeping of the nodes against the memory \<open>m\<close> before the stack existed: the nodes are new
  blocks, everything else is as it was.
\<close>

definition built_on :: "(ptr \<Rightarrow> cell list option) \<Rightarrow> ptr list \<Rightarrow> heap \<Rightarrow> bool" where
  "built_on m ps h \<longleftrightarrow> (\<forall>a. a \<notin> set ps \<longrightarrow> mem h a = m a) \<and> (\<forall>a \<in> set ps. m a = None)"

lemma built_on_run:
  assumes "stack_at s h ps xs" and "built_on m ps h"
    and "run_ops st_push st_pop ops (s, h) = Inr (vs, (s', h'))"
  shows "\<exists>ps' xs'. stack_at s' h' ps' xs' \<and> built_on m ps' h'"
  using assms
proof (induction ops arbitrary: s h ps xs vs)
  case Nil
  then show ?case by auto
next
  case (Cons op ops)
  show ?case
  proof (cases op)
    case (Put x)
    have alloc: "can_alloc h"
      using Cons.prems(3) Put stack_push_oom[of h s x] by (cases "can_alloc h") (auto simp: st_apply)
    from stack_push_ok[OF Cons.prems(1) alloc, of x] obtain p h1 where
      p: "stack_push s x h = Inr (\<lparr>s_top = p\<rparr>, h1)" "stack_at \<lparr>s_top = p\<rparr> h1 (p # ps) (x # xs)"
      "mem h p = None" "\<forall>a. a \<noteq> p \<longrightarrow> mem h1 a = mem h a" by blast
    have "p \<notin> set ps"
      using p(3) chain_live[of h "s_top s" ps xs p] Cons.prems(1) by (auto simp: stack_at_def)
    then have "built_on m (p # ps) h1"
      using Cons.prems(2) p(3,4) by (auto simp: built_on_def)
    with Cons.IH[OF p(2)] Cons.prems(3) Put p(1) show ?thesis by (auto simp: st_apply)
  next
    case Get
    have "xs \<noteq> []"
    proof
      assume "xs = []"
      then have "stack_pop s h = Inl Null_Deref"
        using stack_is_empty_iff[OF Cons.prems(1)] stack_pop_empty by blast
      then show False using Cons.prems(3) Get by (simp add: st_apply)
    qed
    then obtain x xs' where xs: "xs = x # xs'" by (cases xs) auto
    then obtain p ps' where ps: "ps = p # ps'"
      using Cons.prems(1) by (cases ps) (auto simp: stack_at_def)
    from stack_pop_ok[OF Cons.prems(1)[unfolded xs ps]] obtain n where
      n: "stack_pop s h = Inr (x, \<lparr>s_top = n\<rparr>, del_block p h)"
      "stack_at \<lparr>s_top = n\<rparr> (del_block p h) ps' xs'" by blast
    have "built_on m ps' (del_block p h)"
      using Cons.prems(1,2) ps by (auto simp: built_on_def stack_at_def)
    with Cons.IH[OF n(2)] Cons.prems(3) Get n(1) show ?thesis
      by (auto simp: st_apply rbind_Inr_iff)
  qed
qed

lemma stack_at_create: "st_inv (stack_create, h)" "st_list (stack_create, h) = []"
  using stack_create_at[of h] by (auto simp: st_inv_def stack_at_list)

definition heap4 :: heap where
  "heap4 = \<lparr>mem = (\<lambda>_. None), answers = [100, 101, 102, 103]\<rparr>"

lemma ample_heap4: "ample 4 heap4"
  by (simp add: ample_def heap4_def)

section \<open>Properties\<close>

text \<open>C38: Started empty, the linked stack returns for every sequence of pushes and pops what a list
  with its top first returns, and holds the same values afterwards, while the allocator grants a
  node per push.\<close>

theorem stack_refines_lifo:
  assumes "ample n h" and "fits 0 ops n" and "spec_ops (#) ops [] = Some (vs, ys)"
  shows "\<exists>s. run_ops st_push st_pop ops (stack_create, h) = Inr (vs, s) \<and> st_list s = ys"
  using st.run_refines[OF stack_at_create(1) _ assms(2), of h vs ys] assms(1,3)
  by (auto simp: st_room_def stack_at_create)

lemma stack_refines_lifo_witness:
  "\<exists>s. run_ops st_push st_pop [Put 1, Put 2, Get, Put 3] (stack_create, heap4) = Inr ([2], s) \<and>
     st_list s = [3, 1]"
  by (rule stack_refines_lifo[OF ample_heap4]) simp_all

text \<open>\<open>stack_pop\<close> on every branch: on a stack that holds something it returns the top value and
  frees exactly the top node; on an empty stack it dereferences the null pointer, so callers have
  to ask \<open>stack_is_empty\<close> first.\<close>

theorem stack_pop_branches:
  assumes "stack_at s h ps xs"
  shows "case xs of
      [] \<Rightarrow> stack_is_empty s \<and> stack_pop s h = Inl Null_Deref
    | x # xs' \<Rightarrow> \<not> stack_is_empty s \<and>
        (\<exists>s'. stack_pop s h = Inr (x, s', del_block (s_top s) h) \<and>
              stack_at s' (del_block (s_top s) h) (tl ps) xs')"
proof (cases xs)
  case Nil
  then show ?thesis using stack_is_empty_iff[OF assms] stack_pop_empty by simp
next
  case (Cons x xs')
  then obtain p ps' where ps: "ps = p # ps'" "s_top s = p"
    using assms by (cases ps) (auto simp: stack_at_def)
  then show ?thesis
    using stack_pop_ok[of s h p ps' x xs'] stack_is_empty_iff[OF assms] assms Cons by auto
qed

lemma stack_pop_branches_witness:
  "stack_is_empty stack_create \<and> stack_pop stack_create heap4 = Inl Null_Deref"
  using stack_pop_branches[OF stack_create_at[of heap4]] by simp

text \<open>\<open>stack_destroy\<close> ends, leaves the stack empty and frees each of its nodes once and no
  other block; so after any sequence of operations that returns, destroying the stack leaves the
  heap as it was before the stack was created.\<close>

theorem stack_no_leak:
  assumes "run_ops st_push st_pop ops (stack_create, h) = Inr (vs, (s, h1))"
  shows "\<exists>h2. stack_destroy s h1 = Inr (stack_create, h2) \<and> mem h2 = mem h"
proof -
  obtain ps xs where at: "stack_at s h1 ps xs" and b: "built_on (mem h) ps h1"
    using built_on_run[OF stack_create_at _ assms, of "mem h"] by (auto simp: built_on_def)
  have "mem (del_blocks ps h1) a = mem h a" for a
    using b unfolding built_on_def mem_del_blocks by metis
  then show ?thesis using stack_empty_ok[OF at] by (auto simp: stack_destroy_def stack_create_def)
qed

lemma stack_no_leak_witness:
  "\<exists>s h1 h2. run_ops st_push st_pop [Put 1, Put 2, Get] (stack_create, heap4) = Inr ([2], (s, h1)) \<and>
     stack_destroy s h1 = Inr (stack_create, h2) \<and> mem h2 = mem heap4"
proof -
  obtain s h1 where r: "run_ops st_push st_pop [Put 1, Put 2, Get] (stack_create, heap4) = Inr ([2], (s, h1))"
    using st.run_refines[OF stack_at_create(1), of 4 heap4 "[Put 1, Put 2, Get]" "[2]" "[1]"]
      ample_heap4 by (auto simp: st_room_def stack_at_create)
  from stack_no_leak[OF r] r show ?thesis by blast
qed

end
