(* ===== verification/Boolset.thy ===== *)
theory Boolset
  imports C_Prelude Interfaces
begin

text \<open>
  The bit set of \<open>src/unix/boolset.c\<close> (\<open>include/unix/boolset.h\<close>, with \<open>BOOLSET_TYPE\<close> the
  default \<open>unsigned long\<close>): an array of 64 bit words on the heap that grows when a bit beyond
  it is set.  \<open>bs_inv\<close> is the representation invariant, \<open>bs_words\<close> the words and
  \<open>bs_members\<close> the set of indices whose bit is one.  The lemmas show that setting a bit inserts or
  removes exactly its index, also when the array is reallocated, that reading a bit decides
  membership inside the array and leaves the array outside, and that \<open>boolset_foreach\<close> calls back
  for every member once, in ascending order, even when the callback clears what it visits.
\<close>

section \<open>The operations\<close>

record boolset_t =
  bs_size :: "64 word"
  bs_data :: ptr

text \<open>\<open>sizeof(BOOLSET_TYPE)\<close>\<close>

definition SIZEOF_T :: "64 word" where
  "SIZEOF_T = 8"

definition boolset_create :: "heap \<Rightarrow> (boolset_t \<times> heap) result" where
  "boolset_create h =
    (let size = 1;
         (data, h1) = malloc (size * SIZEOF_T) h
     in rbind (memset0 data (size * SIZEOF_T) h1) (\<lambda>h2.
        Inr (\<lparr>bs_size = size, bs_data = data\<rparr>, h2)))"

definition boolset_expand :: "boolset_t \<Rightarrow> 64 word \<Rightarrow> heap \<Rightarrow> (boolset_t \<times> heap) result" where
  "boolset_expand b new_size h =
    (let old_byte_size = bs_size b * SIZEOF_T;
         new_byte_size = new_size * SIZEOF_T;
         old_data = bs_data b;
         (new_data, h1) = malloc new_byte_size h
     in rbind (memset0 new_data new_byte_size h1) (\<lambda>h2.
        rbind (memcpy new_data old_data old_byte_size h2) (\<lambda>h3.
        rbind (free old_data h3) (\<lambda>h4.
        Inr (b\<lparr>bs_data := new_data, bs_size := new_size\<rparr>, h4)))))"

definition boolset_set :: "boolset_t \<Rightarrow> 64 word \<Rightarrow> int \<Rightarrow> heap \<Rightarrow> (boolset_t \<times> heap) result" where
  "boolset_set b index val h =
    (let major_index = index div (SIZEOF_T * 8);
         required_size = major_index + 1
     in rbind (if required_size > bs_size b then boolset_expand b required_size h
               else Inr (b, h)) (\<lambda>(b, h).
    (let minor_index = index mod (SIZEOF_T * 8);
         val = (if val \<noteq> 0 then 1 else 0);
         mask = push_bit (unat minor_index) 1
     in rbind (load (bs_data b) (uint major_index) h) (\<lambda>temp.
        rbind (load (bs_data b) (uint major_index) h) (\<lambda>w1.
        rbind (store (bs_data b) (uint major_index) (w1 AND NOT mask) h) (\<lambda>h1.
        rbind (load (bs_data b) (uint major_index) h1) (\<lambda>w2.
        rbind (store (bs_data b) (uint major_index) (w2 OR mask * val) h1) (\<lambda>h2.
        Inr (b, h2)))))))))"

definition boolset_get :: "boolset_t \<Rightarrow> 64 word \<Rightarrow> heap \<Rightarrow> bool result" where
  "boolset_get b index h =
    (let major_index = index div (SIZEOF_T * 8);
         minor_index = index mod (SIZEOF_T * 8);
         mask = push_bit (unat minor_index) 1
     in rbind (load (bs_data b) (uint major_index) h) (\<lambda>w. Inr (w AND mask \<noteq> 0)))"

definition boolset_destroy :: "boolset_t \<Rightarrow> heap \<Rightarrow> heap result" where
  "boolset_destroy b h = free (bs_data b) h"

text \<open>
  \<open>boolset_foreach\<close> over a client state that holds the set (\<open>bs\<close>) and the heap (\<open>hp\<close>), both of
  which the callback may change: the set is read again in every round of the outer loop, the
  current word is a copy.
\<close>

function foreach_minor :: "(64 word \<Rightarrow> 's \<Rightarrow> 's result) \<Rightarrow> 64 word \<Rightarrow> 64 word \<Rightarrow> nat \<Rightarrow> 's \<Rightarrow> 's result" where
  "foreach_minor callback value major_index minor_index s =
    (if minor_index < 64
     then if value AND push_bit minor_index 1 = 0
          then foreach_minor callback value major_index (minor_index + 1) s
          else rbind (callback (major_index * SIZEOF_T * 8 + word_of_nat minor_index) s)
                 (foreach_minor callback value major_index (minor_index + 1))
     else Inr s)"
  by pat_completeness auto
termination
  by (relation "measure (\<lambda>(cb, v, i, j, s). 64 - j)") auto

declare foreach_minor.simps [simp del, c_eval]

lemma word_inc_less: "(w :: 64 word) < v \<Longrightarrow> unat (w + 1) = unat w + 1"
  using unsigned_less[of v, where 'a = nat] unfolding word_less_nat_alt by (simp add: unat_word_ariths)

lemma index_decreases:
  "(w :: 64 word) < v \<Longrightarrow> 18446744073709551616 - unat (w + 1) < 18446744073709551616 - unat w"
  using word_inc_less[of w v] unsigned_less[of v, where 'a = nat] by (simp add: word_less_nat_alt)

function boolset_foreach :: "('s \<Rightarrow> boolset_t) \<Rightarrow> ('s \<Rightarrow> heap) \<Rightarrow> (64 word \<Rightarrow> 's \<Rightarrow> 's result)
    \<Rightarrow> 64 word \<Rightarrow> 's \<Rightarrow> 's result" where
  "boolset_foreach bs hp callback major_index s =
    (if major_index < bs_size (bs s)
     then rbind (load (bs_data (bs s)) (uint major_index) (hp s)) (\<lambda>value.
            if value = 0 then boolset_foreach bs hp callback (major_index + 1) s
            else rbind (foreach_minor callback value major_index 0 s)
                   (boolset_foreach bs hp callback (major_index + 1)))
     else Inr s)"
  by pat_completeness auto
termination
  by (relation "measure (\<lambda>(bs, hp, cb, i, s). 2 ^ 64 - unat i)") (auto intro: index_decreases)

declare boolset_foreach.simps [simp del, c_eval]

lemmas boolset_run_defs [c_eval] =
  SIZEOF_T_def boolset_create_def boolset_expand_def boolset_set_def boolset_get_def
  boolset_destroy_def

section \<open>Invariant and abstraction\<close>

text \<open>Word and bit position of an index.\<close>

abbreviation major :: "64 word \<Rightarrow> nat" where
  "major i \<equiv> unat i div 64"

abbreviation minor :: "64 word \<Rightarrow> nat" where
  "minor i \<equiv> unat i mod 64"

definition bs_words :: "boolset_t \<Rightarrow> heap \<Rightarrow> 64 word list" where
  "bs_words b h = (case mem h (bs_data b) of None \<Rightarrow> [] | Some cs \<Rightarrow> map the cs)"

definition bs_shape :: "boolset_t \<Rightarrow> heap \<Rightarrow> 64 word list \<Rightarrow> bool" where
  "bs_shape b h ws \<longleftrightarrow> bs_data b \<noteq> 0 \<and> mem h (bs_data b) = Some (map Some ws) \<and>
     length ws = unat (bs_size b) \<and> 0 < length ws \<and> length ws \<le> 2 ^ 58"

definition bs_inv :: "boolset_t \<Rightarrow> heap \<Rightarrow> bool" where
  "bs_inv b h \<longleftrightarrow> (\<exists>ws. bs_shape b h ws)"

definition bits_of :: "64 word list \<Rightarrow> 64 word set" where
  "bits_of ws = {i. major i < length ws \<and> bit (ws ! major i) (minor i)}"

definition bs_members :: "boolset_t \<Rightarrow> heap \<Rightarrow> 64 word set" where
  "bs_members b h = bits_of (bs_words b h)"

lemma bs_shape_words: "bs_shape b h ws \<Longrightarrow> bs_words b h = ws"
  by (simp add: bs_shape_def bs_words_def map_idI)

lemma bs_inv_shape: "bs_inv b h \<Longrightarrow> bs_shape b h (bs_words b h)"
  by (auto simp: bs_inv_def bs_shape_words)

lemma bs_shape_inv: "bs_shape b h ws \<Longrightarrow> bs_inv b h"
  by (auto simp: bs_inv_def)

lemma major_bound: "major i < 2 ^ 58"
proof -
  have "unat i < 2 ^ 58 * 64" using unsigned_less[of i, where 'a = nat] by simp
  then show ?thesis by (simp only: less_mult_imp_div_less)
qed

lemma unat_major: "unat (i div (SIZEOF_T * 8)) = major i"
  by (simp add: SIZEOF_T_def unat_div)

lemma uint_major: "uint (i div (SIZEOF_T * 8)) = int (major i)"
  by (simp only: uint_nat unat_major)

lemma unat_minor: "unat (i mod (SIZEOF_T * 8)) = minor i"
  by (simp add: SIZEOF_T_def unat_mod)

lemma unat_required: "unat (i div (SIZEOF_T * 8) + 1) = major i + 1"
proof -
  have "unat (i div (SIZEOF_T * 8)) + 1 < 2 ^ 64" using unat_major[of i] major_bound[of i] by simp
  then show ?thesis using unat_major[of i] by (simp add: unat_word_ariths)
qed

lemma index_split: "i = j \<longleftrightarrow> major i = major j \<and> minor i = minor j" for i j :: "64 word"
  by (metis div_mult_mod_eq word_unat_eq_iff)

section \<open>Creation, reading and writing\<close>

lemma boolset_create_ok:
  assumes "can_alloc h"
  obtains b h' where "boolset_create h = Inr (b, h')" and "bs_inv b h'" and "bs_members b h' = {}"
    and "mem h (bs_data b) = None" and "\<forall>a. a \<noteq> bs_data b \<longrightarrow> mem h' a = mem h a"
    and "answers h' = tl (answers h)" and "bs_size b = 1" and "bs_data b = hd (answers h)"
proof -
  obtain p where p: "p = hd (answers h)" "p \<noteq> 0" "mem h p = None"
    "malloc (1 * SIZEOF_T) h = (p, put_block p (replicate (unat (1 * SIZEOF_T) div 8) None)
      (h\<lparr>answers := tl (answers h)\<rparr>))" by (rule malloc_ok[OF assms])
  let ?h = "put_block p [Some 0] (h\<lparr>answers := tl (answers h)\<rparr>)"
  have run: "boolset_create h = Inr (\<lparr>bs_size = 1, bs_data = p\<rparr>, ?h)"
    using p by (simp add: boolset_create_def memset0_def block_of_def SIZEOF_T_def)
  have sh: "bs_shape \<lparr>bs_size = 1, bs_data = p\<rparr> ?h [0]" using p by (simp add: bs_shape_def)
  have "bs_members \<lparr>bs_size = 1, bs_data = p\<rparr> ?h = {}"
    unfolding bs_members_def bs_shape_words[OF sh] by (auto simp: bits_of_def)
  then show ?thesis using that[OF run bs_shape_inv[OF sh]] p by simp
qed

lemma boolset_create_oom: "\<not> can_alloc h \<Longrightarrow> boolset_create h = Inl Null_Deref"
  by (simp add: boolset_create_def malloc_null memset0_def)

text \<open>Growing keeps every word and adds zero words.\<close>

lemma boolset_expand_ok:
  assumes sh: "bs_shape b h ws" and big: "length ws \<le> unat n" and lim: "unat n \<le> 2 ^ 58"
    and alloc: "can_alloc h"
  obtains b' h' where "boolset_expand b n h = Inr (b', h')"
    and "bs_shape b' h' (ws @ replicate (unat n - length ws) 0)" and "bs_size b' = n"
    and "replaced (bs_data b) (bs_data b') h h'" and "answers h' = tl (answers h)"
    and "bs_data b' = hd (answers h)"
proof -
  have bytes: "unat (m * SIZEOF_T) div 8 = unat m" if "unat m \<le> 2 ^ 58" for m :: "64 word"
    using cells_of_words[of m] that by (simp add: SIZEOF_T_def)
  obtain p where p: "p = hd (answers h)" "p \<noteq> 0" "mem h p = None"
    "malloc (n * SIZEOF_T) h = (p, put_block p (replicate (unat n) None)
      (h\<lparr>answers := tl (answers h)\<rparr>))"
    by (rule malloc_ok[OF alloc, of "n * SIZEOF_T", unfolded bytes[OF lim]])
  let ?h1 = "put_block p (replicate (unat n) None) (h\<lparr>answers := tl (answers h)\<rparr>)"
  let ?h2 = "put_block p (replicate (unat n) (Some 0)) ?h1"
  let ?ws = "ws @ replicate (unat n - length ws) 0"
  let ?h3 = "put_block p (map Some ?ws) ?h2"
  have old: "bs_data b \<noteq> 0" "mem h (bs_data b) = Some (map Some ws)" "length ws = unat (bs_size b)"
    using sh by (simp_all add: bs_shape_def)
  have pb: "p \<noteq> bs_data b" using p(3) old(2) by auto
  have "memset0 p (n * SIZEOF_T) ?h1 = Inr ?h2"
    using memset0_ok[of p ?h1] p(2) bytes[OF lim] by simp
  moreover have "memcpy p (bs_data b) (bs_size b * SIZEOF_T) ?h2 = Inr ?h3"
    using memcpy_ok[of p ?h2 _ "bs_data b" "map Some ws"] p(2) old pb big lim
      bytes[of "bs_size b"] by simp
  moreover have "free (bs_data b) ?h3 = Inr (del_block (bs_data b) ?h3)"
    using old pb by (intro free_ok) auto
  ultimately have "boolset_expand b n h =
      Inr (b\<lparr>bs_data := p, bs_size := n\<rparr>, del_block (bs_data b) ?h3)"
    using p(4) by (simp add: boolset_expand_def)
  moreover have "bs_shape (b\<lparr>bs_data := p, bs_size := n\<rparr>) (del_block (bs_data b) ?h3) ?ws"
  proof -
    have "0 < unat n" using sh big unfolding bs_shape_def by linarith
    then show ?thesis using sh p(2) pb big lim by (simp add: bs_shape_def)
  qed
  moreover have "replaced (bs_data b) p h (del_block (bs_data b) ?h3)"
    using p(3) pb by (auto simp: replaced_def)
  ultimately show ?thesis using that[of "b\<lparr>bs_data := p, bs_size := n\<rparr>"] p(1) by simp
qed

text \<open>The word that \<open>boolset_set\<close> writes.\<close>

definition with_bit :: "64 word \<Rightarrow> nat \<Rightarrow> bool \<Rightarrow> 64 word" where
  "with_bit w n v = (w AND NOT (push_bit n 1)) OR (push_bit n 1 * (if v then 1 else 0))"

lemma bit_with_bit: "n < 64 \<Longrightarrow> bit (with_bit w n v) j \<longleftrightarrow> (if j = n then v else bit w j)"
  by (cases v) (auto simp: with_bit_def bit_simps dest: bit_imp_le_length)

lemma bits_of_update:
  assumes "major i < length ws"
  shows "bits_of (ws[major i := with_bit (ws ! major i) (minor i) v]) =
    (if v then insert i (bits_of ws) else bits_of ws - {i})"
proof -
  have "j \<in> bits_of (ws[major i := with_bit (ws ! major i) (minor i) v]) \<longleftrightarrow>
      (if j = i then v else j \<in> bits_of ws)" for j
    using assms index_split[of j i]
    by (cases "major j = major i") (auto simp: bits_of_def bit_with_bit)
  then show ?thesis by (cases v) (simp_all add: set_eq_iff)
qed

lemma bits_of_zeros: "bits_of (ws @ replicate k 0) = bits_of ws"
proof -
  have "(ws @ replicate k 0) ! j = (if j < length ws then ws ! j else 0)"
    if "j < length ws + k" for j
    using that by (simp add: nth_append)
  then show ?thesis by (auto simp: bits_of_def split: if_splits)
qed

text \<open>Setting a bit inside the array.\<close>

lemma boolset_set_within:
  assumes sh: "bs_shape b h ws" and i: "major i < length ws"
  shows "boolset_set b i v h = Inr (b, put_block (bs_data b)
    (map Some (ws[major i := with_bit (ws ! major i) (minor i) (v \<noteq> 0)])) h)"
proof -
  have d: "bs_data b \<noteq> 0" "mem h (bs_data b) = Some (map Some ws)" "length ws = unat (bs_size b)"
    using sh by (simp_all add: bs_shape_def)
  have "\<not> bs_size b < i div (SIZEOF_T * 8) + 1"
    using i d(3) unat_required[of i] by (simp add: word_less_nat_alt)
  moreover have "load (bs_data b) (int (major i)) h = Inr (ws ! major i)"
    using d i by (intro load_ok) auto
  ultimately show ?thesis
    using d i by (simp add: boolset_set_def uint_major unat_minor load_def store_def block_of_def
        with_bit_def map_update Let_def)
qed

text \<open>The index lies inside the array, or the array can grow.\<close>

definition bs_grants :: "64 word \<Rightarrow> boolset_t \<Rightarrow> heap \<Rightarrow> bool" where
  "bs_grants i b h \<longleftrightarrow> major i < unat (bs_size b) \<or> can_alloc h"

lemma boolset_set_grows:
  assumes "\<not> major i < unat (bs_size b)"
  shows "boolset_set b i v h =
    rbind (boolset_expand b (i div (SIZEOF_T * 8) + 1) h) (\<lambda>(b', h').
      if bs_size b' = i div (SIZEOF_T * 8) + 1 then boolset_set b' i v h' else boolset_set b i v h)"
proof -
  have big: "i div (SIZEOF_T * 8) + 1 > bs_size b"
    using assms unat_required[of i] by (simp add: word_less_nat_alt)
  have size: "bs_size b' = n" if "boolset_expand b n h = Inr (b', h')" for b' h' n
    using that by (auto simp: boolset_expand_def rbind_Inr_iff Let_def split: prod.splits)
  show ?thesis
  proof (cases "boolset_expand b (i div (SIZEOF_T * 8) + 1) h")
    case (Inl e)
    then show ?thesis using big by (simp add: boolset_set_def)
  next
    case (Inr r)
    obtain b' h' where r: "r = (b', h')" by (cases r)
    then have "bs_size b' = i div (SIZEOF_T * 8) + 1" using size Inr by simp
    then show ?thesis using Inr big r by (simp add: boolset_set_def)
  qed
qed

lemma boolset_set_ok:
  assumes inv: "bs_inv b h" and grant: "bs_grants i b h"
  obtains b' h' where "boolset_set b i v h = Inr (b', h')" and "bs_inv b' h'"
    and "bs_members b' h' = (if v \<noteq> 0 then insert i (bs_members b h) else bs_members b h - {i})"
    and "replaced (bs_data b) (bs_data b') h h'"
    and "unat (bs_size b') = max (unat (bs_size b)) (major i + 1)"
    and "answers h' = (if major i < unat (bs_size b) then answers h else tl (answers h))"
    and "bs_data b' = (if major i < unat (bs_size b) then bs_data b else hd (answers h))"
    and "\<forall>j < unat (bs_size b). j \<noteq> major i \<longrightarrow> bs_words b' h' ! j = bs_words b h ! j"
proof -
  note sh = bs_inv_shape[OF inv]
  let ?ws = "bs_words b h"
  have len: "length ?ws = unat (bs_size b)" using sh by (simp add: bs_shape_def)
  have within: "bs_shape b1 h1 ws \<Longrightarrow> major i < length ws \<Longrightarrow>
      boolset_set b1 i v h1 = Inr (b1, put_block (bs_data b1)
        (map Some (ws[major i := with_bit (ws ! major i) (minor i) (v \<noteq> 0)])) h1) \<and>
      bs_shape b1 (put_block (bs_data b1)
        (map Some (ws[major i := with_bit (ws ! major i) (minor i) (v \<noteq> 0)])) h1)
        (ws[major i := with_bit (ws ! major i) (minor i) (v \<noteq> 0)])" for b1 h1 ws
    using boolset_set_within[of b1 h1 ws i v] by (auto simp: bs_shape_def)
  show thesis
  proof (cases "major i < unat (bs_size b)")
    case True
    have i: "major i < length ?ws" using True len by simp
    let ?ws' = "?ws[major i := with_bit (?ws ! major i) (minor i) (v \<noteq> 0)]"
    let ?h = "put_block (bs_data b) (map Some ?ws') h"
    have run: "boolset_set b i v h = Inr (b, ?h)" and sh': "bs_shape b ?h ?ws'"
      using within[OF sh i] by auto
    have "replaced (bs_data b) (bs_data b) h ?h" by (simp add: replaced_def)
    moreover have "bs_members b ?h = (if v \<noteq> 0 then insert i (bs_members b h) else bs_members b h - {i})"
      using bits_of_update[OF i, of "v \<noteq> 0"] unfolding bs_members_def bs_shape_words[OF sh'] by simp
    moreover have "bs_words b ?h ! j = ?ws ! j" if "j \<noteq> major i" for j
      unfolding bs_shape_words[OF sh'] using that by simp
    ultimately show ?thesis using that[OF run bs_shape_inv[OF sh']] True by simp
  next
    case False
    let ?n = "i div (SIZEOF_T * 8) + 1"
    let ?zs = "?ws @ replicate (unat ?n - length ?ws) 0"
    have alloc: "can_alloc h" using grant False by (simp add: bs_grants_def)
    have n: "length ?ws \<le> unat ?n" "unat ?n \<le> 2 ^ 58"
      using False len unat_required[of i] major_bound[of i] by auto
    obtain b1 h1 where e: "boolset_expand b ?n h = Inr (b1, h1)" "bs_shape b1 h1 ?zs"
      "bs_size b1 = ?n" "replaced (bs_data b) (bs_data b1) h h1" "answers h1 = tl (answers h)"
      "bs_data b1 = hd (answers h)" by (rule boolset_expand_ok[OF sh n alloc])
    have i: "major i < length ?zs" using n(1) unat_required[of i] by simp
    let ?ws' = "?zs[major i := with_bit (?zs ! major i) (minor i) (v \<noteq> 0)]"
    let ?h = "put_block (bs_data b1) (map Some ?ws') h1"
    have run1: "boolset_set b1 i v h1 = Inr (b1, ?h)" and sh': "bs_shape b1 ?h ?ws'"
      using within[OF e(2) i] by auto
    have run: "boolset_set b i v h = Inr (b1, ?h)"
      by (subst boolset_set_grows[OF False]) (simp add: e(1,3) run1)
    have "replaced (bs_data b) (bs_data b1) h ?h"
      by (rule replaced_trans[OF e(4)]) (simp add: replaced_def)
    moreover have "bs_members b1 ?h = (if v \<noteq> 0 then insert i (bs_members b h) else bs_members b h - {i})"
      using bits_of_update[OF i, of "v \<noteq> 0"] bits_of_zeros[of ?ws]
      unfolding bs_members_def bs_shape_words[OF sh'] by simp
    moreover have "bs_words b1 ?h ! j = ?ws ! j" if "j < unat (bs_size b)" "j \<noteq> major i" for j
      unfolding bs_shape_words[OF sh'] using that len by (simp add: nth_append)
    moreover have "unat (bs_size b1) = max (unat (bs_size b)) (major i + 1)"
      using e(3) unat_required[of i] False by simp
    ultimately show ?thesis
      using that[OF run bs_shape_inv[OF sh']] e(5,6) False by simp
  qed
qed

lemma boolset_set_oom:
  assumes "\<not> bs_grants i b h"
  shows "boolset_set b i v h = Inl Null_Deref"
proof -
  have "\<not> major i < unat (bs_size b)" "\<not> can_alloc h" using assms by (auto simp: bs_grants_def)
  then show ?thesis
    using boolset_set_grows[of i b v h] malloc_null[of h]
    by (simp add: boolset_expand_def memset0_def)
qed

text \<open>All there is to know about a call that returned.\<close>

lemma boolset_set_InrD:
  assumes "bs_inv b h" and run: "boolset_set b i v h = Inr (b', h')"
  shows "bs_grants i b h" and "bs_inv b' h'"
    and "bs_members b' h' = (if v \<noteq> 0 then insert i (bs_members b h) else bs_members b h - {i})"
    and "replaced (bs_data b) (bs_data b') h h'"
    and "unat (bs_size b') = max (unat (bs_size b)) (major i + 1)"
    and "\<forall>j < unat (bs_size b). j \<noteq> major i \<longrightarrow> bs_words b' h' ! j = bs_words b h ! j"
proof -
  show g: "bs_grants i b h" using run boolset_set_oom[of i b h v] by fastforce
  obtain b1 h1 where r: "boolset_set b i v h = Inr (b1, h1)" "bs_inv b1 h1"
    "bs_members b1 h1 = (if v \<noteq> 0 then insert i (bs_members b h) else bs_members b h - {i})"
    "replaced (bs_data b) (bs_data b1) h h1" "unat (bs_size b1) = max (unat (bs_size b)) (major i + 1)"
    "\<forall>j < unat (bs_size b). j \<noteq> major i \<longrightarrow> bs_words b1 h1 ! j = bs_words b h ! j"
    by (rule boolset_set_ok[OF assms(1) g])
  have "b1 = b'" "h1 = h'" using r(1) run by simp_all
  then show "bs_inv b' h'"
    and "bs_members b' h' = (if v \<noteq> 0 then insert i (bs_members b h) else bs_members b h - {i})"
    and "replaced (bs_data b) (bs_data b') h h'"
    and "unat (bs_size b') = max (unat (bs_size b)) (major i + 1)"
    and "\<forall>j < unat (bs_size b). j \<noteq> major i \<longrightarrow> bs_words b' h' ! j = bs_words b h ! j"
    using r by simp_all
qed

lemma boolset_get_eq:
  assumes "bs_inv b h"
  shows "boolset_get b i h =
    (if major i < unat (bs_size b) then Inr (i \<in> bs_members b h) else Inl Out_Of_Bounds)"
proof -
  have "int (major i) < uint (bs_size b) \<longleftrightarrow> major i < unat (bs_size b)"
    by (metis of_nat_less_iff uint_nat)
  then show ?thesis using bs_inv_shape[OF assms]
    by (auto simp: boolset_get_def uint_major unat_minor load_def block_of_def bs_shape_def
        bs_members_def bits_of_def push_bit_eq_mult and_exp_eq_0_iff_not_bit)
qed

lemma boolset_destroy_ok: "bs_inv b h \<Longrightarrow> boolset_destroy b h = Inr (del_block (bs_data b) h)"
  by (auto simp: boolset_destroy_def bs_inv_def bs_shape_def intro: free_ok)

section \<open>The loop over the members\<close>

text \<open>The index of bit \<open>n\<close> of word \<open>m\<close>, and the indices of the one bits from word \<open>m\<close> on,
  in ascending order.\<close>

definition bit_index :: "nat \<Rightarrow> nat \<Rightarrow> 64 word" where
  "bit_index m n = word_of_nat (64 * m + n)"

definition elems_from :: "nat \<Rightarrow> 64 word list \<Rightarrow> 64 word list" where
  "elems_from m ws = map word_of_nat (filter (\<lambda>k. bit (ws ! (k div 64)) (k mod 64)) [64 * m..<64 * length ws])"

definition bs_elems :: "boolset_t \<Rightarrow> heap \<Rightarrow> 64 word list" where
  "bs_elems b h = elems_from 0 (bs_words b h)"

lemma elems_from_end: "length ws \<le> m \<Longrightarrow> elems_from m ws = []"
  by (simp add: elems_from_def)

lemma word_chunk: "filter (\<lambda>k. bit (ws ! (k div 64)) (k mod 64)) [64 * m + j..<64 * m + 64] =
    map (\<lambda>n. 64 * m + n) (filter (bit (ws ! m)) [j..<64])" if "j \<le> 64"
proof -
  have "[64 * m + j..<64 * m + 64] = map (\<lambda>n. n + 64 * m) [j..<64]"
    by (rule nth_equalityI) auto
  then have "filter (\<lambda>k. bit (ws ! (k div 64)) (k mod 64)) [64 * m + j..<64 * m + 64] =
      map (\<lambda>n. n + 64 * m) (filter (\<lambda>n. bit (ws ! ((n + 64 * m) div 64)) ((n + 64 * m) mod 64)) [j..<64])"
    by (simp add: filter_map comp_def)
  also have "\<dots> = map (\<lambda>n. n + 64 * m) (filter (bit (ws ! m)) [j..<64])"
    by (intro arg_cong[of _ _ "map _"] filter_cong) auto
  finally show ?thesis by (simp add: add.commute)
qed

lemma elems_from_step:
  assumes "m < length ws"
  shows "elems_from m ws =
    map (bit_index m) (filter (bit (ws ! m)) [0..<64]) @ elems_from (Suc m) ws"
proof -
  have "64 * length ws = 64 * m + 64 + (64 * length ws - (64 * m + 64))" using assms by simp
  then have "[64 * m..<64 * length ws] = [64 * m + 0..<64 * m + 64] @ [64 * m + 64..<64 * length ws]"
    using upt_add_eq_append[of "64 * m" "64 * m + 64" "64 * length ws - (64 * m + 64)"] by simp
  moreover have chunk: "64 * Suc m = 64 * m + 64" by simp
  ultimately show ?thesis
    unfolding elems_from_def chunk using word_chunk[of 0 ws m] by (simp add: bit_index_def comp_def)
qed

lemma elems_from_cong:
  assumes "length ws = length vs" and "\<And>j. m \<le> j \<Longrightarrow> j < length ws \<Longrightarrow> ws ! j = vs ! j"
  shows "elems_from m ws = elems_from m vs"
proof -
  have "ws ! (k div 64) = vs ! (k div 64)" if "k \<in> set [64 * m..<64 * length ws]" for k
    using that by (intro assms(2)) auto
  then show ?thesis using assms(1) by (auto simp: elems_from_def intro!: filter_cong arg_cong[of _ _ "map _"])
qed

lemma foreach_minor_rfold:
  assumes "j \<le> 64"
  shows "foreach_minor cb w (word_of_nat m) j s =
    rfold cb (map (bit_index m) (filter (bit w) [j..<64])) s"
  using assms
proof (induction "64 - j" arbitrary: j s)
  case 0
  then show ?case by (simp add: foreach_minor.simps)
next
  case (Suc k)
  then have j: "j < 64" "[j..<64] = j # [Suc j..<64]" by (auto simp: upt_conv_Cons)
  have IH: "foreach_minor cb w (word_of_nat m) (Suc j) t =
      rfold cb (map (bit_index m) (filter (bit w) [Suc j..<64])) t" for t
    using Suc by simp
  have idx: "word_of_nat m * SIZEOF_T * 8 + word_of_nat j = bit_index m j"
    by (simp add: SIZEOF_T_def bit_index_def)
  have test: "w AND push_bit j 1 = 0 \<longleftrightarrow> \<not> bit w j"
    by (simp add: push_bit_eq_mult and_exp_eq_0_iff_not_bit)
  show ?case
    using j IH by (subst foreach_minor.simps) (simp add: idx test del: push_bit_of_1 cong: rbind_cong)
qed

text \<open>
  \<open>calm\<close>: what the callback may do to the set when it is called for an index in word \<open>m\<close>: the
  set stays well formed and keeps its size, and no later word is written.
\<close>

definition calm :: "('s \<Rightarrow> boolset_t) \<Rightarrow> ('s \<Rightarrow> heap) \<Rightarrow> nat \<Rightarrow> 's \<Rightarrow> 's \<Rightarrow> bool" where
  "calm bs hp m s s' \<longleftrightarrow> bs_inv (bs s') (hp s') \<and> bs_size (bs s') = bs_size (bs s) \<and>
    (\<forall>j. m < j \<longrightarrow> j < unat (bs_size (bs s)) \<longrightarrow> bs_words (bs s') (hp s') ! j = bs_words (bs s) (hp s) ! j)"

lemma length_bs_words: "bs_inv b h \<Longrightarrow> length (bs_words b h) = unat (bs_size b)"
  using bs_inv_shape by (auto simp: bs_shape_def)

lemma major_word: "m < 2 ^ 58 \<Longrightarrow> n < 64 \<Longrightarrow> major (bit_index m n) = m"
  by (simp add: bit_index_def unat_of_nat del: of_nat_add of_nat_mult)

lemma boolset_foreach_rfold:
  assumes "bs_inv (bs s) (hp s)" and "m \<le> unat (bs_size (bs s))"
    and calm: "\<And>i s s'. bs_inv (bs s) (hp s) \<Longrightarrow> major i < unat (bs_size (bs s)) \<Longrightarrow>
      cb i s = Inr s' \<Longrightarrow> calm bs hp (major i) s s'"
  shows "boolset_foreach bs hp cb (word_of_nat m) s =
    rfold cb (elems_from m (bs_words (bs s) (hp s))) s"
  using assms(1,2)
proof (induction "unat (bs_size (bs s)) - m" arbitrary: m s)
  case 0
  have m: "m = unat (bs_size (bs s))" using 0 by simp
  have "\<not> word_of_nat m < bs_size (bs s)" unfolding m by simp
  then show ?case using 0 length_bs_words[OF 0(2)]
    by (subst boolset_foreach.simps) (simp add: elems_from_end)
next
  case (Suc k)
  let ?ws = "bs_words (bs s) (hp s)"
  let ?bits = "map (bit_index m) (filter (bit (?ws ! m)) [0..<64])"
  note sh = bs_inv_shape[OF Suc.prems(1)]
  have m: "m < unat (bs_size (bs s))" "m < length ?ws" "m < 2 ^ 58"
    using Suc(2) sh by (auto simp: bs_shape_def)
  have um: "unat (word_of_nat m :: 64 word) = m" using m(3) by (simp add: unat_of_nat)
  then have lt: "word_of_nat m < bs_size (bs s)" using m(1) by (simp add: word_less_nat_alt)
  have ld: "load (bs_data (bs s)) (uint (word_of_nat m :: 64 word)) (hp s) = Inr (?ws ! m)"
  proof -
    have "uint (word_of_nat m :: 64 word) = int m" by (metis um uint_nat)
    then show ?thesis using sh m by (simp add: load_def block_of_def bs_shape_def)
  qed
  have inc: "word_of_nat m + 1 = (word_of_nat (Suc m) :: 64 word)" by simp
  have rest: "boolset_foreach bs hp cb (word_of_nat (Suc m)) t = rfold cb (elems_from (Suc m) ?ws) t"
    if r: "rfold cb ?bits s = Inr t" for t
  proof -
    have c: "calm bs hp m s t \<and> bs_inv (bs t) (hp t)"
      using r
    proof (rule rfold_invariant[where P = "\<lambda>t. calm bs hp m s t \<and> bs_inv (bs t) (hp t)", rotated 2])
      show "calm bs hp m s s \<and> bs_inv (bs s) (hp s)" using Suc.prems(1) by (simp add: calm_def)
    next
      fix i u v assume i: "i \<in> set ?bits" and u: "calm bs hp m s u \<and> bs_inv (bs u) (hp u)" and "cb i u = Inr v"
      moreover have "major i = m" using i m(3) major_word by auto
      ultimately show "calm bs hp m s v \<and> bs_inv (bs v) (hp v)"
        using calm[of u i v] m(1) by (auto simp: calm_def)
    qed
    have "elems_from (Suc m) (bs_words (bs t) (hp t)) = elems_from (Suc m) ?ws"
      by (rule elems_from_cong)
         (use c Suc.prems(1) in \<open>auto simp: length_bs_words calm_def\<close>)
    moreover have "k = unat (bs_size (bs t)) - Suc m" "Suc m \<le> unat (bs_size (bs t))"
      using c Suc(2) m(1) by (auto simp: calm_def)
    ultimately show ?thesis using Suc(1)[of t "Suc m"] c by simp
  qed
  have "boolset_foreach bs hp cb (word_of_nat m) s =
      rbind (rfold cb ?bits s) (boolset_foreach bs hp cb (word_of_nat (Suc m)))"
    using lt ld foreach_minor_rfold[of 0 cb "?ws ! m" m s]
    by (subst boolset_foreach.simps) (auto simp: inc)
  also have "\<dots> = rbind (rfold cb ?bits s) (rfold cb (elems_from (Suc m) ?ws))"
    by (cases "rfold cb ?bits s") (use rest in auto)
  finally show ?case unfolding elems_from_step[OF m(2)] rfold_append .
qed

text \<open>The visited indices are the members, each once, in ascending order.\<close>

lemma bs_elems_sorted:
  assumes "bs_inv b h"
  shows "set (bs_elems b h) = bs_members b h" and "sorted_wrt (<) (bs_elems b h)"
proof -
  let ?ws = "bs_words b h"
  let ?ks = "filter (\<lambda>k. bit (?ws ! (k div 64)) (k mod 64)) [0..<64 * length ?ws]"
  have small: "k < 2 ^ 64" if "k \<in> set ?ks" for k
    using that bs_inv_shape[OF assms] by (auto simp: bs_shape_def)
  then have un: "unat (word_of_nat k :: 64 word) = k" if "k \<in> set ?ks" for k
    using that by (simp add: unat_of_nat)
  have elems: "bs_elems b h = map word_of_nat ?ks" by (simp add: bs_elems_def elems_from_def)
  have "i \<in> set (bs_elems b h) \<longleftrightarrow> i \<in> bs_members b h" for i
  proof
    assume "i \<in> set (bs_elems b h)"
    then obtain k where k: "k \<in> set ?ks" "i = word_of_nat k" unfolding elems by auto
    then show "i \<in> bs_members b h"
      using un[OF k(1)] by (auto simp: bs_members_def bits_of_def)
  next
    assume "i \<in> bs_members b h"
    then have "unat i \<in> set ?ks" by (auto simp: bs_members_def bits_of_def)
    moreover have "i = word_of_nat (unat i)" by simp
    ultimately show "i \<in> set (bs_elems b h)" unfolding elems set_map by (rule image_eqI[rotated])
  qed
  then show "set (bs_elems b h) = bs_members b h" by blast
  have "sorted_wrt (\<lambda>x y. word_of_nat x < (word_of_nat y :: 64 word)) ?ks"
  proof (rule sorted_wrt_mono_rel[where P = "(<)"])
    show "sorted_wrt (<) ?ks" by (simp add: sorted_wrt_filter)
  next
    fix x y assume "x \<in> set ?ks" "y \<in> set ?ks" "x < y"
    then show "word_of_nat x < (word_of_nat y :: 64 word)" by (simp only: word_less_nat_alt un)
  qed
  then show "sorted_wrt (<) (bs_elems b h)" unfolding elems sorted_wrt_map by simp
qed

section \<open>The bit set as a set of indices\<close>

type_synonym bset = "boolset_t \<times> heap"

definition bset_inv :: "bset \<Rightarrow> bool" where
  "bset_inv = (\<lambda>(b, h). bs_inv b h)"

definition bset_members :: "bset \<Rightarrow> 64 word set" where
  "bset_members = (\<lambda>(b, h). bs_members b h)"

definition bset_room :: "nat \<Rightarrow> bset \<Rightarrow> bool" where
  "bset_room n = (\<lambda>(b, h). ample n h)"

definition bset_put :: "64 word \<Rightarrow> bool \<Rightarrow> bset \<Rightarrow> bset result" where
  "bset_put i v = (\<lambda>(b, h). boolset_set b i (if v then 1 else 0) h)"

definition bset_get :: "64 word \<Rightarrow> bset \<Rightarrow> bool result" where
  "bset_get i = (\<lambda>(b, h). boolset_get b i h)"

lemmas bset_defs = bset_inv_def bset_members_def bset_room_def bset_put_def bset_get_def

lemma ample_grants: "ample (Suc n) h \<Longrightarrow> bs_grants i b h"
  using ample_can_alloc[of n h] by (simp add: bs_grants_def)

lemma boolset_set_ample:
  assumes "bs_inv b h" and "ample (Suc n) h"
  shows "\<exists>b' h'. boolset_set b i v h = Inr (b', h') \<and> bs_inv b' h' \<and>
    bs_members b' h' = upd_member (i, v \<noteq> 0) (bs_members b h) \<and> ample n h'"
proof -
  obtain b' h' where s: "boolset_set b i v h = Inr (b', h')" "bs_inv b' h'"
    "bs_members b' h' = (if v \<noteq> 0 then insert i (bs_members b h) else bs_members b h - {i})"
    "replaced (bs_data b) (bs_data b') h h'"
    "answers h' = (if major i < unat (bs_size b) then answers h else tl (answers h))"
    "bs_data b' = (if major i < unat (bs_size b) then bs_data b else hd (answers h))"
    by (rule boolset_set_ok[OF assms(1) ample_grants[OF assms(2)]])
  have live: "mem h (bs_data b) \<noteq> None" using bs_inv_shape[OF assms(1)] by (simp add: bs_shape_def)
  have "ample n h'"
  proof (cases "major i < unat (bs_size b)")
    case True
    have "\<forall>a. mem h a = None \<longrightarrow> mem h' a = None"
      using s(4,6) True live by (metis replaced_def)
    then show ?thesis
      using ample_same[OF ample_mono[OF assms(2), of n]] s(5) True by simp
  next
    case False
    have "\<forall>a. a \<noteq> hd (answers h) \<longrightarrow> mem h a = None \<longrightarrow> mem h' a = None"
      using s(4,6) False live by (metis replaced_def)
    then show ?thesis using ample_step[OF assms(2)] s(5) False by simp
  qed
  then show ?thesis using s by (auto simp: upd_member_def)
qed

lemma boolset_get_after_set:
  assumes "bs_inv b h" and "boolset_set b i v h = Inr (b', h')"
  shows "boolset_get b' i h' = Inr (v \<noteq> 0)"
  using boolset_set_InrD[OF assms] boolset_get_eq[of b' h' i] by (simp add: less_max_iff_disj)

interpretation bset: index_set bset_inv bset_members bset_room bset_put bset_get
proof
  fix s :: bset and n i v
  assume "bset_inv s" and "bset_room (Suc n) s"
  then show "\<exists>s'. bset_put i v s = Inr s' \<and> bset_inv s' \<and>
      bset_members s' = upd_member (i, v) (bset_members s) \<and> bset_room n s'"
    using boolset_set_ample[of "fst s" "snd s" n i "if v then 1 else 0"]
    by (auto simp: bset_defs split_beta)
next
  fix s :: bset and i
  assume "bset_inv s" and "i \<in> bset_members s"
  then show "bset_get i s = Inr True"
    using bs_inv_shape[of "fst s" "snd s"]
    by (auto simp: bset_defs split_beta boolset_get_eq bs_members_def bits_of_def bs_shape_def)
next
  fix s :: bset and i v
  assume "bset_inv s" and "bset_get i s = Inr v"
  then show "v \<longleftrightarrow> i \<in> bset_members s"
    by (auto simp: bset_defs split_beta boolset_get_eq split: if_splits)
next
  fix s s' :: bset and i v
  assume "bset_inv s" and "bset_put i v s = Inr s'"
  then show "bset_get i s' = Inr v"
    using boolset_get_after_set[of "fst s" "snd s" i "if v then 1 else 0" "fst s'" "snd s'"]
    by (auto simp: bset_defs split_beta split: if_splits)
qed

lemma bset_run_frame:
  assumes "bs_inv b h" and "rfold (\<lambda>(i, v). bset_put i v) us (b, h) = Inr (b', h')"
  shows "bs_inv b' h' \<and> replaced (bs_data b) (bs_data b') h h'"
  using assms
proof (induction us arbitrary: b h)
  case Nil
  then show ?case using bs_inv_shape[of b h] by (auto simp: bs_shape_def intro: replaced_refl)
next
  case (Cons u us)
  obtain i v where u: "u = (i, v)" by (cases u)
  obtain b1 h1 where put: "bset_put i v (b, h) = Inr (b1, h1)"
    and rest: "rfold (\<lambda>(i, v). bset_put i v) us (b1, h1) = Inr (b', h')"
    using Cons.prems(2) by (auto simp: u rbind_Inr_iff)
  have run: "boolset_set b i (if v then 1 else 0) h = Inr (b1, h1)" using put by (simp add: bset_put_def)
  from boolset_set_InrD[OF Cons.prems(1) this] Cons.IH[OF _ rest]
  show ?case by (auto intro: replaced_trans)
qed

text \<open>A heap with eight addresses for the witnesses, and a set created in it.\<close>

definition heap8 :: heap where
  "heap8 = \<lparr>mem = (\<lambda>_. None), answers = [10, 11, 12, 13, 14, 15, 16, 17]\<rparr>"

definition bset8 :: bset where
  "bset8 = (\<lparr>bs_size = 1, bs_data = 10\<rparr>,
     \<lparr>mem = (\<lambda>_. None)(10 \<mapsto> [Some 5]), answers = [11, 12, 13, 14, 15, 16, 17]\<rparr>)"

lemma ample_heap8: "ample 8 heap8"
  by (simp add: ample_def heap8_def)

lemma bset8_shape: "bs_shape (fst bset8) (snd bset8) [5]"
  by (simp add: bset8_def bs_shape_def)

section \<open>Properties\<close>

text \<open>\<open>boolset_set\<close> on every branch: it inserts the index when \<open>val\<close> is not 0 and removes it
  when \<open>val\<close> is 0, and changes the membership of no other index and no block but the set's own,
  also when the array has to be reallocated; it fails only where the array must grow and the
  allocator refuses, by writing through the null pointer.\<close>

theorem boolset_set_branches:
  assumes "bs_inv b h"
  shows "case boolset_set b i v h of
      Inr (b', h') \<Rightarrow> bs_grants i b h \<and> bs_inv b' h' \<and>
        bs_members b' h' = (if v \<noteq> 0 then insert i (bs_members b h) else bs_members b h - {i}) \<and>
        replaced (bs_data b) (bs_data b') h h'
    | Inl e \<Rightarrow> \<not> bs_grants i b h \<and> e = Null_Deref"
proof (cases "bs_grants i b h")
  case True
  obtain b' h' where "boolset_set b i v h = Inr (b', h')" "bs_inv b' h'"
    "bs_members b' h' = (if v \<noteq> 0 then insert i (bs_members b h) else bs_members b h - {i})"
    "replaced (bs_data b) (bs_data b') h h'" by (rule boolset_set_ok[OF assms True])
  then show ?thesis using True by simp
next
  case False
  then show ?thesis using boolset_set_oom by simp
qed

lemma boolset_set_branches_witness:
  "case boolset_set (fst bset8) 200 1 (snd bset8) of
      Inr (b', h') \<Rightarrow> bs_grants 200 (fst bset8) (snd bset8) \<and> bs_inv b' h' \<and>
        bs_members b' h' = (if (1::int) \<noteq> 0 then insert 200 (bs_members (fst bset8) (snd bset8))
          else bs_members (fst bset8) (snd bset8) - {200}) \<and>
        replaced (bs_data (fst bset8)) (bs_data b') (snd bset8) h'
    | Inl e \<Rightarrow> \<not> bs_grants 200 (fst bset8) (snd bset8) \<and> e = Null_Deref"
  by (rule boolset_set_branches[OF bs_shape_inv[OF bset8_shape]])

text \<open>\<open>boolset_get\<close> decides membership for every index inside the array; it does not compare
  the index with the size, so for any other index it reads outside the array.\<close>

theorem boolset_get_decides:
  assumes "bs_inv b h"
  shows "boolset_get b i h =
    (if unat i div 64 < unat (bs_size b) then Inr (i \<in> bs_members b h) else Inl Out_Of_Bounds)"
  by (rule boolset_get_eq[OF assms])

lemma boolset_get_decides_witness:
  "boolset_get (fst bset8) 2 (snd bset8) = Inr True \<and> boolset_get (fst bset8) 64 (snd bset8) = Inl Out_Of_Bounds"
  using boolset_get_decides[OF bs_shape_inv[OF bset8_shape], of 2]
    boolset_get_decides[OF bs_shape_inv[OF bset8_shape], of 64]
  by (simp add: bs_members_def bs_shape_words[OF bset8_shape] bits_of_def)
     (simp add: bset8_def bit_numeral_rec)

text \<open>C36: \<open>boolset_foreach\<close> calls back exactly for the indices that are members when it starts,
  each once and in ascending order, stopping at the first failing call, for every callback that
  does not touch the words still to come; a callback may clear or set bits of the index's own
  word.\<close>

theorem boolset_foreach_visits:
  assumes "bs_inv (bs s) (hp s)"
    and "\<And>i s s'. bs_inv (bs s) (hp s) \<Longrightarrow> unat i div 64 < unat (bs_size (bs s)) \<Longrightarrow>
      cb i s = Inr s' \<Longrightarrow> calm bs hp (unat i div 64) s s'"
  shows "boolset_foreach bs hp cb 0 s = rfold cb (bs_elems (bs s) (hp s)) s \<and>
    set (bs_elems (bs s) (hp s)) = bs_members (bs s) (hp s) \<and> sorted_wrt (<) (bs_elems (bs s) (hp s))"
  using boolset_foreach_rfold[OF assms(1) _ assms(2), of 0] bs_elems_sorted[OF assms(1)]
  by (simp add: bs_elems_def)

text \<open>A callback that clears the bit it is called for, and notes the index.\<close>

definition clear_and_note :: "64 word \<Rightarrow> bset \<times> 64 word list \<Rightarrow> (bset \<times> 64 word list) result" where
  "clear_and_note i = (\<lambda>((b, h), seen). rbind (boolset_set b i 0 h) (\<lambda>bh. Inr (bh, seen @ [i])))"

lemma boolset_set_calm:
  assumes "bs_inv b h" and "major i < unat (bs_size b)" and "boolset_set b i v h = Inr (b', h')"
  shows "bs_inv b' h' \<and> bs_size b' = bs_size b \<and>
    (\<forall>j. major i < j \<longrightarrow> j < unat (bs_size b) \<longrightarrow> bs_words b' h' ! j = bs_words b h ! j)"
proof -
  note r = boolset_set_InrD[OF assms(1,3)]
  have "unat (bs_size b') = unat (bs_size b)" using r(5) assms(2) by simp
  then have "bs_size b' = bs_size b" by (simp only: word_unat_eq_iff)
  then show ?thesis using r(2,6) by simp
qed

lemma boolset_foreach_visits_witness:
  "boolset_foreach (\<lambda>s. fst (fst s)) (\<lambda>s. snd (fst s)) clear_and_note 0 (bset8, []) =
     rfold clear_and_note (bs_elems (fst bset8) (snd bset8)) (bset8, []) \<and>
   set (bs_elems (fst bset8) (snd bset8)) = bs_members (fst bset8) (snd bset8) \<and>
   sorted_wrt (<) (bs_elems (fst bset8) (snd bset8))"
proof -
  have calm: "calm (\<lambda>s. fst (fst s)) (\<lambda>s. snd (fst s)) (unat i div 64) s s'"
    if prems: "bs_inv (fst (fst s)) (snd (fst s))" "unat i div 64 < unat (bs_size (fst (fst s)))"
      "clear_and_note i s = Inr s'" for i and s s' :: "bset \<times> 64 word list"
  proof -
    obtain b h seen where s: "s = ((b, h), seen)" by (metis surj_pair)
    obtain b' h' where run: "boolset_set b i 0 h = Inr (b', h')" "s' = ((b', h'), seen @ [i])"
      using prems(3) by (auto simp: s clear_and_note_def rbind_Inr_iff)
    have "bs_inv b h" "major i < unat (bs_size b)" using prems(1,2) by (simp_all add: s)
    from boolset_set_calm[OF this run(1)] show ?thesis by (simp add: s run(2) calm_def)
  qed
  have "bs_inv (fst (fst (bset8, [] :: 64 word list))) (snd (fst (bset8, [] :: 64 word list)))"
    using bs_shape_inv[OF bset8_shape] by simp
  from boolset_foreach_visits[where bs = "\<lambda>s. fst (fst s)" and hp = "\<lambda>s. snd (fst s)", OF this calm]
  show ?thesis by (simp only: fst_conv)
qed

text \<open>C37: From \<open>boolset_create\<close>, any sequence of \<open>boolset_set\<close> calls leaves the set that the same
  sequence of insertions and removals leaves, started empty, when the allocator grants one block
  for the creation and one per call.\<close>

theorem boolset_tracks_updates:
  assumes "ample (Suc (length us)) h"
  shows "\<exists>s s'. boolset_create h = Inr s \<and> rfold (\<lambda>(i, v). bset_put i v) us s = Inr s' \<and>
    bset_members s' = fold upd_member us {}"
proof -
  obtain b h1 where c: "boolset_create h = Inr (b, h1)" "bs_inv b h1" "bs_members b h1 = {}"
    "\<forall>a. a \<noteq> bs_data b \<longrightarrow> mem h1 a = mem h a" "answers h1 = tl (answers h)" "bs_data b = hd (answers h)"
    by (rule boolset_create_ok[OF ample_can_alloc[OF assms]])
  have "ample (length us) h1" by (rule ample_step[OF assms c(5)]) (use c(4,6) in auto)
  then show ?thesis
    using bset.put_all[of "(b, h1)" us] c(1-3) by (auto simp: bset_defs)
qed

lemma boolset_tracks_updates_witness:
  "\<exists>s s'. boolset_create heap8 = Inr s \<and>
     rfold (\<lambda>(i, v). bset_put i v) [(1, True), (700, True), (1, False)] s = Inr s' \<and>
     bset_members s' = {700}"
proof -
  let ?us = "[(1, True), (700, True), (1, False)] :: (64 word \<times> bool) list"
  have "ample (Suc (length ?us)) heap8" by (rule ample_mono[OF ample_heap8]) simp
  moreover have "fold upd_member ?us {} = {700}" by (auto simp: upd_member_def)
  ultimately show ?thesis using boolset_tracks_updates[of ?us heap8] by (simp only:)
qed

text \<open>No leak: after any sequence of calls that returns, \<open>boolset_destroy\<close> succeeds and leaves
  exactly the blocks that were live before \<open>boolset_create\<close>.\<close>

theorem boolset_no_leak:
  assumes "boolset_create h = Inr s" and "rfold (\<lambda>(i, v). bset_put i v) us s = Inr (b, h1)"
  shows "\<exists>h2. boolset_destroy b h1 = Inr h2 \<and> mem h2 = mem h"
proof -
  have "can_alloc h" using assms(1) boolset_create_oom[of h] by fastforce
  then obtain b0 h0 where c: "s = (b0, h0)" "bs_inv b0 h0" "mem h (bs_data b0) = None"
    "\<forall>a. a \<noteq> bs_data b0 \<longrightarrow> mem h0 a = mem h a"
    using boolset_create_ok[of h] assms(1) by (metis Inr_inject)
  have r: "bs_inv b h1" "replaced (bs_data b0) (bs_data b) h0 h1"
    using bset_run_frame[OF c(2)] assms(2) c(1) by auto
  have "mem (del_block (bs_data b) h1) a = mem h a" for a
    using r(2) c(3,4) by (cases "a = bs_data b0"; cases "a = bs_data b") (auto simp: replaced_def)
  then show ?thesis using boolset_destroy_ok[OF r(1)] by auto
qed

lemma boolset_no_leak_witness:
  "\<exists>s b h1 h2. boolset_create heap8 = Inr s \<and>
     rfold (\<lambda>(i, v). bset_put i v) [(1, True), (700, True)] s = Inr (b, h1) \<and>
     boolset_destroy b h1 = Inr h2 \<and> mem h2 = mem heap8"
proof -
  have amp: "ample 3 heap8" using ample_mono[OF ample_heap8] by simp
  obtain b0 h0 where c: "boolset_create heap8 = Inr (b0, h0)" "bs_inv b0 h0"
    "\<forall>a. a \<noteq> bs_data b0 \<longrightarrow> mem h0 a = mem heap8 a" "answers h0 = tl (answers heap8)"
    "bs_data b0 = hd (answers heap8)"
    by (rule boolset_create_ok[of heap8]) (use amp ample_can_alloc[of 2 heap8] in auto)
  have "ample (Suc 2) heap8" using amp by simp
  then have "ample 2 h0" by (rule ample_step[OF _ c(4)]) (use c(3,5) in auto)
  then obtain b h1 where r: "rfold (\<lambda>(i, v). bset_put i v) [(1, True), (700, True)] (b0, h0) = Inr (b, h1)"
    using bset.put_all[of "(b0, h0)" "[(1, True), (700, True)]"] c(2)
    by (auto simp: bset_inv_def bset_room_def numeral_2_eq_2)
  from boolset_no_leak[OF c(1) r] c(1) r show ?thesis by blast
qed

end
