(* ===== verification/C_Strings.thy ===== *)
theory C_Strings
  imports C_Prelude
begin

text \<open>
  Character arrays and the loops that scan them.  An array is the list of its bytes, and a
  \<open>char*\<close> into it is the list together with an offset, so that a read in front of the string
  stays in the array where the array allows it.  \<open>rd\<close> and \<open>wr\<close> check the bounds of the array,
  \<open>copy_bytes\<close> is \<open>memcpy\<close> with its \<open>size_t\<close> count, \<open>c_strlen\<close> and \<open>c_strcpy\<close> look for the
  terminating null byte.  \<open>scan_up\<close> and \<open>scan_down\<close> are the source's loops
  \<open>while (P) ++i\<close> and \<open>while (P) --i\<close>, whose condition reads \<open>str[i]\<close> first.
\<close>

abbreviation NUL :: char where
  "NUL \<equiv> CHR 0x00"

abbreviation CR :: char where
  "CR \<equiv> CHR 0x0D"

abbreviation LF :: char where
  "LF \<equiv> CHR 0x0A"

definition rd :: "char list \<Rightarrow> int \<Rightarrow> char result" where
  "rd buf i = (if 0 \<le> i \<and> i < int (length buf) then Inr (buf ! nat i) else Inl Out_Of_Bounds)"

definition wr :: "char list \<Rightarrow> int \<Rightarrow> char \<Rightarrow> char list result" where
  "wr buf i c = (if 0 \<le> i \<and> i < int (length buf) then Inr (buf[nat i := c]) else Inl Out_Of_Bounds)"

text \<open>\<open>memcpy(&dst[d], &src[s], n)\<close>; an \<open>int\<close> count is converted to \<open>size_t\<close> by the caller.\<close>

definition copy_bytes :: "char list \<Rightarrow> int \<Rightarrow> char list \<Rightarrow> int \<Rightarrow> 64 word \<Rightarrow> char list result" where
  "copy_bytes dst d src s n =
    (if 0 \<le> d \<and> d + int (unat n) \<le> int (length dst) \<and> 0 \<le> s \<and> s + int (unat n) \<le> int (length src)
     then Inr (take (nat d) dst @ take (unat n) (drop (nat s) src) @ drop (nat d + unat n) dst)
     else Inl Out_Of_Bounds)"

text \<open>The C string at offset 0 of an array, and its length when it is terminated.\<close>

definition cstr :: "char list \<Rightarrow> string" where
  "cstr buf = takeWhile (\<lambda>c. c \<noteq> NUL) buf"

definition c_strlen :: "char list \<Rightarrow> nat result" where
  "c_strlen buf = (if NUL \<in> set buf then Inr (length (cstr buf)) else Inl Out_Of_Bounds)"

text \<open>\<open>strcpy(&dst[d], src)\<close> copies the string and its null byte.\<close>

definition c_strcpy :: "char list \<Rightarrow> int \<Rightarrow> char list \<Rightarrow> char list result" where
  "c_strcpy dst d src = rbind (c_strlen src) (\<lambda>n. copy_bytes dst d src 0 (word_of_nat (n + 1)))"

text \<open>The conversion of a \<open>size_t\<close> value to \<open>int\<close>: its low 32 bits as a signed value.\<close>

definition to_int :: "64 word \<Rightarrow> int" where
  "to_int w = sint (ucast w :: 32 word)"

function scan_up :: "(char \<Rightarrow> int \<Rightarrow> bool) \<Rightarrow> char list \<Rightarrow> int \<Rightarrow> int \<Rightarrow> int result" where
  "scan_up P buf off i =
    rbind (rd buf (off + i)) (\<lambda>c.
      if P c i then rbind (chk_int (i + 1)) (\<lambda>i'. scan_up P buf off i') else Inr i)"
  by pat_completeness auto
termination
  by (relation "measure (\<lambda>(P, buf, off, i). nat (int (length buf) - (off + i)))")
     (auto simp: rd_def chk_int_def split: if_splits)

function scan_down :: "(char \<Rightarrow> int \<Rightarrow> bool) \<Rightarrow> char list \<Rightarrow> int \<Rightarrow> int \<Rightarrow> int result" where
  "scan_down P buf off i =
    rbind (rd buf (off + i)) (\<lambda>c.
      if P c i then rbind (chk_int (i - 1)) (\<lambda>i'. scan_down P buf off i') else Inr i)"
  by pat_completeness auto
termination
  by (relation "measure (\<lambda>(P, buf, off, i). nat (off + i + 1))")
     (auto simp: rd_def chk_int_def split: if_splits)

declare scan_up.simps [simp del, c_eval] scan_down.simps [simp del, c_eval]

lemmas string_run_defs [c_eval] =
  rd_def wr_def copy_bytes_def cstr_def c_strlen_def c_strcpy_def to_int_def

section \<open>Where a scan stops\<close>

lemma scan_up_stop:
  assumes "i \<le> j" and "0 \<le> off + i" and "off + j < int (length buf)"
    and "\<And>k. i \<le> k \<Longrightarrow> k < j \<Longrightarrow> P (buf ! nat (off + k)) k"
    and "\<not> P (buf ! nat (off + j)) j" and "- (2 ^ 31) \<le> i" and "j < 2 ^ 31"
  shows "scan_up P buf off i = Inr j"
  using assms
proof (induction "nat (j - i)" arbitrary: i)
  case 0
  then show ?case by (subst scan_up.simps) (simp add: rd_def)
next
  case (Suc n)
  then have ij: "i < j" by simp
  have "P (buf ! nat (off + i)) i" using Suc.prems(4)[of i] ij by simp
  moreover have "scan_up P buf off (i + 1) = Inr j"
    using Suc.hyps(2) ij Suc.prems by (intro Suc.hyps(1)) auto
  ultimately show ?case
    using ij Suc.prems by (subst scan_up.simps) (simp add: rd_def)
qed

lemma scan_up_out:
  assumes "0 \<le> off + i" and "\<And>k. i \<le> k \<Longrightarrow> off + k < int (length buf) \<Longrightarrow> P (buf ! nat (off + k)) k"
    and "- (2 ^ 31) \<le> i" and "int (length buf) - off < 2 ^ 31"
  shows "scan_up P buf off i = Inl Out_Of_Bounds"
  using assms
proof (induction "nat (int (length buf) - (off + i))" arbitrary: i)
  case 0
  then show ?case by (subst scan_up.simps) (simp add: rd_def)
next
  case (Suc n)
  then have i: "off + i < int (length buf)" by simp
  have "P (buf ! nat (off + i)) i" using Suc.prems(2)[of i] i by simp
  moreover have "scan_up P buf off (i + 1) = Inl Out_Of_Bounds"
    using Suc.hyps(2) i Suc.prems by (intro Suc.hyps(1)) auto
  ultimately show ?case
    using i Suc.prems by (subst scan_up.simps) (simp add: rd_def)
qed

lemma scan_up_ge: "scan_up P buf off i = Inr j \<Longrightarrow> i \<le> j"
proof (induction P buf off i rule: scan_up.induct)
  case (1 P buf off i)
  from "1.prems" obtain c where c: "rd buf (off + i) = Inr c"
    and r: "(if P c i then rbind (chk_int (i + 1)) (\<lambda>i'. scan_up P buf off i') else Inr i) = Inr j"
    by (subst (asm) scan_up.simps) (auto simp: rbind_Inr_iff)
  show ?case
  proof (cases "P c i")
    case True
    then obtain i' where i': "chk_int (i + 1) = Inr i'" "scan_up P buf off i' = Inr j"
      using r by (auto simp: rbind_Inr_iff)
    with "1.IH"[OF c True i'(1) i'(2)] show ?thesis by (auto simp: chk_int_def split: if_splits)
  qed (use r in simp)
qed

lemma scan_down_stop:
  assumes "j \<le> i" and "0 \<le> off + j" and "off + i < int (length buf)"
    and "\<And>k. j < k \<Longrightarrow> k \<le> i \<Longrightarrow> P (buf ! nat (off + k)) k"
    and "\<not> P (buf ! nat (off + j)) j" and "- (2 ^ 31) \<le> j" and "i < 2 ^ 31"
  shows "scan_down P buf off i = Inr j"
  using assms
proof (induction "nat (i - j)" arbitrary: i)
  case 0
  then show ?case by (subst scan_down.simps) (simp add: rd_def)
next
  case (Suc n)
  then have ij: "j < i" by simp
  have "P (buf ! nat (off + i)) i" using Suc.prems(4)[of i] ij by simp
  moreover have "scan_down P buf off (i - 1) = Inr j"
    using Suc.hyps(2) ij Suc.prems by (intro Suc.hyps(1)) auto
  ultimately show ?case
    using ij Suc.prems by (subst scan_down.simps) (simp add: rd_def)
qed

lemma scan_up_cases:
  assumes "0 \<le> off + i" and "0 \<le> i" and "int (length buf) - off < 2 ^ 31"
  shows "scan_up P buf off i = Inl Out_Of_Bounds \<or>
    (\<exists>j. scan_up P buf off i = Inr j \<and> i \<le> j \<and> off + j < int (length buf))"
  using assms
proof (induction P buf off i rule: scan_up.induct)
  case (1 P buf off i)
  show ?case
  proof (cases "off + i < int (length buf)")
    case True
    then have c: "rd buf (off + i) = Inr (buf ! nat (off + i))" using "1.prems" by (simp add: rd_def)
    have k: "chk_int (i + 1) = Inr (i + 1)" using "1.prems" True by (intro chk_int_ok) linarith+
    show ?thesis
    proof (cases "P (buf ! nat (off + i)) i")
      case P: True
      have "scan_up P buf off i = scan_up P buf off (i + 1)"
        by (subst scan_up.simps) (simp add: c P k)
      then show ?thesis using "1.IH"[OF c P k] "1.prems" by auto
    next
      case P: False
      then have "scan_up P buf off i = Inr i" by (subst scan_up.simps) (simp add: c)
      then show ?thesis using True by auto
    qed
  next
    case False
    then show ?thesis using "1.prems" by (subst scan_up.simps) (simp add: rd_def)
  qed
qed

text \<open>The same over a buffer split at the span \<open>xs\<close> that is scanned.\<close>

lemma scan_up_span:
  assumes "off + i = int (length pre)" and "\<And>n. n < length xs \<Longrightarrow> P (xs ! n) (i + int n)"
    and "\<not> P c (i + int (length xs))" and "0 \<le> i" and "i + int (length xs) < 2 ^ 31"
  shows "scan_up P (pre @ xs @ c # post) off i = Inr (i + int (length xs))"
proof (rule scan_up_stop)
  fix k assume k: "i \<le> k" "k < i + int (length xs)"
  then have "nat (off + k) = length pre + nat (k - i)" "nat (k - i) < length xs"
    using assms(1) by linarith+
  then show "P ((pre @ xs @ c # post) ! nat (off + k)) k"
    using k assms(2)[of "nat (k - i)"] by (simp add: nth_append)
next
  have "nat (off + (i + int (length xs))) = length pre + length xs" using assms(1) by linarith
  then show "\<not> P ((pre @ xs @ c # post) ! nat (off + (i + int (length xs)))) (i + int (length xs))"
    using assms(3) by (simp add: nth_append)
qed (use assms in simp_all)

lemma scan_down_span:
  assumes "off + i = int (length pre) + int (length xs)"
    and "\<And>n. n < length xs \<Longrightarrow> P (xs ! n) (i + 1 + int n - int (length xs))"
    and "\<not> P c (i - int (length xs))" and "- (2 ^ 31) \<le> i - int (length xs)" and "i < 2 ^ 31"
  shows "scan_down P (pre @ c # xs @ post) off i = Inr (i - int (length xs))"
proof (rule scan_down_stop)
  fix k assume k: "i - int (length xs) < k" "k \<le> i"
  then have "nat (off + k) = length pre + 1 + nat (k - (i - int (length xs)) - 1)"
    "nat (k - (i - int (length xs)) - 1) < length xs"
    using assms(1) by linarith+
  then show "P ((pre @ c # xs @ post) ! nat (off + k)) k"
    using k assms(2)[of "nat (k - (i - int (length xs)) - 1)"] by (simp add: nth_append)
next
  have "nat (off + (i - int (length xs))) = length pre" using assms(1) by linarith
  then show "\<not> P ((pre @ c # xs @ post) ! nat (off + (i - int (length xs)))) (i - int (length xs))"
    using assms(3) by (simp add: nth_append)
qed (use assms in simp_all)

lemma scan_up_out_span:
  assumes "off + i = int (length pre)" and "\<And>n. n < length xs \<Longrightarrow> P (xs ! n) (i + int n)"
    and "0 \<le> i" and "i + int (length xs) < 2 ^ 31"
  shows "scan_up P (pre @ xs) off i = Inl Out_Of_Bounds"
proof (rule scan_up_out)
  fix k assume k: "i \<le> k" "off + k < int (length (pre @ xs))"
  then have "nat (off + k) = length pre + nat (k - i)" "nat (k - i) < length xs"
    using assms(1) by simp_all
  then show "P ((pre @ xs) ! nat (off + k)) k"
    using k assms(2)[of "nat (k - i)"] by (simp add: nth_append)
qed (use assms in simp_all)

section \<open>Copies and conversions\<close>

lemma word_of_int_less_iff:
  assumes "0 \<le> i" and "i < 2 ^ 64"
  shows "(word_of_int i :: 64 word) < n \<longleftrightarrow> i < int (unat n)"
    and "(word_of_int i :: 64 word) \<le> n \<longleftrightarrow> i \<le> int (unat n)"
    and "n < (word_of_int i :: 64 word) \<longleftrightarrow> int (unat n) < i"
proof -
  have "int (unat (word_of_int i :: 64 word)) = i"
    using assms by (simp add: uint_word_of_int)
  then show "(word_of_int i :: 64 word) < n \<longleftrightarrow> i < int (unat n)"
    "(word_of_int i :: 64 word) \<le> n \<longleftrightarrow> i \<le> int (unat n)"
    "n < (word_of_int i :: 64 word) \<longleftrightarrow> int (unat n) < i"
    by (auto simp only: word_less_nat_alt word_le_nat_alt)
qed

lemma unat_word_of_nat: "n < 2 ^ 64 \<Longrightarrow> unat (word_of_nat n :: 64 word) = n"
  by (simp add: unat_of_nat)

lemma to_int_of_nat:
  assumes "n < 2 ^ 31"
  shows "to_int (word_of_nat n) = int n"
proof -
  have u: "uint (ucast (word_of_nat n :: 64 word) :: 32 word) = int n"
    using assms by (simp add: uint_word_of_int unsigned_of_nat take_bit_eq_mod
       unsigned_ucast_eq)
  show ?thesis unfolding to_int_def sint_uint u
    using assms by (simp add: signed_take_bit_int_eq_self)
qed

lemma copy_bytes_ok:
  assumes "n < 2 ^ 64" and "0 \<le> d" and "d + int n \<le> int (length dst)" and "0 \<le> s"
    and "s + int n \<le> int (length src)"
  shows "copy_bytes dst d src s (word_of_int (int n)) =
    Inr (take (nat d) dst @ take n (drop (nat s) src) @ drop (nat d + n) dst)"
  using assms unat_word_of_nat[of n] by (simp add: copy_bytes_def)

text \<open>A negative \<open>int\<close> count is a huge \<open>size_t\<close>: no array is that long.\<close>

lemma copy_bytes_negative:
  assumes "n < 0" and "- (2 ^ 31) \<le> n" and "length dst < 2 ^ 63"
  shows "copy_bytes dst d src s (word_of_int n) = Inl Out_Of_Bounds"
proof -
  have "n mod 2 ^ 64 = (n + 2 ^ 64) mod 2 ^ 64" by simp
  also have "\<dots> = n + 2 ^ 64" using assms(1,2) by (intro mod_pos_pos_trivial) simp_all
  finally have "uint (word_of_int n :: 64 word) = n + 2 ^ 64" by (simp add: uint_word_of_int)
  then have "2 ^ 63 \<le> int (unat (word_of_int n :: 64 word))" using assms(2) by simp
  then show ?thesis using assms(3) by (simp add: copy_bytes_def)
qed

lemma copy_bytes_cases:
  "copy_bytes dst d src s n = Inl Out_Of_Bounds \<or> (\<exists>xs. copy_bytes dst d src s n = Inr xs)"
  by (simp add: copy_bytes_def)

lemma cstr_append: "NUL \<notin> set xs \<Longrightarrow> cstr (xs @ NUL # ys) = xs"
  by (induction xs) (auto simp: cstr_def)

lemma c_strlen_append: "NUL \<notin> set xs \<Longrightarrow> c_strlen (xs @ NUL # ys) = Inr (length xs)"
  by (simp add: c_strlen_def cstr_append)

end
