(* ===== verification/Http_Headers.thy ===== *)
theory Http_Headers
  imports C_Strings
begin

text \<open>
  The HTTP header routines of \<open>src/unix/http.c\<close> (\<open>include/unix/http.h\<close>).  A \<open>http_header\<close> is
  two 64 byte arrays that hold C strings; the text that is parsed is a byte array with an offset,
  so that reads before and behind the line that is being parsed are reads of that array.  The
  lemmas describe the parser on well-formed lines (trimmed key and value, every header of a
  block, a round trip with the printer) and where it leaves the buffer on malformed ones.
\<close>

section \<open>Types\<close>

definition HEADER_KEY_MAX_LENGTH :: int where
  "HEADER_KEY_MAX_LENGTH = 64"

definition HEADER_VALUE_MAX_LENGTH :: int where
  "HEADER_VALUE_MAX_LENGTH = 64"

datatype http_method = GET | HEAD | POST | PUT | DELETE | CONNECT | OPTIONS | TRACE | PATCH

datatype http_version = HTTP_1_0 | HTTP_1_1 | HTTP_2_0 | HTTP_3_0

record http_header =
  hkey :: "char list"
  hvalue :: "char list"

record http_request =
  rq_request :: http_method
  rq_protocol_version :: http_version
  rq_path :: ptr
  rq_headers :: ptr
  rq_header_count :: int
  rq_data :: ptr
  rq_data_len :: "64 word"

record http_response =
  rs_request :: http_method
  rs_protocol_version :: http_version
  rs_path :: ptr
  rs_headers :: ptr
  rs_header_count :: int
  rs_data :: ptr
  rs_data_len :: "64 word"

section \<open>The operations\<close>

definition http_request_destroy :: "http_request \<Rightarrow> heap \<Rightarrow> heap result" where
  "http_request_destroy request h =
    rbind (free (rq_data request) h) (\<lambda>h1.
    rbind (free (rq_headers request) h1) (\<lambda>h2.
    free (rq_path request) h2))"

definition http_response_destroy :: "http_response \<Rightarrow> heap \<Rightarrow> heap result" where
  "http_response_destroy response h =
    rbind (free (rs_data response) h) (\<lambda>h1.
    rbind (free (rs_headers response) h1) (\<lambda>h2.
    free (rs_path response) h2))"

definition http_header_set :: "http_header \<Rightarrow> char list \<Rightarrow> char list \<Rightarrow> (int \<times> http_header) result" where
  "http_header_set dst key value =
    rbind (c_strlen key) (\<lambda>key_len.
    rbind (c_strlen key) (\<lambda>value_len.
    rbind (c_strcpy (hkey dst) 0 key) (\<lambda>k.
    rbind (c_strcpy (hvalue dst) 0 value) (\<lambda>v.
    Inr (0, dst\<lparr>hkey := k, hvalue := v\<rparr>)))))"

abbreviation is_space :: "char \<Rightarrow> int \<Rightarrow> bool" where
  "is_space c i \<equiv> c = CHR '' ''"

text \<open>\<open>str\<close> is \<open>&buf[off]\<close>; the result is the returned number and the new \<open>*dst\<close>.\<close>

definition http_str_to_header :: "http_header \<Rightarrow> char list \<Rightarrow> int \<Rightarrow> 64 word
    \<Rightarrow> (int \<times> http_header) result" where
  "http_str_to_header dst buf off str_len =
    rbind (scan_up (\<lambda>c colon. c \<noteq> CHR '':'' \<and> word_of_int colon < str_len) buf off 0) (\<lambda>colon.
    if word_of_int colon > str_len then Inr (-1, dst)
    else
      rbind (scan_up is_space buf off 0) (\<lambda>key_start.
      rbind (scan_down is_space buf off (colon - 1)) (\<lambda>key_end.
      rbind (chk_int (colon + 1)) (\<lambda>val_start.
      rbind (scan_up is_space buf off val_start) (\<lambda>val_start.
      rbind (scan_down is_space buf off (to_int (str_len - 1))) (\<lambda>val_end.
      rbind (chk_int (key_end - key_start)) (\<lambda>k.
      rbind (chk_int (k + 1)) (\<lambda>key_len.
      rbind (chk_int (val_end - val_start)) (\<lambda>v.
      rbind (chk_int (v + 1)) (\<lambda>val_len.
      if key_len + 1 > HEADER_KEY_MAX_LENGTH \<or> val_len + 1 > HEADER_VALUE_MAX_LENGTH
      then Inr (-1, dst)
      else
        rbind (copy_bytes (hkey dst) 0 buf (off + key_start) (word_of_int key_len)) (\<lambda>hk.
        rbind (copy_bytes (hvalue dst) 0 buf (off + val_start) (word_of_int val_len)) (\<lambda>hv.
        rbind (wr hk key_len NUL) (\<lambda>hk.
        rbind (wr hv val_len NUL) (\<lambda>hv.
        Inr (0, dst\<lparr>hkey := hk, hvalue := hv\<rparr>)))))))))))))))"

text \<open>The second branch has no \<open>return\<close>: the result \<open>None\<close> says that no value was returned.\<close>

definition http_header_to_str :: "char list \<Rightarrow> http_header \<Rightarrow> 64 word
    \<Rightarrow> (int option \<times> char list) result" where
  "http_header_to_str dst header max_str_len =
    rbind (c_strlen (hkey header)) (\<lambda>n.
    rbind (c_strlen (hvalue header)) (\<lambda>m.
    (let key_len = int n; val_len = int m; total_length = key_len + val_len + 3
     in if word_of_int total_length > max_str_len then Inr (Some (-1), dst)
        else
          rbind (copy_bytes dst 0 (hkey header) 0 (word_of_int key_len)) (\<lambda>dst.
          rbind (wr dst (key_len + 0) (CHR '':'')) (\<lambda>dst.
          rbind (wr dst (key_len + 1) (CHR '' '')) (\<lambda>dst.
          rbind (copy_bytes dst (key_len + 2) (hvalue header) 0 (word_of_int val_len)) (\<lambda>dst.
          rbind (wr dst (total_length - 1) NUL) (\<lambda>dst.
          Inr (None, dst)))))))))"

text \<open>The body of \<open>http_count_headers\<close> is empty: it never returns a value.\<close>

definition http_count_headers :: "char list \<Rightarrow> 64 word \<Rightarrow> int option" where
  "http_count_headers str str_len = None"

text \<open>The main loop of \<open>http_str_to_headers\<close>, with the array \<open>dst\<close> and the three indices.\<close>

function headers_loop :: "int \<Rightarrow> char list \<Rightarrow> 64 word \<Rightarrow> http_header list \<Rightarrow> int \<Rightarrow> int \<Rightarrow> int
    \<Rightarrow> (int \<times> http_header list) result" where
  "headers_loop dst_size str str_len dst header_index header_start header_end =
    (if word_of_int header_start < str_len \<and> header_index < dst_size
     then
       if 0 \<le> header_index \<and> header_index < int (length dst)
       then
         rbind (chk_int (header_end - header_start)) (\<lambda>n.
         rbind (http_str_to_header (dst ! nat header_index) str header_start (word_of_int n)) (\<lambda>(err, hdr).
         rbind (chk_int (header_end + 2)) (\<lambda>start'.
         rbind (scan_up (\<lambda>c i. c \<noteq> CR \<and> word_of_int i \<le> str_len) str 0 start') (\<lambda>end'.
         headers_loop dst_size str str_len (dst[nat header_index := hdr])
           (if err = 0 then header_index + 1 else header_index) start' end'))))
       else Inl Out_Of_Bounds
     else Inr (header_index, dst))"
  by pat_completeness auto
termination
  by (relation "measure (\<lambda>(n, s, l, d, i, st, e). nat (2 ^ 31 - e))")
     (auto simp: chk_int_def dest!: scan_up_ge split: if_splits)

declare headers_loop.simps [simp del, c_eval]

definition http_str_to_headers :: "http_header list \<Rightarrow> int \<Rightarrow> char list \<Rightarrow> 64 word
    \<Rightarrow> (int \<times> http_header list) result" where
  "http_str_to_headers dst dst_size str str_len =
    rbind (scan_up (\<lambda>c i. c \<noteq> CR \<and> word_of_int i < str_len) str 0 0) (\<lambda>header_end.
    headers_loop dst_size str str_len dst 0 0 header_end)"

lemmas http_run_defs [c_eval] =
  HEADER_KEY_MAX_LENGTH_def HEADER_VALUE_MAX_LENGTH_def http_request_destroy_def
  http_response_destroy_def http_header_set_def http_str_to_header_def http_header_to_str_def
  http_count_headers_def http_str_to_headers_def

section \<open>Header lines\<close>

text \<open>
  A line \<open>key: value\<close> with blanks around its parts, as the text that \<open>http_str_to_header\<close> reads.
  \<open>put_cstr s arr\<close> is a fixed size array after a C string was copied into it.
\<close>

record header_line =
  l_before :: nat
  l_key :: string
  l_colon :: nat
  l_after :: nat
  l_value :: string
  l_end :: nat

abbreviation blanks :: "nat \<Rightarrow> string" where
  "blanks n \<equiv> replicate n (CHR '' '')"

definition line_of :: "header_line \<Rightarrow> string" where
  "line_of l = blanks (l_before l) @ l_key l @ blanks (l_colon l) @ CHR '':'' #
     blanks (l_after l) @ l_value l @ blanks (l_end l)"

definition trimmed :: "string \<Rightarrow> bool" where
  "trimmed s \<longleftrightarrow> s \<noteq> [] \<and> hd s \<noteq> CHR '' '' \<and> last s \<noteq> CHR '' '' \<and> NUL \<notin> set s \<and> CR \<notin> set s"

definition line_ok :: "header_line \<Rightarrow> bool" where
  "line_ok l \<longleftrightarrow> trimmed (l_key l) \<and> trimmed (l_value l) \<and> CHR '':'' \<notin> set (l_key l) \<and>
     length (line_of l) < 2 ^ 31"

definition line_fits :: "header_line \<Rightarrow> bool" where
  "line_fits l \<longleftrightarrow> length (l_key l) < 64 \<and> length (l_value l) < 64"

definition header_ok :: "http_header \<Rightarrow> bool" where
  "header_ok hr \<longleftrightarrow> length (hkey hr) = 64 \<and> length (hvalue hr) = 64"

definition put_cstr :: "string \<Rightarrow> char list \<Rightarrow> char list" where
  "put_cstr s arr = s @ NUL # drop (length s + 1) arr"

lemma cstr_put_cstr: "NUL \<notin> set s \<Longrightarrow> cstr (put_cstr s arr) = s"
  by (simp add: put_cstr_def cstr_append)

lemma length_put_cstr: "length s < length arr \<Longrightarrow> length (put_cstr s arr) = length arr"
  by (simp add: put_cstr_def)

lemma copy_span:
  assumes "length s \<le> length arr" and "length s < 2 ^ 64" and "off = int (length a)"
  shows "copy_bytes arr 0 (a @ s @ b) off (word_of_int (int (length s))) = Inr (s @ drop (length s) arr)"
  using assms copy_bytes_ok[of "length s" 0 arr "int (length a)" "a @ s @ b"] by simp

lemma wr_nul_span:
  assumes "length s < length arr"
  shows "wr (s @ drop (length s) arr) (int (length s)) NUL = Inr (put_cstr s arr)"
  using assms by (simp add: wr_def put_cstr_def list_update_append Cons_nth_drop_Suc [symmetric])

lemma scan_colon:
  fixes n :: "64 word"
  assumes "CHR '':'' \<notin> set ks" and "length ks \<le> unat n" and "int (length ks) < 2 ^ 31"
  shows "scan_up (\<lambda>c i. c \<noteq> CHR '':'' \<and> word_of_int i < n) (pre @ ks @ CHR '':'' # post) (int (length pre)) 0
    = Inr (int (length ks))"
proof -
  have "word_of_nat k < n" if "k < length ks" for k
    using that assms(2,3) by (simp add: word_less_nat_alt unat_word_of_nat)
  moreover have "ks ! k \<noteq> CHR '':''" if "k < length ks" for k using assms(1) that nth_mem by metis
  ultimately show ?thesis
    using assms(3) scan_up_span[of "int (length pre)" 0 pre ks
      "\<lambda>c i. c \<noteq> CHR '':'' \<and> word_of_int i < n" "CHR '':''" post] by simp
qed

lemma scan_blanks_up:
  assumes "c \<noteq> CHR '' ''" and "off + i = int (length pre)" and "0 \<le> i" and "i + int n < 2 ^ 31"
  shows "scan_up is_space (pre @ blanks n @ c # post) off i = Inr (i + int n)"
  using assms scan_up_span[of off i pre "blanks n" is_space c post] by simp

lemma scan_blanks_down:
  assumes "c \<noteq> CHR '' ''" and "off + i = int (length pre) + int n" and "- (2 ^ 31) \<le> i - int n"
    and "i < 2 ^ 31"
  shows "scan_down is_space (pre @ c # blanks n @ post) off i = Inr (i - int n)"
  using assms scan_down_span[of off i pre "blanks n" is_space c post] by simp

lemma to_int_pred:
  assumes "0 < n" and "n < 2 ^ 31"
  shows "to_int (word_of_nat n - 1) = int n - 1"
proof -
  have "(word_of_nat n :: 64 word) - 1 = word_of_nat (n - 1)" using assms by (simp add: of_nat_diff)
  then show ?thesis using assms to_int_of_nat[of "n - 1"] by (simp add: of_nat_diff)
qed

text \<open>The parser on a line split into its parts.\<close>

lemma str_to_header_line:
  assumes "line_ok l" and "header_ok dst"
  shows "http_str_to_header dst (pre @ line_of l @ post) (int (length pre)) (word_of_nat (length (line_of l))) =
    Inr (if line_fits l
         then (0, dst\<lparr>hkey := put_cstr (l_key l) (hkey dst), hvalue := put_cstr (l_value l) (hvalue dst)\<rparr>)
         else (-1, dst))"
proof -
  define n where "n = length (line_of l)"
  define buf where "buf = pre @ line_of l @ post"
  define off where "off = int (length pre)"
  obtain b K c a V e where l: "l = \<lparr>l_before = b, l_key = K, l_colon = c, l_after = a, l_value = V, l_end = e\<rparr>"
    by (cases l) auto
  have n: "n = b + length K + c + 1 + a + length V + e" "n < 2 ^ 31"
    using assms by (simp_all add: n_def l line_of_def line_ok_def)
  define N where "N = (word_of_nat n :: 64 word)"
  have un: "unat N = n" unfolding N_def using n by (intro unat_word_of_nat) simp
  have ti: "to_int (N - 1) = int n - 1" unfolding N_def using n by (intro to_int_pred) simp_all
  have ok: "trimmed K" "trimmed V" "CHR '':'' \<notin> set K" using assms(1) by (simp_all add: line_ok_def l)
  obtain k0 K1 where K1: "K = k0 # K1" "k0 \<noteq> CHR '' ''" using ok(1) by (cases K) (auto simp: trimmed_def)
  obtain K2 k9 where K2: "K = K2 @ [k9]" "k9 \<noteq> CHR '' ''" using ok(1) by (cases K rule: rev_cases) (auto simp: trimmed_def)
  obtain v0 V1 where V1: "V = v0 # V1" "v0 \<noteq> CHR '' ''" using ok(2) by (cases V) (auto simp: trimmed_def)
  obtain V2 v9 where V2: "V = V2 @ [v9]" "v9 \<noteq> CHR '' ''" using ok(2) by (cases V rule: rev_cases) (auto simp: trimmed_def)
  have colon: "scan_up (\<lambda>c i. c \<noteq> CHR '':'' \<and> word_of_int i < N) buf off 0 = Inr (int (b + length K + c))"
    using scan_colon[of "blanks b @ K @ blanks c" N pre "blanks a @ V @ blanks e @ post"] ok(3) n un
    by (simp add: buf_def off_def l line_of_def algebra_simps)
  have kstart: "scan_up is_space buf off 0 = Inr (int b)"
    using scan_blanks_up[OF K1(2), of off 0 pre b "K1 @ blanks c @ CHR '':'' # blanks a @ V @ blanks e @ post"] n
    by (simp add: buf_def off_def l line_of_def K1(1))
  have kend: "scan_down is_space buf off (int (b + length K + c) - 1) = Inr (int (b + length K) - 1)"
    using scan_blanks_down[OF K2(2), of off "int (b + length K + c) - 1" "pre @ blanks b @ K2" c
        "CHR '':'' # blanks a @ V @ blanks e @ post"] n
    by (simp add: buf_def off_def l line_of_def K2(1))
  have vstart: "scan_up is_space buf off (int (b + length K + c) + 1) = Inr (int (b + length K + c + 1 + a))"
    using scan_blanks_up[OF V1(2), of off "int (b + length K + c) + 1" "pre @ blanks b @ K @ blanks c @ [CHR '':'']" a
        "V1 @ blanks e @ post"] n
    by (simp add: buf_def off_def l line_of_def V1(1))
  have vend: "scan_down is_space buf off (int n - 1) = Inr (int n - 1 - int e)"
    using scan_blanks_down[OF V2(2), of off "int n - 1" "pre @ blanks b @ K @ blanks c @ CHR '':'' # blanks a @ V2" e post] n
    by (simp add: buf_def off_def l line_of_def V2(1))
  have le: "\<not> N < (word_of_int (int (b + length K + c)) :: 64 word)"
    using n un by (subst word_of_int_less_iff) simp_all
  have kcp: "copy_bytes (hkey dst) 0 buf (off + int b) (word_of_int (int (length K))) = Inr (K @ drop (length K) (hkey dst))"
    if "length K < 64"
    using copy_span[of K "hkey dst" "off + int b" "pre @ blanks b" "blanks c @ CHR '':'' # blanks a @ V @ blanks e @ post"]
      that assms(2) by (simp add: header_ok_def buf_def off_def l line_of_def)
  have vcp: "copy_bytes (hvalue dst) 0 buf (off + int (b + length K + c + 1 + a)) (word_of_int (int (length V)))
      = Inr (V @ drop (length V) (hvalue dst))" if "length V < 64"
    using copy_span[of V "hvalue dst" "off + int (b + length K + c + 1 + a)"
        "pre @ blanks b @ K @ blanks c @ CHR '':'' # blanks a" "blanks e @ post"]
      that assms(2) by (simp add: header_ok_def buf_def off_def l line_of_def)
  have wrs: "length K < 64 \<Longrightarrow> wr (K @ drop (length K) (hkey dst)) (int (length K)) NUL = Inr (put_cstr K (hkey dst))"
    "length V < 64 \<Longrightarrow> wr (V @ drop (length V) (hvalue dst)) (int (length V)) NUL = Inr (put_cstr V (hvalue dst))"
    using assms(2) by (simp_all add: wr_nul_span header_ok_def)
  have lens: "int (b + length K) - 1 - int b = int (length K) - 1"
    "int n - 1 - int e - int (b + length K + c + 1 + a) = int (length V) - 1" using n by simp_all
  have "http_str_to_header dst buf off N =
    Inr (if line_fits l
         then (0, dst\<lparr>hkey := put_cstr K (hkey dst), hvalue := put_cstr V (hvalue dst)\<rparr>)
         else (-1, dst))"
    unfolding http_str_to_header_def colon rbind_simps if_not_P[OF le] kstart kend ti
    apply (subst chk_int_ok) using n apply simp using n apply simp
    unfolding rbind_simps vstart vend lens
    using n kcp vcp wrs by (simp add: line_fits_def l HEADER_KEY_MAX_LENGTH_def HEADER_VALUE_MAX_LENGTH_def)
  then show ?thesis by (simp add: buf_def off_def N_def n_def l)
qed

section \<open>Malformed lines\<close>

lemma str_to_header_negative:
  assumes "scan_up (\<lambda>c i. c \<noteq> CHR '':'' \<and> word_of_int i < str_len) buf off 0 = Inr colon"
    and "\<not> str_len < word_of_int colon"
    and "scan_up is_space buf off 0 = Inr ks" and "scan_down is_space buf off (colon - 1) = Inr ke"
    and "scan_up is_space buf off (colon + 1) = Inr vs"
    and "scan_down is_space buf off (to_int (str_len - 1)) = Inr ve"
    and "0 \<le> colon" "colon < 2 ^ 31 - 1" "0 \<le> ks" "ks \<le> ke" "ke - ks + 1 < 64" "0 \<le> vs" "vs < 2 ^ 31" "0 \<le> ve"
      "ve + 1 < vs" "length (hvalue dst) < 2 ^ 63"
  shows "http_str_to_header dst buf off str_len = Inl Out_Of_Bounds"
proof -
  have neg: "copy_bytes (hvalue dst) 0 buf (off + vs) (word_of_int (ve - vs + 1)) = Inl Out_Of_Bounds"
    using assms by (intro copy_bytes_negative) simp_all
  have "chk_int (colon + 1) = Inr (colon + 1)" "chk_int (ke - ks) = Inr (ke - ks)"
    "chk_int (ke - ks + 1) = Inr (ke - ks + 1)" "chk_int (ve - vs) = Inr (ve - vs)"
    "chk_int (ve - vs + 1) = Inr (ve - vs + 1)" using assms by (simp_all add: chk_int_def)
  then show ?thesis
    using copy_bytes_cases[of "hkey dst" 0 buf "off + ks" "word_of_int (ke - ks + 1)"] assms(2,11,15)
    by (auto simp: http_str_to_header_def assms(1,3-6) neg neg[simplified] HEADER_KEY_MAX_LENGTH_def HEADER_VALUE_MAX_LENGTH_def)
qed

lemma str_to_header_no_colon:
  assumes "trimmed K" and "CHR '':'' \<notin> set K" and "length K < 64" and "header_ok dst"
    and "line = blanks b @ K @ blanks e" and "length (pre @ line @ post) < 2 ^ 31 - 1"
  shows "http_str_to_header dst (pre @ line @ post) (int (length pre)) (word_of_nat (length line)) =
    Inl Out_Of_Bounds"
proof (cases post)
  case Nil
  have "scan_up (\<lambda>c i. c \<noteq> CHR '':'' \<and> word_of_int i < (word_of_nat (length line) :: 64 word))
      (pre @ line @ post) (int (length pre)) 0 = Inl Out_Of_Bounds"
    unfolding Nil append_Nil2
  proof (rule scan_up_out_span)
    fix k assume k: "k < length line"
    have "line ! k \<noteq> CHR '':''" using nth_mem[OF k] assms(2,5) by auto
    then show "line ! k \<noteq> CHR '':'' \<and> word_of_int (0 + int k) < (word_of_nat (length line) :: 64 word)"
      using k assms(6) by (simp add: word_less_nat_alt unat_word_of_nat)
  qed (use assms in simp_all)
  then show ?thesis by (simp add: http_str_to_header_def)
next
  case (Cons x post')
  define buf where "buf = pre @ line @ post"
  define off where "off = int (length pre)"
  define n where "n = length line"
  define N where "N = (word_of_nat n :: 64 word)"
  have n: "n = b + length K + e" "n < 2 ^ 31 - 1" "0 < n"
    using assms by (auto simp: n_def trimmed_def)
  have un: "unat N = n" unfolding N_def using n by (intro unat_word_of_nat) simp
  have ti: "to_int (N - 1) = int n - 1" unfolding N_def using n by (intro to_int_pred) simp_all
  obtain k0 K1 where K1: "K = k0 # K1" "k0 \<noteq> CHR '' ''"
    using assms(1) by (cases K) (auto simp: trimmed_def)
  obtain K2 k9 where K2: "K = K2 @ [k9]" "k9 \<noteq> CHR '' ''"
    using assms(1) by (cases K rule: rev_cases) (auto simp: trimmed_def)
  have colon: "scan_up (\<lambda>c i. c \<noteq> CHR '':'' \<and> word_of_int i < N) buf off 0 = Inr (0 + int n)"
    unfolding buf_def off_def n_def Cons
  proof (rule scan_up_span)
    fix k assume k: "k < length line"
    have "line ! k \<noteq> CHR '':''" using nth_mem[OF k] assms(2,5) by auto
    then show "line ! k \<noteq> CHR '':'' \<and> word_of_int (0 + int k) < N"
      using k un n(2) unat_word_of_nat[of k] by (simp add: n_def word_less_nat_alt)
  qed (use n in \<open>simp_all add: n_def N_def\<close>)
  have le: "\<not> N < word_of_int (int n)" by (simp add: N_def)
  have kstart: "scan_up is_space buf off 0 = Inr (int b)"
    using scan_blanks_up[OF K1(2), of off 0 pre b "K1 @ blanks e @ post"] n
    by (simp add: buf_def off_def assms(5) K1(1))
  have kend: "scan_down is_space buf off (int n - 1) = Inr (int (b + length K) - 1)"
    using scan_blanks_down[OF K2(2), of off "int n - 1" "pre @ blanks b @ K2" e post] n
    by (simp add: buf_def off_def assms(5) K2(1))
  have K: "0 < length K" by (simp add: K1)
  consider "scan_up is_space buf off (int n + 1) = Inl Out_Of_Bounds"
    | j where "scan_up is_space buf off (int n + 1) = Inr j" "int n + 1 \<le> j" "off + j < int (length buf)"
    using scan_up_cases[of off "int n + 1" buf is_space] assms(6) n by (fastforce simp: off_def buf_def)
  then have "http_str_to_header dst buf off N = Inl Out_Of_Bounds"
  proof cases
    case 1
    have "chk_int (int n + 1) = Inr (int n + 1)" using n by (intro chk_int_ok) simp_all
    then show ?thesis using colon le kstart kend 1 by (simp add: http_str_to_header_def)
  next
    case 2
    have vend: "scan_down is_space buf off (to_int (N - 1)) = Inr (int (b + length K) - 1)"
      unfolding ti by (rule kend)
    have "int (length buf) < 2 ^ 31 - 1" "off \<ge> 0" using assms(6) by (simp_all add: buf_def off_def)
    moreover have m: "length K = Suc (length K1)" by (simp add: K1)
    ultimately show ?thesis
      by (intro str_to_header_negative[OF _ le kstart kend 2(1) vend])
        (use colon 2(2,3) n assms(3,4) in \<open>simp_all add: header_ok_def m\<close>)
  qed
  then show ?thesis by (simp add: buf_def off_def N_def n_def)
qed


lemma str_to_header_blank_value:
  assumes "trimmed K" and "CHR '':'' \<notin> set K" and "length K < 64" and "header_ok dst" and "0 < a"
    and "line = blanks b @ K @ blanks c @ CHR '':'' # blanks a" and "length line < 2 ^ 31"
    and "post = [] \<or> hd post \<noteq> CHR '' ''"
  shows "http_str_to_header dst (pre @ line @ post) (int (length pre)) (word_of_nat (length line)) =
    Inl Out_Of_Bounds"
proof -
  define buf where "buf = pre @ line @ post"
  define off where "off = int (length pre)"
  define n where "n = length line"
  define N where "N = (word_of_nat n :: 64 word)"
  define k where "k = b + length K + c"
  have n: "n = k + 1 + a" "n < 2 ^ 31" "k = b + length K + c"
    using assms(6,7) by (simp_all add: n_def k_def)
  have un: "unat N = n" unfolding N_def using n by (intro unat_word_of_nat) simp
  have ti: "to_int (N - 1) = int n - 1" unfolding N_def using n by (intro to_int_pred) simp_all
  obtain k0 K1 where K1: "K = k0 # K1" "k0 \<noteq> CHR '' ''"
    using assms(1) by (cases K) (auto simp: trimmed_def)
  obtain K2 k9 where K2: "K = K2 @ [k9]" "k9 \<noteq> CHR '' ''"
    using assms(1) by (cases K rule: rev_cases) (auto simp: trimmed_def)
  have colon: "scan_up (\<lambda>c i. c \<noteq> CHR '':'' \<and> word_of_int i < N) buf off 0 = Inr (int k)"
    using scan_colon[of "blanks b @ K @ blanks c" N pre "blanks a @ post"] assms(2) n un
    by (simp add: buf_def off_def assms(6) algebra_simps)
  have le: "\<not> N < word_of_int (int k)" using n un by (subst word_of_int_less_iff) simp_all
  have kstart: "scan_up is_space buf off 0 = Inr (int b)"
    using scan_blanks_up[OF K1(2), of off 0 pre b "K1 @ blanks c @ CHR '':'' # blanks a @ post"] n
    by (simp add: buf_def off_def assms(6) K1(1))
  have kend: "scan_down is_space buf off (int k - 1) = Inr (int (b + length K) - 1)"
    using scan_blanks_down[OF K2(2), of off "int k - 1" "pre @ blanks b @ K2" c "CHR '':'' # blanks a @ post"] n
    by (simp add: buf_def off_def assms(6) K2(1))
  have vend: "scan_down is_space buf off (to_int (N - 1)) = Inr (int k)"
    using scan_blanks_down[of "CHR '':''" off "int n - 1" "pre @ blanks b @ K @ blanks c" a post] n
    by (simp add: buf_def off_def assms(6) ti)
  have c1: "chk_int (int k + 1) = Inr (int k + 1)" using n by (intro chk_int_ok) simp_all
  have K: "0 < length K" by (simp add: K1)
  have "http_str_to_header dst buf off N = Inl Out_Of_Bounds"
  proof (cases post)
    case Nil
    have "scan_up is_space ((pre @ blanks b @ K @ blanks c @ [CHR '':'']) @ blanks a) off (int k + 1) = Inl Out_Of_Bounds"
      using n by (intro scan_up_out_span) (simp_all add: off_def)
    then have "scan_up is_space buf off (int k + 1) = Inl Out_Of_Bounds"
      by (simp add: buf_def Nil assms(6))
    then show ?thesis using colon le kstart kend c1 by (simp add: http_str_to_header_def)
  next
    case (Cons x post')
    then have x: "x \<noteq> CHR '' ''" using assms(8) by simp
    have "scan_up is_space buf off (int k + 1) = Inr (int n)"
      using scan_blanks_up[OF x, of off "int k + 1" "pre @ blanks b @ K @ blanks c @ [CHR '':'']" a post'] n
      by (simp add: buf_def off_def assms(6) Cons)
    then show ?thesis
      by (rule str_to_header_negative[OF colon le kstart kend _ vend])
        (use n K assms(3,4,5) in \<open>simp_all add: header_ok_def\<close>)
  qed
  then show ?thesis by (simp add: buf_def off_def N_def n_def)
qed

section \<open>Printing\<close>

definition header_holds :: "string \<Rightarrow> string \<Rightarrow> http_header \<Rightarrow> bool" where
  "header_holds K V hr \<longleftrightarrow> header_ok hr \<and> cstr (hkey hr) = K \<and> cstr (hvalue hr) = V \<and>
     length K < 64 \<and> length V < 64"

lemma cstr_split:
  assumes "length (cstr arr) < length arr"
  shows "\<exists>rest. arr = cstr arr @ NUL # rest" and "NUL \<in> set arr"
proof -
  have d: "dropWhile (\<lambda>c. c \<noteq> NUL) arr \<noteq> []"
    using assms unfolding cstr_def by (metis append_Nil2 less_irrefl takeWhile_dropWhile_id)
  then obtain c rest where cr: "dropWhile (\<lambda>c. c \<noteq> NUL) arr = c # rest" by (cases "dropWhile (\<lambda>c. c \<noteq> NUL) arr") auto
  then have "c = NUL" using hd_dropWhile[OF d] by simp
  then have e: "arr = cstr arr @ NUL # rest"
    unfolding cstr_def using cr by (metis takeWhile_dropWhile_id)
  then show "\<exists>rest. arr = cstr arr @ NUL # rest" by blast
  show "NUL \<in> set arr" by (subst e) simp
qed

lemma header_to_str_holds:
  assumes "header_holds K V hr" and "length dst \<ge> unat max_len"
  shows "http_header_to_str dst hr max_len =
    Inr (if unat max_len < length K + length V + 3 then (Some (-1), dst)
         else (None, put_cstr (K @ '': '' @ V) dst))"
proof -
  obtain r1 where k: "hkey hr = K @ NUL # r1" and "NUL \<in> set (hkey hr)"
    using assms(1) cstr_split[of "hkey hr"] by (auto simp: header_holds_def header_ok_def)
  obtain r2 where v: "hvalue hr = V @ NUL # r2" and "NUL \<in> set (hvalue hr)"
    using assms(1) cstr_split[of "hvalue hr"] by (auto simp: header_holds_def header_ok_def)
  have sl: "c_strlen (hkey hr) = Inr (length K)" "c_strlen (hvalue hr) = Inr (length V)"
    using assms(1) \<open>NUL \<in> set (hkey hr)\<close> \<open>NUL \<in> set (hvalue hr)\<close>
    by (simp_all add: c_strlen_def header_holds_def)
  have "word_of_int (int (length K) + int (length V) + 3) > max_len \<longleftrightarrow>
      int (unat max_len) < int (length K) + int (length V) + 3"
    using assms(1) by (intro word_of_int_less_iff(3)) (simp_all add: header_holds_def)
  also have "\<dots> \<longleftrightarrow> unat max_len < length K + length V + 3" by linarith
  finally have less: "word_of_int (int (length K) + int (length V) + 3) > max_len \<longleftrightarrow>
      unat max_len < length K + length V + 3" .
  show ?thesis
  proof (cases "unat max_len < length K + length V + 3")
    case True
    then show ?thesis using less by (simp add: http_header_to_str_def sl Let_def)
  next
    case False
    then have L: "length K + length V + 3 \<le> length dst" using assms(2) by simp
    have n: "length K < 2 ^ 64" "length V < 2 ^ 64" using assms(1) by (simp_all add: header_holds_def)
    define d1 where "d1 = K @ drop (length K) dst"
    have c1: "copy_bytes dst 0 (hkey hr) 0 (word_of_int (int (length K))) = Inr d1"
      unfolding d1_def using copy_bytes_ok[of "length K" 0 dst 0 "hkey hr"] n L by (simp add: k)
    define d2 where "d2 = K @ CHR '':'' # drop (length K + 1) dst"
    have c2: "wr d1 (int (length K)) (CHR '':'') = Inr d2"
      using L by (simp add: wr_def d1_def d2_def list_update_append Cons_nth_drop_Suc [symmetric])
    define d3 where "d3 = (K @ '': '') @ drop (length K + 2) dst"
    have c3: "wr d2 (int (length K) + 1) (CHR '' '') = Inr d3"
      using L by (simp add: wr_def d2_def d3_def list_update_append nat_add_distrib Cons_nth_drop_Suc [symmetric])
    define d4 where "d4 = (K @ '': '' @ V) @ drop (length K + 2 + length V) dst"
    have c4: "copy_bytes d3 (int (length K) + 2) (hvalue hr) 0 (word_of_int (int (length V))) = Inr d4"
      using copy_bytes_ok[of "length V" "int (length K) + 2" d3 0 "hvalue hr"] n L
      by (simp add: d3_def d4_def v nat_add_distrib add.commute[of "length V"])
    have c5: "wr d4 (int (length K) + int (length V) + 2) NUL = Inr (put_cstr (K @ '': '' @ V) dst)"
      using L by (simp add: wr_def d4_def put_cstr_def list_update_append nat_add_distrib Cons_nth_drop_Suc [symmetric])
    show ?thesis using False less c1 c2 c3 c4 c5 by (simp add: http_header_to_str_def sl Let_def algebra_simps)
  qed
qed


lemma header_roundtrip:
  assumes "header_holds K V hr" and "trimmed K" and "trimmed V" and "CHR '':'' \<notin> set K" and "header_ok dst"
    and "length K + length V + 3 \<le> unat max_len" and "unat max_len \<le> length buf"
  shows "\<exists>buf' dst'. http_header_to_str buf hr max_len = Inr (None, buf') \<and>
    http_str_to_header dst buf' 0 (word_of_nat (length (cstr buf'))) = Inr (0, dst') \<and>
    header_holds K V dst'"
proof -
  define l where "l = \<lparr>l_before = 0, l_key = K, l_colon = 0, l_after = 1, l_value = V, l_end = 0\<rparr>"
  have sz: "length K < 64" "length V < 64" using assms(1) by (simp_all add: header_holds_def)
  have nul: "NUL \<notin> set K" "NUL \<notin> set V" using assms(2,3) by (simp_all add: trimmed_def)
  have line: "line_of l = K @ '': '' @ V" by (simp add: l_def line_of_def)
  have "line_ok l" using assms(2,3,4) sz by (simp add: line_ok_def line) (simp add: l_def)
  have s: "http_header_to_str buf hr max_len = Inr (None, put_cstr (line_of l) buf)"
    using header_to_str_holds[OF assms(1,7)] assms(6) by (simp add: line)
  have c: "cstr (put_cstr (line_of l) buf) = line_of l" using nul by (intro cstr_put_cstr) (simp add: line)
  have "put_cstr (line_of l) buf = [] @ line_of l @ (NUL # drop (length (line_of l) + 1) buf)"
    by (simp add: put_cstr_def)
  then have p: "http_str_to_header dst (put_cstr (line_of l) buf) 0 (word_of_nat (length (line_of l))) =
      Inr (0, dst\<lparr>hkey := put_cstr K (hkey dst), hvalue := put_cstr V (hvalue dst)\<rparr>)"
    using str_to_header_line[OF \<open>line_ok l\<close> assms(5), of "[]"] sz by (simp add: line_fits_def) (simp add: l_def)
  have "header_holds K V (dst\<lparr>hkey := put_cstr K (hkey dst), hvalue := put_cstr V (hvalue dst)\<rparr>)"
    using nul sz assms(5) by (simp add: header_holds_def header_ok_def cstr_put_cstr length_put_cstr)
  then show ?thesis using s p c by auto
qed

section \<open>Blocks of headers\<close>

definition block :: "header_line list \<Rightarrow> string" where
  "block ls = concat (map (\<lambda>l. line_of l @ [CR, LF]) ls)"

lemma block_simps [simp]:
  "block [] = []"
  "block (l # ls) = line_of l @ CR # LF # block ls"
  by (simp_all add: block_def)

definition parsed :: "http_header \<Rightarrow> header_line \<Rightarrow> http_header" where
  "parsed hr l = hr\<lparr>hkey := put_cstr (l_key l) (hkey hr), hvalue := put_cstr (l_value l) (hvalue hr)\<rparr>"

text \<open>\<open>fill dst i ls\<close>: the lines \<open>ls\<close> parsed into the array \<open>dst\<close> from index \<open>i\<close> on.\<close>

fun fill :: "http_header list \<Rightarrow> nat \<Rightarrow> header_line list \<Rightarrow> http_header list" where
  "fill dst i [] = dst"
| "fill dst i (l # ls) = fill (dst[i := parsed (dst ! i) l]) (Suc i) ls"

lemma length_fill [simp]: "length (fill dst i ls) = length dst"
  by (induction dst i ls rule: fill.induct) simp_all

lemma fill_before: "j < i \<Longrightarrow> fill dst i ls ! j = dst ! j"
  by (induction dst i ls rule: fill.induct) simp_all

lemma fill_after: "i + length ls \<le> j \<Longrightarrow> fill dst i ls ! j = dst ! j"
  by (induction dst i ls rule: fill.induct) simp_all

lemma fill_nth:
  "k < length ls \<Longrightarrow> i + length ls \<le> length dst \<Longrightarrow> fill dst i ls ! (i + k) = parsed (dst ! (i + k)) (ls ! k)"
proof (induction dst i ls arbitrary: k rule: fill.induct)
  case (2 dst i l ls)
  show ?case
  proof (cases k)
    case 0
    then show ?thesis using "2.prems" by (simp add: fill_before)
  next
    case (Suc k')
    then show ?thesis using "2.IH"[of k'] "2.prems" by simp
  qed
qed simp

lemma header_ok_parsed: "header_ok hr \<Longrightarrow> line_fits l \<Longrightarrow> header_ok (parsed hr l)"
  by (simp add: header_ok_def parsed_def line_fits_def length_put_cstr)

lemma header_holds_parsed:
  "header_ok hr \<Longrightarrow> line_fits l \<Longrightarrow> line_ok l \<Longrightarrow> header_holds (l_key l) (l_value l) (parsed hr l)"
  using header_ok_parsed[of hr l]
  by (auto simp: header_holds_def parsed_def line_fits_def line_ok_def trimmed_def cstr_put_cstr)

lemma CR_line: "line_ok l \<Longrightarrow> CR \<notin> set (line_of l)"
  by (auto simp: line_ok_def line_of_def trimmed_def)

lemma line_of_pos: "line_of l \<noteq> []"
  by (simp add: line_of_def)

text \<open>The scan at the end of a round of the loop, and one round on a well-formed line.\<close>

definition next_cr :: "char list \<Rightarrow> 64 word \<Rightarrow> int \<Rightarrow> int result" where
  "next_cr str n i = scan_up (\<lambda>c i. c \<noteq> CR \<and> word_of_int i \<le> n) str 0 i"

lemma next_cr_line:
  assumes "line_ok l" and "length pre + length (line_of l) \<le> unat n" and "unat n < 2 ^ 31"
    and "i = int (length pre)"
  shows "next_cr (pre @ line_of l @ CR # post) n i = Inr (int (length pre + length (line_of l)))"
proof -
  have "line_of l ! k \<noteq> CR \<and> word_of_int (int (length pre) + int k) \<le> n" if "k < length (line_of l)" for k
  proof -
    have "word_of_int (int (length pre) + int k) \<le> n"
    proof (rule iffD2[OF word_of_int_less_iff(2)])
      show "int (length pre) + int k \<le> int (unat n)" using that assms(2) by linarith
    qed (use that assms(2,3) in simp_all)
    then show ?thesis using CR_line[OF assms(1)] nth_mem[OF that] by auto
  qed
  then show ?thesis
    using assms(2,3,4) scan_up_span[of 0 "int (length pre)" pre "line_of l"
        "\<lambda>c i. c \<noteq> CR \<and> word_of_int i \<le> n" CR post] by (simp add: next_cr_def)
qed

lemma headers_loop_step:
  assumes "line_ok l" and "header_ok (dst ! i)" and "i < length dst" and "int i < cap"
    and "length (pre @ line_of l @ CR # LF # rest) < 2 ^ 31" and "str = pre @ line_of l @ CR # LF # rest"
    and "length pre < unat n"
  shows "headers_loop cap str n dst (int i) (int (length pre)) (int (length pre + length (line_of l))) =
    rbind (next_cr str n (int (length pre + length (line_of l) + 2))) (\<lambda>e.
      headers_loop cap str n (if line_fits l then dst[i := parsed (dst ! i) l] else dst)
        (int (if line_fits l then Suc i else i)) (int (length pre + length (line_of l) + 2)) e)"
proof -
  have lt: "(word_of_int (int (length pre)) :: 64 word) < n"
    using assms(7) unsigned_less[of n, where 'a = nat] by (simp add: word_less_nat_alt unat_word_of_nat)
  have c1: "chk_int (int (length pre + length (line_of l)) - int (length pre)) = Inr (int (length (line_of l)))"
    using assms(5) by (simp add: chk_int_def)
  have c2: "chk_int (int (length pre + length (line_of l)) + 2) = Inr (int (length pre + length (line_of l) + 2))"
    using assms(5) by (simp add: chk_int_def)
  have p: "http_str_to_header (dst ! i) str (int (length pre)) (word_of_nat (length (line_of l))) =
      Inr (if line_fits l then (0, parsed (dst ! i) l) else (-1, dst ! i))"
    using str_to_header_line[OF assms(1,2), of pre "CR # LF # rest"] by (simp add: assms(6) parsed_def)
  show ?thesis
    using assms(3,4) lt
    by (subst headers_loop.simps) (cases "line_fits l"; simp add: c1 c2 p next_cr_def add.commute[of 1 "int i"] del: of_nat_add)
qed

text \<open>The loop over the lines \<open>ls\<close> that start at offset \<open>length pre\<close>, with \<open>cap - i\<close> headers free.\<close>

lemma headers_loop_block:
  assumes "\<forall>l \<in> set ls. line_ok l" and "\<forall>hr \<in> set dst. header_ok hr" and "cap \<le> length dst" and "i \<le> cap"
    and "str = pre @ block ls @ post" and "length (pre @ block ls @ post) < 2 ^ 31"
    and "unat n \<le> length (pre @ block ls)" and "length (pre @ block ls) \<le> unat n + 2"
    and "\<And>l ls'. ls = l # ls' \<Longrightarrow> e = int (length pre + length (line_of l))"
  shows "headers_loop (int cap) str n dst (int i) (int (length pre)) e =
    (let good = take (cap - i) (filter line_fits ls);
         res = Inr (int (i + length good), fill dst i good)
     in if ls = [] \<or> cap - i \<le> length (filter line_fits (butlast ls)) then res
        else rbind (next_cr str n (int (length (pre @ block ls)))) (\<lambda>_. res))"
  using assms
proof (induction ls arbitrary: pre dst i e)
  case Nil
  have "\<not> word_of_int (int (length pre)) < n"
    using Nil.prems(7) unat_word_of_nat[of "length pre"] Nil.prems(6) by (simp add: word_less_nat_alt)
  then show ?case by (subst headers_loop.simps) simp
next
  case (Cons l ls)
  define pre' where "pre' = pre @ line_of l @ [CR, LF]"
  have e: "e = int (length pre + length (line_of l))" using Cons.prems(9) by simp
  show ?case
  proof (cases "i = cap")
    case True
    then show ?thesis by (subst headers_loop.simps) simp
  next
    case False
    then have i: "i < cap" using Cons.prems(4) by simp
    define dst' where "dst' = (if line_fits l then dst[i := parsed (dst ! i) l] else dst)"
    define i' where "i' = (if line_fits l then Suc i else i)"
    have hd: "header_ok (dst ! i)" using Cons.prems(2,3) i by simp
    have lt: "length pre < unat n" using Cons.prems(8) line_of_pos[of l] by (cases "line_of l") auto
    have step: "headers_loop (int cap) str n dst (int i) (int (length pre)) e =
        rbind (next_cr str n (int (length pre'))) (\<lambda>e.
          headers_loop (int cap) str n dst' (int i') (int (length pre')) e)"
      unfolding e dst'_def i'_def pre'_def
      using headers_loop_step[of l dst i "int cap" pre "block ls @ post" str n] Cons.prems hd i lt by simp
    have IH: "headers_loop (int cap) str n dst' (int i') (int (length pre')) e' =
      (let good = take (cap - i') (filter line_fits ls);
           res = Inr (int (i' + length good), fill dst' i' good)
       in if ls = [] \<or> cap - i' \<le> length (filter line_fits (butlast ls)) then res
          else rbind (next_cr str n (int (length (pre' @ block ls)))) (\<lambda>_. res))"
      if "\<And>l ls'. ls = l # ls' \<Longrightarrow> e' = int (length pre' + length (line_of l))" for e'
    proof (rule Cons.IH)
      show "\<forall>hr\<in>set dst'. header_ok hr"
        using Cons.prems(2) header_ok_parsed[OF hd, of l]
          set_update_subset_insert[of dst i "parsed (dst ! i) l"]
        by (cases "line_fits l") (auto simp: dst'_def)
    qed (use Cons.prems i that in \<open>auto simp: dst'_def i'_def pre'_def\<close>)
    have good: "take (cap - i) (filter line_fits (l # ls)) =
        (if line_fits l then l # take (cap - i') (filter line_fits ls) else take (cap - i') (filter line_fits ls))"
      using i by (auto simp: i'_def take_Cons' Suc_diff_Suc)
    show ?thesis
    proof (cases ls)
      case Nil
      have "headers_loop (int cap) str n dst' (int i') (int (length pre')) = (\<lambda>_. Inr (int i', dst'))"
        by (rule ext, subst IH) (simp_all add: Nil)
      then show ?thesis
        using i unfolding step Nil by (cases "line_fits l") (simp_all add: pre'_def dst'_def i'_def take_Cons' add.commute[of 1 "int i"])
    next
      case (Cons l' ls')
      have "next_cr str n (int (length pre')) = Inr (int (length pre' + length (line_of l')))"
        using next_cr_line[of l' pre' n "int (length pre')" "LF # block ls' @ post"] Cons.prems
        by (simp add: Cons pre'_def)
      then have loop: "headers_loop (int cap) str n dst (int i) (int (length pre)) e =
          headers_loop (int cap) str n dst' (int i') (int (length pre')) (int (length pre' + length (line_of l')))"
        unfolding step by simp
      have pre: "pre' @ block ls = pre @ block (l # ls)" by (simp add: pre'_def)
      have num: "i' + length (take (cap - i') (filter line_fits ls)) =
          i + length (take (cap - i) (filter line_fits (l # ls)))"
        unfolding good using i by (simp add: i'_def)
      have arr: "fill dst' i' (take (cap - i') (filter line_fits ls)) =
          fill dst i (take (cap - i) (filter line_fits (l # ls)))"
        unfolding good using i by (simp add: i'_def dst'_def)
      have stop: "cap - i' \<le> length (filter line_fits (butlast ls)) \<longleftrightarrow>
          cap - i \<le> length (filter line_fits (butlast (l # ls)))"
        using i by (auto simp: i'_def Cons)
      show ?thesis
        unfolding loop Let_def num [symmetric] arr [symmetric] stop [symmetric] pre [symmetric]
        by (subst IH) (simp_all add: Cons Let_def)
    qed
  qed
qed

lemma str_to_headers_block:
  assumes "\<forall>l \<in> set ls. line_ok l" and "\<forall>hr \<in> set dst. header_ok hr" and "cap \<le> length dst"
    and "length (block ls @ post) < 2 ^ 31" and "unat n \<le> length (block ls)" and "length (block ls) \<le> unat n + 2"
    and "ls \<noteq> []"
  shows "http_str_to_headers dst (int cap) (block ls @ post) n =
    (let good = take cap (filter line_fits ls);
         res = Inr (int (length good), fill dst 0 good)
     in if cap \<le> length (filter line_fits (butlast ls)) then res
        else rbind (next_cr (block ls @ post) n (int (length (block ls)))) (\<lambda>_. res))"
proof -
  obtain l ls' where ls: "ls = l # ls'" using assms(7) by (cases ls) auto
  have l: "line_ok l" using assms(1) ls by simp
  have "scan_up (\<lambda>c i. c \<noteq> CR \<and> word_of_int i < n) ([] @ line_of l @ CR # LF # block ls' @ post) 0 0 =
      Inr (0 + int (length (line_of l)))"
  proof (rule scan_up_span)
    fix k assume k: "k < length (line_of l)"
    have "k < unat n" using k assms(6) ls by simp
    then have "word_of_nat k < n"
      using unsigned_less[of n, where 'a = nat] by (simp add: word_less_nat_alt unat_word_of_nat)
    then show "line_of l ! k \<noteq> CR \<and> word_of_int (0 + int k) < n"
      using CR_line[OF l] nth_mem[OF k] by auto
  qed (use assms(4) ls in simp_all)
  then have first: "scan_up (\<lambda>c i. c \<noteq> CR \<and> word_of_int i < n) (block ls @ post) 0 0 = Inr (int (length (line_of l)))"
    by (simp add: ls)
  have "headers_loop (int cap) (block ls @ post) n dst (int 0) (int (length ([] :: string)))
      (int (length (line_of l))) =
    (let good = take (cap - 0) (filter line_fits ls);
         res = Inr (int (0 + length good), fill dst 0 good)
     in if ls = [] \<or> cap - 0 \<le> length (filter line_fits (butlast ls)) then res
        else rbind (next_cr (block ls @ post) n (int (length ([] @ block ls)))) (\<lambda>_. res))"
    by (rule headers_loop_block) (use assms ls in simp_all)
  then show ?thesis
    unfolding http_str_to_headers_def first rbind_simps using assms(7) by (simp add: Let_def)
qed

lemma next_cr_tail:
  assumes "unat n = length text" and "length text < 2 ^ 31 - 2"
  shows "CR \<in> set (take 1 post) \<or> 2 \<le> length post \<Longrightarrow>
      \<exists>e. next_cr (text @ post) n (int (length text)) = Inr e"
    and "CR \<notin> set post \<Longrightarrow> length post < 2 \<Longrightarrow>
      next_cr (text @ post) n (int (length text)) = Inl Out_Of_Bounds"
proof -
  have le: "(word_of_nat (length text) :: 64 word) \<le> n" "\<not> (1 + word_of_nat (length text) :: 64 word) \<le> n"
    using unat_word_of_nat[of "length text"] unat_word_of_nat[of "Suc (length text)"] assms
    by (simp_all add: word_le_nat_alt)
  have c: "chk_int (int (length text) + 1) = Inr (int (length text) + 1)" "nat (int (length text) + 1) = Suc (length text)"
    using assms(2) by (simp_all add: chk_int_def)
  have pass: "next_cr (text @ x # ps) n (int (length text)) = next_cr (text @ x # ps) n (int (length text) + 1)"
    if "x \<noteq> CR" for x ps
    unfolding next_cr_def by (subst scan_up.simps) (simp add: rd_def that le c(1))
  show "\<exists>e. next_cr (text @ post) n (int (length text)) = Inr e" if tail: "CR \<in> set (take 1 post) \<or> 2 \<le> length post"
  proof -
    obtain x ps where post: "post = x # ps" using tail by (cases post) auto
    show ?thesis
    proof (cases "x = CR")
      case True
      then show ?thesis unfolding next_cr_def by (subst scan_up.simps) (simp add: rd_def post)
    next
      case False
      then obtain y qs where "ps = y # qs" using tail post by (cases ps) auto
      have "next_cr (text @ x # y # qs) n (int (length text) + 1) = Inr (int (length text) + 1)"
        unfolding next_cr_def by (subst scan_up.simps) (simp add: rd_def c nth_append le add.commute[of _ 1])
      then show ?thesis using \<open>ps = y # qs\<close> by (simp add: post pass[OF False])
    qed
  qed
  show "next_cr (text @ post) n (int (length text)) = Inl Out_Of_Bounds" if "CR \<notin> set post" "length post < 2"
  proof (cases post)
    case Nil
    then show ?thesis unfolding next_cr_def by (subst scan_up.simps) (simp add: rd_def)
  next
    case (Cons x ps)
    then have "x \<noteq> CR" "ps = []" using that by auto
    have "next_cr (text @ [x]) n (int (length text) + 1) = Inl Out_Of_Bounds"
      unfolding next_cr_def by (subst scan_up.simps) (simp add: rd_def)
    then show ?thesis using \<open>ps = []\<close> by (simp add: Cons pass[OF \<open>x \<noteq> CR\<close>])
  qed
qed

lemma header_set_ok:
  assumes "NUL \<notin> set K" and "NUL \<notin> set V" and "header_ok dst" and "length K < 2 ^ 63" and "length V < 2 ^ 63"
  shows "http_header_set dst (K @ NUL # r1) (V @ NUL # r2) =
    (if length K < 64 \<and> length V < 64
     then Inr (0, dst\<lparr>hkey := put_cstr K (hkey dst), hvalue := put_cstr V (hvalue dst)\<rparr>)
     else Inl Out_Of_Bounds)"
proof -
  have cp: "c_strcpy arr 0 (s @ NUL # r) = (if length s < length arr then Inr (put_cstr s arr) else Inl Out_Of_Bounds)"
    if "NUL \<notin> set s" "length s < 2 ^ 63" for s r arr
  proof -
    have "unat (word_of_nat (length s + 1) :: 64 word) = length s + 1" using that(2) by (intro unat_word_of_nat) simp
    then show ?thesis
      using that unfolding c_strcpy_def c_strlen_append[OF that(1)] rbind_simps copy_bytes_def
      by (simp only:) (simp add: put_cstr_def)
  qed
  show ?thesis
    using assms by (simp add: http_header_set_def c_strlen_append cp header_ok_def)
qed

section \<open>Properties\<close>

text \<open>The concrete header array and lines of the witnesses.\<close>

definition blank_header :: http_header where
  "blank_header = \<lparr>hkey = replicate 64 NUL, hvalue = replicate 64 NUL\<rparr>"

definition host_line :: header_line where
  "host_line = \<lparr>l_before = 0, l_key = ''Host'', l_colon = 0, l_after = 1, l_value = ''a'', l_end = 0\<rparr>"

definition len_line :: header_line where
  "len_line = \<lparr>l_before = 0, l_key = ''Len'', l_colon = 1, l_after = 2, l_value = ''5'', l_end = 1\<rparr>"

lemmas sample_defs = blank_header_def host_line_def len_line_def

lemma sample_ok: "header_ok blank_header" "line_ok host_line" "line_ok len_line"
  "line_fits host_line" "line_fits len_line"
  by (simp_all add: sample_defs header_ok_def line_ok_def line_fits_def trimmed_def line_of_def)

lemma sample_blocks:
  "line_of host_line = ''Host: a''"
  "block [host_line, len_line] = ''Host: a'' @ [CR, LF] @ ''Len :  5 '' @ [CR, LF]"
  "line_of len_line = ''Len :  5 ''"
  by (simp_all add: sample_defs line_of_def numeral_2_eq_2)

text \<open>A well-formed line is parsed wherever it stands in a buffer: key and value are stored
  without the blanks around them when both fit in 63 characters; otherwise the function returns
  -1 and leaves the header alone.\<close>

theorem http_str_to_header_parses:
  assumes "line_ok l" and "header_ok dst"
  shows "case http_str_to_header dst (pre @ line_of l @ post) (int (length pre)) (word_of_nat (length (line_of l))) of
      Inr (r, dst') \<Rightarrow>
        if length (l_key l) < 64 \<and> length (l_value l) < 64
        then r = 0 \<and> cstr (hkey dst') = l_key l \<and> cstr (hvalue dst') = l_value l \<and> header_ok dst'
        else r = -1 \<and> dst' = dst
    | Inl e \<Rightarrow> False"
  using str_to_header_line[OF assms, of pre post] header_holds_parsed[OF assms(2) _ assms(1)]
  by (auto simp: line_fits_def parsed_def header_holds_def)

lemma http_str_to_header_parses_witness:
  "case http_str_to_header blank_header ([] @ line_of host_line @ [NUL]) (int (length ([] :: string)))
      (word_of_nat (length (line_of host_line))) of
      Inr (r, dst') \<Rightarrow>
        if length (l_key host_line) < 64 \<and> length (l_value host_line) < 64
        then r = 0 \<and> cstr (hkey dst') = l_key host_line \<and> cstr (hvalue dst') = l_value host_line \<and> header_ok dst'
        else r = -1 \<and> dst' = blank_header
    | Inl e \<Rightarrow> False"
  by (rule http_str_to_header_parses[OF sample_ok(2,1)])

text \<open>C39: A block of well-formed lines, each ended by CR LF, followed by two more bytes (or the CR of
  the empty line), is parsed completely: the headers that fit are stored in order, as many as the
  array takes, their number is returned and the rest of the array is not touched.\<close>

theorem http_str_to_headers_parses:
  assumes "\<forall>l \<in> set ls. line_ok l" and "\<forall>hr \<in> set dst. header_ok hr" and "cap \<le> length dst" and "ls \<noteq> []"
    and "length (block ls @ post) < 2 ^ 31 - 2" and "CR \<in> set (take 1 post) \<or> 2 \<le> length post"
    and "good = take cap (filter line_fits ls)"
  shows "\<exists>dst'. http_str_to_headers dst (int cap) (block ls @ post) (word_of_nat (length (block ls))) =
      Inr (int (length good), dst') \<and> length dst' = length dst \<and>
    (\<forall>k < length good. header_holds (l_key (good ! k)) (l_value (good ! k)) (dst' ! k)) \<and>
    (\<forall>k \<ge> length good. dst' ! k = dst ! k)"
proof -
  have n: "unat (word_of_nat (length (block ls)) :: 64 word) = length (block ls)"
    using assms(5) by (intro unat_word_of_nat) simp
  obtain e where e: "next_cr (block ls @ post) (word_of_nat (length (block ls))) (int (length (block ls))) = Inr e"
    using next_cr_tail(1)[OF n _ assms(6)] assms(5) by auto
  have run: "http_str_to_headers dst (int cap) (block ls @ post) (word_of_nat (length (block ls))) =
      Inr (int (length good), fill dst 0 good)"
    using str_to_headers_block[OF assms(1-3) _ _ _ assms(4)] assms(5) n by (simp add: e Let_def assms(7))
  have len: "length good \<le> length dst" using assms(3,7) by simp
  have "header_holds (l_key (good ! k)) (l_value (good ! k)) (fill dst 0 good ! k)" if k: "k < length good" for k
  proof -
    have "good ! k \<in> set (filter line_fits ls)"
      using nth_mem[OF k] set_take_subset[of cap "filter line_fits ls"] unfolding assms(7) by blast
    then show ?thesis
      using fill_nth[OF k, of 0 dst] len k assms(1,2) by (auto intro: header_holds_parsed)
  qed
  then show ?thesis using run fill_after[of 0 good _ dst] by auto
qed

lemma http_str_to_headers_parses_witness:
  "\<exists>dst'. http_str_to_headers [blank_header, blank_header, blank_header] (int 3)
      (block [host_line, len_line] @ [CR, LF]) (word_of_nat (length (block [host_line, len_line]))) =
      Inr (int (length [host_line, len_line]), dst') \<and> length dst' = length [blank_header, blank_header, blank_header] \<and>
    (\<forall>k < length [host_line, len_line].
      header_holds (l_key ([host_line, len_line] ! k)) (l_value ([host_line, len_line] ! k)) (dst' ! k)) \<and>
    (\<forall>k \<ge> length [host_line, len_line]. dst' ! k = [blank_header, blank_header, blank_header] ! k)"
  by (rule http_str_to_headers_parses) (simp_all add: sample_ok sample_blocks)

text \<open>The scan for the next header reads two bytes behind the text it was given: when the buffer
  ends with the text or with its terminating null byte, and the array is not full before the last
  line, \<open>http_str_to_headers\<close> leaves the buffer.\<close>

theorem http_str_to_headers_overrun:
  assumes "\<forall>l \<in> set ls. line_ok l" and "\<forall>hr \<in> set dst. header_ok hr" and "cap \<le> length dst" and "ls \<noteq> []"
    and "length (block ls) < 2 ^ 31 - 4" and "post = [] \<or> post = [NUL]" and "length ls \<le> cap"
  shows "http_str_to_headers dst (int cap) (block ls @ post) (word_of_nat (length (block ls))) = Inl Out_Of_Bounds"
proof -
  have n: "unat (word_of_nat (length (block ls)) :: 64 word) = length (block ls)"
    using assms(5) by (intro unat_word_of_nat) simp
  have "length (filter line_fits (butlast ls)) < cap"
  proof (rule le_less_trans[OF length_filter_le])
    show "length (butlast ls) < cap" using assms(4,7) by (cases ls) auto
  qed
  moreover have "next_cr (block ls @ post) (word_of_nat (length (block ls))) (int (length (block ls))) = Inl Out_Of_Bounds"
    by (rule next_cr_tail(2)[OF n]) (use assms(5,6) in auto)
  ultimately show ?thesis
    using str_to_headers_block[OF assms(1-3) _ _ _ assms(4), of post] assms(5,6) n by (auto simp: Let_def)
qed

lemma http_str_to_headers_overrun_witness:
  "http_str_to_headers [blank_header, blank_header] (int 2) (block [host_line, len_line] @ [NUL])
    (word_of_nat (length (block [host_line, len_line]))) = Inl Out_Of_Bounds"
  by (rule http_str_to_headers_overrun) (simp_all add: sample_ok sample_blocks)

text \<open>A line without a colon is never answered with -1: when its text is shorter than 64
  characters the computed length of the value is negative, becomes a huge \<open>size_t\<close>, and the
  function copies or scans beyond its buffers.\<close>

theorem http_str_to_header_no_colon:
  assumes "trimmed K" and "CHR '':'' \<notin> set K" and "length K < 64" and "header_ok dst"
    and "line = blanks b @ K @ blanks e" and "length (pre @ line @ post) < 2 ^ 31 - 1"
  shows "http_str_to_header dst (pre @ line @ post) (int (length pre)) (word_of_nat (length line)) = Inl Out_Of_Bounds"
  by (rule str_to_header_no_colon[OF assms])

lemma http_str_to_header_no_colon_witness:
  "http_str_to_header blank_header ([] @ ''garbage '' @ [CR, LF]) (int (length ([] :: string)))
    (word_of_nat (length ''garbage '')) = Inl Out_Of_Bounds"
  by (rule http_str_to_header_no_colon[where K = "''garbage''" and b = 0 and e = 1])
    (simp_all add: trimmed_def sample_ok)

text \<open>The same happens for a header whose value consists of blanks only.\<close>

theorem http_str_to_header_blank_value:
  assumes "trimmed K" and "CHR '':'' \<notin> set K" and "length K < 64" and "header_ok dst" and "0 < a"
    and "line = blanks b @ K @ blanks c @ CHR '':'' # blanks a" and "length line < 2 ^ 31"
    and "post = [] \<or> hd post \<noteq> CHR '' ''"
  shows "http_str_to_header dst (pre @ line @ post) (int (length pre)) (word_of_nat (length line)) = Inl Out_Of_Bounds"
  by (rule str_to_header_blank_value[OF assms])

lemma http_str_to_header_blank_value_witness:
  "http_str_to_header blank_header ([] @ ''Host: '' @ [CR, LF]) (int (length ([] :: string)))
    (word_of_nat (length ''Host: '')) = Inl Out_Of_Bounds"
  by (rule http_str_to_header_blank_value[where K = "''Host''" and b = 0 and c = 0 and a = 1])
    (simp_all add: trimmed_def sample_ok)

text \<open>C40: Printing and parsing are inverse on the headers that can be parsed: when the key and the value are not empty,
  neither begin nor end with a blank and hold no carriage return or null byte (\<open>trimmed\<close>), the key has no colon, and the
  text with its null byte fits in the buffer, then the header that is printed into the buffer and parsed from it holds
  the same key and the same value, whatever the destination held.  The conditions are needed: for a value of blanks the
  parser faults (\<open>http_str_to_header_blank_value\<close>).\<close>

theorem http_header_roundtrip:
  assumes "header_holds K V hr" and "trimmed K" and "trimmed V" and "CHR '':'' \<notin> set K" and "header_ok dst"
    and "length K + length V + 3 \<le> unat max_len" and "unat max_len \<le> length buf"
  shows "\<exists>buf' dst'. http_header_to_str buf hr max_len = Inr (None, buf') \<and>
    http_str_to_header dst buf' 0 (word_of_nat (length (cstr buf'))) = Inr (0, dst') \<and> header_holds K V dst'"
  by (rule header_roundtrip[OF assms])

lemma http_header_roundtrip_witness:
  "\<exists>buf' dst'. http_header_to_str (replicate 20 NUL) (parsed blank_header host_line) 20 = Inr (None, buf') \<and>
    http_str_to_header blank_header buf' 0 (word_of_nat (length (cstr buf'))) = Inr (0, dst') \<and>
    header_holds ''Host'' ''a'' dst'"
  using header_holds_parsed[OF sample_ok(1,4,2)]
  by (intro http_header_roundtrip) (simp_all add: trimmed_def sample_ok host_line_def)

text \<open>\<open>http_header_to_str\<close> refuses with -1 a text that does not fit, and otherwise writes
  \<open>key: value\<close> with its null byte; but then it returns no value, although its comment promises
  the number of characters written.\<close>

theorem http_header_to_str_branches:
  assumes "header_holds K V hr" and "unat max_len \<le> length dst"
  shows "http_header_to_str dst hr max_len =
    Inr (if unat max_len < length K + length V + 3 then (Some (-1), dst)
         else (None, put_cstr (K @ '': '' @ V) dst))"
  by (rule header_to_str_holds[OF assms])

lemma http_header_to_str_branches_witness:
  "http_header_to_str (replicate 20 NUL) (parsed blank_header host_line) 8 =
    Inr (if unat (8 :: 64 word) < length ''Host'' + length ''a'' + 3 then (Some (-1), replicate 20 NUL)
         else (None, put_cstr (''Host'' @ '': '' @ ''a'') (replicate 20 NUL)))"
  using header_holds_parsed[OF sample_ok(1,4,2)]
  by (intro http_header_to_str_branches) (simp_all add: host_line_def)

text \<open>\<open>http_header_set\<close> stores both strings when each fits in 63 characters, and otherwise
  overruns the fixed arrays: the lengths it computes are never compared.\<close>

theorem http_header_set_branches:
  assumes "NUL \<notin> set K" and "NUL \<notin> set V" and "header_ok dst" and "length K < 2 ^ 63" and "length V < 2 ^ 63"
  shows "case http_header_set dst (K @ NUL # r1) (V @ NUL # r2) of
      Inr (r, dst') \<Rightarrow> r = 0 \<and> header_holds K V dst'
    | Inl e \<Rightarrow> e = Out_Of_Bounds \<and> (64 \<le> length K \<or> 64 \<le> length V)"
  using header_set_ok[OF assms, of r1 r2] assms(1-3)
  by (auto simp: header_holds_def header_ok_def cstr_put_cstr length_put_cstr)

lemma http_header_set_branches_witness:
  "case http_header_set blank_header (''Host'' @ NUL # []) (''a'' @ NUL # []) of
      Inr (r, dst') \<Rightarrow> r = 0 \<and> header_holds ''Host'' ''a'' dst'
    | Inl e \<Rightarrow> e = Out_Of_Bounds \<and> (64 \<le> length ''Host'' \<or> 64 \<le> length ''a'')"
  by (rule http_header_set_branches) (simp_all add: sample_ok)

end
