(* ===== verification/Worker_Pool.thy ===== *)
theory Worker_Pool
  imports Job_Queue "HOL-Library.Multiset"
begin

text \<open>
  The thread pool of \<open>src/unix/workers.c\<close> (\<open>include/unix/workers.h\<close>) as a transition system.
  Threads \<open>0 .. num_threads - 1\<close> run \<open>w_process\<close>; every other thread is a client, and client
  \<open>num_threads\<close> runs \<open>w_create\<close>.  A program counter names the statement a thread executes next,
  and one step executes it on the shared \<open>workers\<close> structure and heap.  The mutex is its owner;
  the threads blocked in \<open>pthread_cond_wait\<close> are those at \<open>Waiting\<close>.  Reads that the code does
  without the lock see the current value of the field.  The choice which waiting thread a signal
  wakes is an argument of the step.  Two ghost lists record the jobs in the order they were
  posted and taken, a third one the jobs that were performed.
\<close>

section \<open>State\<close>

type_synonym job = "64 word \<times> 64 word"

datatype pc =
    Head | Head_Stop | Acquire | Test | Sleep | Waiting | Woken | Check
  | Break_Unlock | Break_Signal | Take_Fn | Take_Args "64 word" | Unlock job | Notify job
  | Perform job | Exited
  | Idle | Create int
  | Post_Lock job | Post_Fn job | Post_Args job | Post_Unlock | Post_Signal
  | Join_Test | Join_Stop | Join_Signal | Join_Wait int | Join_Free | Joined

record workers =
  w_num_threads :: int
  w_threads :: ptr
  w_stop :: bool
  w_jobs :: queue
  w_lock :: "nat option"

record pool = workers +
  hp :: heap
  pcs :: "nat \<Rightarrow> pc"
  posted :: "job list"
  taken :: "job list"
  performed :: "job list"

definition goto :: "nat \<Rightarrow> pc \<Rightarrow> pool \<Rightarrow> pool" where
  "goto t p s = s\<lparr>pcs := (pcs s)(t := p)\<rparr>"

section \<open>Mutex and condition variable\<close>

text \<open>A result \<open>None\<close> says that the thread is blocked.\<close>

definition mutex_lock :: "nat \<Rightarrow> pc \<Rightarrow> pool \<Rightarrow> pool result option" where
  "mutex_lock t p s = (if w_lock s = None then Some (Inr (goto t p (s\<lparr>w_lock := Some t\<rparr>))) else None)"

definition mutex_unlock :: "nat \<Rightarrow> pc \<Rightarrow> pool \<Rightarrow> pool result option" where
  "mutex_unlock t p s =
    (if w_lock s = Some t then Some (Inr (goto t p (s\<lparr>w_lock := None\<rparr>))) else Some (Inl Lock_Misuse))"

text \<open>\<open>pthread_cond_signal\<close> wakes one waiting thread \<open>u\<close>, or none when no thread waits.\<close>

definition cond_signal :: "nat option \<Rightarrow> nat \<Rightarrow> pc \<Rightarrow> pool \<Rightarrow> pool result option" where
  "cond_signal c t p s =
    (case c of
       None \<Rightarrow> if \<exists>u \<in> set [0..<nat (w_num_threads s)]. pcs s u = Waiting then None
               else Some (Inr (goto t p s))
     | Some u \<Rightarrow> if u < nat (w_num_threads s) \<and> pcs s u = Waiting
                 then Some (Inr (goto t p (goto u Woken s))) else None)"

section \<open>The threads\<close>

definition w_process_step :: "nat \<Rightarrow> nat option \<Rightarrow> pool \<Rightarrow> pool result option" where
  "w_process_step t c s =
    (case pcs s t of
       Head \<Rightarrow> Some (Inr (goto t (if \<not> q_is_empty (w_jobs s) then Acquire else Head_Stop) s))
     | Head_Stop \<Rightarrow> Some (Inr (goto t (if \<not> w_stop s then Acquire else Exited) s))
     | Acquire \<Rightarrow> mutex_lock t Test s
     | Test \<Rightarrow> Some (Inr (goto t (if q_is_empty (w_jobs s) \<and> \<not> w_stop s then Sleep else Check) s))
     | Sleep \<Rightarrow> mutex_unlock t Waiting s
     | Woken \<Rightarrow> mutex_lock t Test s
     | Check \<Rightarrow> Some (Inr (goto t (if q_is_empty (w_jobs s) \<and> w_stop s then Break_Unlock else Take_Fn) s))
     | Break_Unlock \<Rightarrow> mutex_unlock t Break_Signal s
     | Break_Signal \<Rightarrow> cond_signal c t Exited s
     | Take_Fn \<Rightarrow> Some (rbind (q_next (w_jobs s) (hp s)) (\<lambda>(f, q).
         Inr (goto t (Take_Args f) (s\<lparr>w_jobs := q\<rparr>))))
     | Take_Args f \<Rightarrow> Some (rbind (q_next (w_jobs s) (hp s)) (\<lambda>(a, q).
         Inr (goto t (Unlock (f, a)) (s\<lparr>w_jobs := q, taken := taken s @ [(f, a)]\<rparr>))))
     | Unlock j \<Rightarrow> mutex_unlock t (Notify j) s
     | Notify j \<Rightarrow> cond_signal c t (Perform j) s
     | Perform j \<Rightarrow>
         Some (if fst j = 0 then Inl Null_Deref
               else Inr (goto t Head (s\<lparr>performed := performed s @ [j]\<rparr>)))
     | _ \<Rightarrow> None)"

text \<open>The loop of \<open>w_create\<close> that starts the workers; the handle of thread \<open>i\<close> is \<open>i\<close>.\<close>

definition w_create_step :: "nat \<Rightarrow> pool \<Rightarrow> pool result option" where
  "w_create_step t s =
    (case pcs s t of
       Create i \<Rightarrow>
         if i < w_num_threads s
         then Some (rbind (store (w_threads s) i (word_of_int i) (hp s)) (\<lambda>h.
           Inr (goto t (Create (i + 1)) (goto (nat i) Head (s\<lparr>hp := h\<rparr>)))))
         else Some (Inr (goto t Idle s))
     | _ \<Rightarrow> None)"

definition w_create :: "int \<Rightarrow> heap \<Rightarrow> pool" where
  "w_create num_threads h =
    (let (jobs, h1) = q_create h;
         (threads, h2) = malloc (word_of_int num_threads * 8) h1
     in \<lparr>w_num_threads = num_threads, w_threads = threads, w_stop = False, w_jobs = jobs,
         w_lock = None, hp = h2, pcs = (\<lambda>_. Idle)(nat num_threads := Create 0),
         posted = [], taken = [], performed = []\<rparr>)"

definition w_post_step :: "nat \<Rightarrow> nat option \<Rightarrow> pool \<Rightarrow> pool result option" where
  "w_post_step t c s =
    (case pcs s t of
       Post_Lock j \<Rightarrow> mutex_lock t (Post_Fn j) s
     | Post_Fn j \<Rightarrow> Some (rbind (q_push (w_jobs s) (fst j) (hp s)) (\<lambda>(q, h).
         Inr (goto t (Post_Args j) (s\<lparr>w_jobs := q, hp := h\<rparr>))))
     | Post_Args j \<Rightarrow> Some (rbind (q_push (w_jobs s) (snd j) (hp s)) (\<lambda>(q, h).
         Inr (goto t Post_Unlock (s\<lparr>w_jobs := q, hp := h, posted := posted s @ [j]\<rparr>))))
     | Post_Unlock \<Rightarrow> mutex_unlock t Post_Signal s
     | Post_Signal \<Rightarrow> cond_signal c t Idle s
     | _ \<Rightarrow> None)"

definition w_join_step :: "nat \<Rightarrow> nat option \<Rightarrow> pool \<Rightarrow> pool result option" where
  "w_join_step t c s =
    (case pcs s t of
       Join_Test \<Rightarrow> Some (Inr (goto t (if w_stop s then Idle else Join_Stop) s))
     | Join_Stop \<Rightarrow> Some (Inr (goto t Join_Signal (s\<lparr>w_stop := True\<rparr>)))
     | Join_Signal \<Rightarrow> cond_signal c t (Join_Wait 0) s
     | Join_Wait i \<Rightarrow>
         if i < w_num_threads s
         then case load (w_threads s) i (hp s) of
             Inl e \<Rightarrow> Some (Inl e)
           | Inr u \<Rightarrow> if pcs s (unat u) = Exited then Some (Inr (goto t (Join_Wait (i + 1)) s)) else None
         else Some (Inr (goto t Join_Free s))
     | Join_Free \<Rightarrow> Some (rbind (free (w_threads s) (hp s)) (\<lambda>h. Inr (goto t Joined (s\<lparr>hp := h\<rparr>))))
     | _ \<Rightarrow> None)"

definition client_step :: "nat \<Rightarrow> nat option \<Rightarrow> pool \<Rightarrow> pool result option" where
  "client_step t c s =
    (case w_create_step t s of Some r \<Rightarrow> Some r
     | None \<Rightarrow> (case w_post_step t c s of Some r \<Rightarrow> Some r | None \<Rightarrow> w_join_step t c s))"

definition thread_step :: "nat \<Rightarrow> nat option \<Rightarrow> pool \<Rightarrow> pool result option" where
  "thread_step t c s = (if int t < w_num_threads s then w_process_step t c s else client_step t c s)"

text \<open>Client \<open>num_threads\<close> has created all workers, and no thread is inside \<open>w_join\<close>.\<close>

fun creating :: "pc \<Rightarrow> bool" where
  "creating (Create i) = True"
| "creating _ = False"

fun joining :: "pc \<Rightarrow> bool" where
  "joining Join_Test = True"
| "joining Join_Stop = True"
| "joining Join_Signal = True"
| "joining (Join_Wait i) = True"
| "joining Join_Free = True"
| "joining _ = False"

text \<open>
  A step of the pool: a thread executes a statement, a waiting thread wakes up spuriously, or an
  idle client calls \<open>w_post\<close> or \<open>w_join\<close>.  Calls start after \<open>w_create\<close> returned, and calls of
  \<open>w_join\<close> do not overlap; nothing else is assumed of the clients.
\<close>

inductive pool_step :: "pool \<Rightarrow> pool \<Rightarrow> bool" where
  run: "thread_step t c s = Some (Inr s') \<Longrightarrow> pool_step s s'"
| spurious: "pcs s t = Waiting \<Longrightarrow> pool_step s (goto t Woken s)"
| call_post: "pcs s t = Idle \<Longrightarrow> w_num_threads s \<le> int t \<Longrightarrow> \<not> creating (pcs s (nat (w_num_threads s))) \<Longrightarrow>
    pool_step s (goto t (Post_Lock j) s)"
| call_join: "pcs s t = Idle \<Longrightarrow> w_num_threads s \<le> int t \<Longrightarrow> \<not> creating (pcs s (nat (w_num_threads s))) \<Longrightarrow>
    \<forall>u. \<not> joining (pcs s u) \<Longrightarrow> pool_step s (goto t Join_Test s)"

inductive pool_reach :: "int \<Rightarrow> heap \<Rightarrow> pool \<Rightarrow> bool" for n h where
  start: "pool_reach n h (w_create n h)"
| step: "pool_reach n h s \<Longrightarrow> pool_step s s' \<Longrightarrow> pool_reach n h s'"

inductive_cases pool_stepE: "pool_step s s'"

section \<open>The steps by their effect\<close>

lemma goto_simps [simp]:
  "w_num_threads (goto t p s) = w_num_threads s" "w_threads (goto t p s) = w_threads s"
  "w_stop (goto t p s) = w_stop s" "w_jobs (goto t p s) = w_jobs s" "w_lock (goto t p s) = w_lock s"
  "hp (goto t p s) = hp s" "posted (goto t p s) = posted s" "taken (goto t p s) = taken s"
  "performed (goto t p s) = performed s"
  by (simp_all add: goto_def)

lemma pcs_goto [simp]: "pcs (goto t p s) u = (if u = t then p else pcs s u)"
  by (simp add: goto_def)

fun locks :: "pc \<Rightarrow> pc option" where
  "locks Acquire = Some Test"
| "locks Woken = Some Test"
| "locks (Post_Lock j) = Some (Post_Fn j)"
| "locks _ = None"

fun unlocks :: "pc \<Rightarrow> pc option" where
  "unlocks Sleep = Some Waiting"
| "unlocks Break_Unlock = Some Break_Signal"
| "unlocks (Unlock j) = Some (Notify j)"
| "unlocks Post_Unlock = Some Post_Signal"
| "unlocks _ = None"

fun signals :: "pc \<Rightarrow> pc option" where
  "signals Break_Signal = Some Exited"
| "signals (Notify j) = Some (Perform j)"
| "signals Post_Signal = Some Idle"
| "signals Join_Signal = Some (Join_Wait 0)"
| "signals _ = None"

text \<open>The steps that only move the program counter, with the test they make.\<close>

fun moves :: "pool \<Rightarrow> pc \<Rightarrow> pc \<Rightarrow> bool" where
  "moves s Head p \<longleftrightarrow> p = Acquire \<or> p = Head_Stop"
| "moves s Head_Stop p \<longleftrightarrow> p = Acquire \<or> p = Exited \<and> w_stop s"
| "moves s Test p \<longleftrightarrow> (if q_is_empty (w_jobs s) \<and> \<not> w_stop s then p = Sleep else p = Check)"
| "moves s Check p \<longleftrightarrow> (if q_is_empty (w_jobs s) \<and> w_stop s then p = Break_Unlock else p = Take_Fn)"
| "moves s Waiting p \<longleftrightarrow> p = Woken"
| "moves s Join_Test p \<longleftrightarrow> (if w_stop s then p = Idle else p = Join_Stop)"
| "moves s (Join_Wait i) p \<longleftrightarrow>
     (if i < w_num_threads s
      then p = Join_Wait (i + 1) \<and>
        (\<exists>u. load (w_threads s) i (hp s) = Inr u \<and> pcs s (unat u) = Exited)
      else p = Join_Free)"
| "moves s _ p \<longleftrightarrow> False"

inductive effect :: "nat \<Rightarrow> pool \<Rightarrow> pool \<Rightarrow> bool" where
  move: "moves s (pcs s t) p \<Longrightarrow> effect t s (goto t p s)"
| lock: "locks (pcs s t) = Some p \<Longrightarrow> w_lock s = None \<Longrightarrow> effect t s (goto t p (s\<lparr>w_lock := Some t\<rparr>))"
| unlock: "unlocks (pcs s t) = Some p \<Longrightarrow> w_lock s = Some t \<Longrightarrow> effect t s (goto t p (s\<lparr>w_lock := None\<rparr>))"
| wake: "signals (pcs s t) = Some p \<Longrightarrow> pcs s u = Waiting \<Longrightarrow> effect t s (goto t p (goto u Woken s))"
| signal: "signals (pcs s t) = Some p \<Longrightarrow> \<forall>u. int u < w_num_threads s \<longrightarrow> pcs s u \<noteq> Waiting \<Longrightarrow>
    effect t s (goto t p s)"
| take_fn: "pcs s t = Take_Fn \<Longrightarrow> q_next (w_jobs s) (hp s) = Inr (f, q) \<Longrightarrow>
    effect t s (goto t (Take_Args f) (s\<lparr>w_jobs := q\<rparr>))"
| take_args: "pcs s t = Take_Args f \<Longrightarrow> q_next (w_jobs s) (hp s) = Inr (a, q) \<Longrightarrow>
    effect t s (goto t (Unlock (f, a)) (s\<lparr>w_jobs := q, taken := taken s @ [(f, a)]\<rparr>))"
| perform: "pcs s t = Perform j \<Longrightarrow> effect t s (goto t Head (s\<lparr>performed := performed s @ [j]\<rparr>))"
| create: "pcs s t = Create i \<Longrightarrow> i < w_num_threads s \<Longrightarrow> store (w_threads s) i (word_of_int i) (hp s) = Inr h \<Longrightarrow>
    effect t s (goto t (Create (i + 1)) (goto (nat i) Head (s\<lparr>hp := h\<rparr>)))"
| created: "pcs s t = Create i \<Longrightarrow> \<not> i < w_num_threads s \<Longrightarrow> effect t s (goto t Idle s)"
| push_fn: "pcs s t = Post_Fn j \<Longrightarrow> q_push (w_jobs s) (fst j) (hp s) = Inr (q, h) \<Longrightarrow>
    effect t s (goto t (Post_Args j) (s\<lparr>w_jobs := q, hp := h\<rparr>))"
| push_args: "pcs s t = Post_Args j \<Longrightarrow> q_push (w_jobs s) (snd j) (hp s) = Inr (q, h) \<Longrightarrow>
    effect t s (goto t Post_Unlock (s\<lparr>w_jobs := q, hp := h, posted := posted s @ [j]\<rparr>))"
| stop: "pcs s t = Join_Stop \<Longrightarrow> effect t s (goto t Join_Signal (s\<lparr>w_stop := True\<rparr>))"
| release: "pcs s t = Join_Free \<Longrightarrow> free (w_threads s) (hp s) = Inr h \<Longrightarrow>
    effect t s (goto t Joined (s\<lparr>hp := h\<rparr>))"
| call_post: "pcs s t = Idle \<Longrightarrow> w_num_threads s \<le> int t \<Longrightarrow> \<not> creating (pcs s (nat (w_num_threads s))) \<Longrightarrow>
    effect t s (goto t (Post_Lock j) s)"
| call_join: "pcs s t = Idle \<Longrightarrow> w_num_threads s \<le> int t \<Longrightarrow> \<not> creating (pcs s (nat (w_num_threads s))) \<Longrightarrow>
    \<forall>u. \<not> joining (pcs s u) \<Longrightarrow> effect t s (goto t Join_Test s)"

lemma mutex_lock_effect:
  "mutex_lock t p s = Some (Inr s') \<Longrightarrow> locks (pcs s t) = Some p \<Longrightarrow> effect t s s'"
  by (auto simp: mutex_lock_def split: if_splits intro: effect.lock)

lemma mutex_unlock_effect:
  "mutex_unlock t p s = Some (Inr s') \<Longrightarrow> unlocks (pcs s t) = Some p \<Longrightarrow> effect t s s'"
  by (auto simp: mutex_unlock_def split: if_splits intro: effect.unlock)

lemma cond_signal_effect:
  "cond_signal c t p s = Some (Inr s') \<Longrightarrow> signals (pcs s t) = Some p \<Longrightarrow> effect t s s'"
  by (auto simp: cond_signal_def split: if_splits option.splits intro!: effect.wake effect.signal)

lemma w_process_effect:
  assumes "w_process_step t c s = Some (Inr s')"
  shows "effect t s s'"
proof (cases "pcs s t")
  case (Take_Args f)
  then show ?thesis using assms
    by (auto simp: w_process_step_def rbind_Inr_iff intro: effect.take_args)
next
  case Take_Fn
  then show ?thesis using assms
    by (auto simp: w_process_step_def rbind_Inr_iff intro: effect.take_fn)
next
  case (Perform j)
  then show ?thesis using assms
    by (auto simp: w_process_step_def split: if_splits intro: effect.perform)
qed (use assms in \<open>auto simp: w_process_step_def intro: mutex_lock_effect mutex_unlock_effect
      cond_signal_effect effect.move\<close>)

lemma w_create_effect: "w_create_step t s = Some (Inr s') \<Longrightarrow> effect t s s'"
  by (cases "pcs s t") (auto simp: w_create_step_def rbind_Inr_iff split: if_splits
      intro: effect.create effect.created)

lemma w_post_effect:
  assumes "w_post_step t c s = Some (Inr s')"
  shows "effect t s s'"
  using assms by (cases "pcs s t")
    (auto simp: w_post_step_def rbind_Inr_iff intro: mutex_lock_effect mutex_unlock_effect
      cond_signal_effect effect.push_fn effect.push_args)

lemma w_join_effect:
  assumes "w_join_step t c s = Some (Inr s')"
  shows "effect t s s'"
proof (cases "pcs s t")
  case (Join_Wait i)
  then show ?thesis using assms
    by (auto simp: w_join_step_def split: if_splits sum.splits intro: effect.move)
qed (use assms in \<open>auto simp: w_join_step_def rbind_Inr_iff intro: cond_signal_effect effect.move effect.stop
      effect.release\<close>)

lemma pool_step_effect:
  assumes "pool_step s s'"
  shows "\<exists>t. effect t s s'"
  using assms
proof (cases rule: pool_step.cases)
  case (run t c)
  then show ?thesis
    unfolding thread_step_def client_step_def
    by (auto split: if_splits option.splits intro: w_process_effect w_create_effect w_post_effect w_join_effect)
next
  case (spurious t)
  then show ?thesis using effect.move[of s t Woken] by auto
qed (auto intro: effect.call_post effect.call_join)

section \<open>Roles and creation\<close>

fun worker_pc :: "pc \<Rightarrow> bool" where
  "worker_pc Idle = False"
| "worker_pc (Create i) = False"
| "worker_pc (Post_Lock j) = False"
| "worker_pc (Post_Fn j) = False"
| "worker_pc (Post_Args j) = False"
| "worker_pc Post_Unlock = False"
| "worker_pc Post_Signal = False"
| "worker_pc Join_Test = False"
| "worker_pc Join_Stop = False"
| "worker_pc Join_Signal = False"
| "worker_pc (Join_Wait i) = False"
| "worker_pc Join_Free = False"
| "worker_pc Joined = False"
| "worker_pc _ = True"

text \<open>Created workers run worker code, nobody else does; \<open>made s\<close> workers are created.\<close>

fun made_at :: "int \<Rightarrow> pc \<Rightarrow> int" where
  "made_at n (Create i) = i"
| "made_at n _ = n"

definition made :: "pool \<Rightarrow> int" where
  "made s = made_at (w_num_threads s) (pcs s (nat (w_num_threads s)))"

lemma made_at_done: "\<not> creating p \<Longrightarrow> made_at n p = n"
  by (cases p) auto

definition roles :: "pool \<Rightarrow> bool" where
  "roles s \<longleftrightarrow> (\<forall>t. worker_pc (pcs s t) \<longleftrightarrow> int t < made s)"

definition creation :: "pool \<Rightarrow> bool" where
  "creation s \<longleftrightarrow> 0 \<le> made s \<and> made s \<le> w_num_threads s \<and>
    (\<forall>t. creating (pcs s t) \<longrightarrow> t = nat (w_num_threads s)) \<and>
    (\<forall>t. int t < w_num_threads s \<longrightarrow> made s \<le> int t \<longrightarrow> pcs s t = Idle)"

lemma moves_kind:
  "moves s p q \<Longrightarrow> worker_pc q = worker_pc p" "locks p = Some q \<Longrightarrow> worker_pc q = worker_pc p"
  "unlocks p = Some q \<Longrightarrow> worker_pc q = worker_pc p" "signals p = Some q \<Longrightarrow> worker_pc q = worker_pc p"
  by (cases p; auto split: if_splits)+

lemma moves_creating:
  "moves s p q \<Longrightarrow> \<not> creating p \<and> \<not> creating q" "locks p = Some q \<Longrightarrow> \<not> creating p \<and> \<not> creating q"
  "unlocks p = Some q \<Longrightarrow> \<not> creating p \<and> \<not> creating q" "signals p = Some q \<Longrightarrow> \<not> creating p \<and> \<not> creating q"
  by (cases p; auto split: if_splits)+

lemma moves_from:
  "moves s p q \<Longrightarrow> p \<noteq> Idle" "locks p = Some q \<Longrightarrow> p \<noteq> Idle"
  "unlocks p = Some q \<Longrightarrow> p \<noteq> Idle" "signals p = Some q \<Longrightarrow> p \<noteq> Idle"
  by (cases p; auto)+

lemma made_upd [simp]:
  "made (s\<lparr>w_lock := l\<rparr>) = made s" "made (s\<lparr>w_jobs := q\<rparr>) = made s" "made (s\<lparr>w_stop := b\<rparr>) = made s"
  "made (s\<lparr>hp := h\<rparr>) = made s" "made (s\<lparr>posted := js\<rparr>) = made s" "made (s\<lparr>taken := js\<rparr>) = made s"
  "made (s\<lparr>performed := js\<rparr>) = made s"
  by (simp_all add: made_def)

lemma made_goto: "\<not> creating (pcs s t) \<Longrightarrow> \<not> creating p \<Longrightarrow> made (goto t p s) = made s"
  by (auto simp: made_def made_at_done)

lemma roles_upd [simp]:
  "roles (s\<lparr>w_lock := l\<rparr>) = roles s" "roles (s\<lparr>w_jobs := q\<rparr>) = roles s" "roles (s\<lparr>w_stop := b\<rparr>) = roles s"
  "roles (s\<lparr>hp := h\<rparr>) = roles s" "roles (s\<lparr>posted := js\<rparr>) = roles s" "roles (s\<lparr>taken := js\<rparr>) = roles s"
  "roles (s\<lparr>performed := js\<rparr>) = roles s"
  by (simp_all add: roles_def)

lemma creation_upd [simp]:
  "creation (s\<lparr>w_lock := l\<rparr>) = creation s" "creation (s\<lparr>w_jobs := q\<rparr>) = creation s"
  "creation (s\<lparr>w_stop := b\<rparr>) = creation s" "creation (s\<lparr>hp := h\<rparr>) = creation s"
  "creation (s\<lparr>posted := js\<rparr>) = creation s" "creation (s\<lparr>taken := js\<rparr>) = creation s"
  "creation (s\<lparr>performed := js\<rparr>) = creation s"
  by (simp_all add: creation_def)

lemma roles_goto:
  assumes "roles s" and "worker_pc p = worker_pc (pcs s t)" and "\<not> creating (pcs s t)" and "\<not> creating p"
  shows "roles (goto t p s)"
  using assms(1,2) by (auto simp: roles_def made_goto[OF assms(3,4)])

lemma creation_goto:
  assumes "creation s" and "\<not> creating (pcs s t)" and "\<not> creating p" and "made s \<le> int t \<longrightarrow> int t < w_num_threads s \<longrightarrow> p = Idle"
  shows "creation (goto t p s)"
  using assms by (auto simp: creation_def made_goto[OF assms(2,3)])

definition base_inv :: "pool \<Rightarrow> bool" where
  "base_inv s \<longleftrightarrow> roles s \<and> creation s"

lemma base_goto:
  assumes "base_inv s" and "worker_pc p = worker_pc (pcs s t)" and "\<not> creating (pcs s t) \<and> \<not> creating p"
    and "pcs s t \<noteq> Idle \<or> w_num_threads s \<le> int t"
  shows "base_inv (goto t p s)"
proof -
  have "made s \<le> int t \<longrightarrow> int t < w_num_threads s \<longrightarrow> p = Idle"
    using assms(1,4) by (auto simp: base_inv_def creation_def)
  then show ?thesis using assms by (simp add: base_inv_def roles_goto creation_goto)
qed

lemma base_upd [simp]:
  "base_inv (s\<lparr>w_lock := l\<rparr>) = base_inv s" "base_inv (s\<lparr>w_jobs := q\<rparr>) = base_inv s"
  "base_inv (s\<lparr>w_stop := b\<rparr>) = base_inv s" "base_inv (s\<lparr>hp := h\<rparr>) = base_inv s"
  "base_inv (s\<lparr>posted := js\<rparr>) = base_inv s" "base_inv (s\<lparr>taken := js\<rparr>) = base_inv s"
  "base_inv (s\<lparr>performed := js\<rparr>) = base_inv s"
  by (simp_all add: base_inv_def)

lemma creator:
  assumes "base_inv s" and "pcs s t = Create i"
  shows "t = nat (w_num_threads s)" and "made s = i" and "0 \<le> i" and "i \<le> w_num_threads s"
    and "i < w_num_threads s \<Longrightarrow> pcs s (nat i) = Idle \<and> nat i \<noteq> t"
proof -
  show t: "t = nat (w_num_threads s)" using assms by (auto simp: base_inv_def creation_def)
  show m: "made s = i" using assms t by (simp add: made_def)
  show i: "0 \<le> i" "i \<le> w_num_threads s" using assms m by (auto simp: base_inv_def creation_def)
  show "pcs s (nat i) = Idle \<and> nat i \<noteq> t" if "i < w_num_threads s"
    using that assms(1) i m t by (auto simp: base_inv_def creation_def)
qed

lemma base_create:
  assumes "base_inv s" and "pcs s t = Create i" and "i < w_num_threads s"
  shows "base_inv (goto t (Create (i + 1)) (goto (nat i) Head s))"
proof -
  note c = creator[OF assms(1,2)]
  let ?s = "goto t (Create (i + 1)) (goto (nat i) Head s)"
  have m: "made ?s = i + 1" using c by (simp add: made_def)
  have i: "pcs s (nat i) = Idle" "nat i \<noteq> t" "0 \<le> i" "int t = w_num_threads s" using c assms(3) by auto
  have r: "worker_pc (pcs s u) \<longleftrightarrow> int u < i" for u
    using assms(1) c(2) by (simp add: base_inv_def roles_def)
  have "worker_pc (pcs ?s u) \<longleftrightarrow> int u < i + 1" for u
    using r[of u] i assms(3) by (cases "u = t"; cases "u = nat i") auto
  moreover have "creating (pcs s u) \<longrightarrow> u = t" "int u < w_num_threads s \<longrightarrow> i \<le> int u \<longrightarrow> pcs s u = Idle" for u
    using assms(1) c(1,2) by (simp_all add: base_inv_def creation_def)
  ultimately show ?thesis
    unfolding base_inv_def roles_def creation_def m using assms(3) c(1) i(3) by auto
qed

lemma base_created:
  assumes "base_inv s" and "pcs s t = Create i" and "\<not> i < w_num_threads s"
  shows "base_inv (goto t Idle s)"
proof -
  note c = creator[OF assms(1,2)]
  have m: "made (goto t Idle s) = i" using c(1,4) assms(3) by (simp add: made_def)
  show ?thesis
    using assms c(1-4) m by (auto simp: base_inv_def roles_def creation_def)
qed

lemma base_wake: "base_inv s \<Longrightarrow> pcs s u = Waiting \<Longrightarrow> base_inv (goto u Woken s)"
  by (rule base_goto) simp_all

lemma base_effect:
  assumes "effect t s s'" and "base_inv s"
  shows "base_inv s'"
  using assms
proof (cases rule: effect.cases)
  case (move p)
  then show ?thesis using assms(2) moves_kind(1) moves_creating(1) moves_from(1) by (metis base_goto)
next
  case (lock p)
  then show ?thesis
    using assms(2) base_goto[of "s\<lparr>w_lock := Some t\<rparr>" p t] moves_kind(2) moves_creating(2) moves_from(2) by simp
next
  case (unlock p)
  then show ?thesis
    using assms(2) base_goto[of "s\<lparr>w_lock := None\<rparr>" p t] moves_kind(3) moves_creating(3) moves_from(3) by simp
next
  case (wake p u)
  then have "u \<noteq> t" by auto
  then show ?thesis
    using wake base_goto[OF base_wake[OF assms(2) wake(3)], of p t]
      moves_kind(4) moves_creating(4) moves_from(4) by simp
next
  case (signal p)
  then show ?thesis using assms(2) moves_kind(4) moves_creating(4) moves_from(4) by (metis base_goto)
next
  case (create i h)
  then show ?thesis using base_create[of "s\<lparr>hp := h\<rparr>" t i] assms(2) by simp
next
  case (created i)
  then show ?thesis using base_created[OF assms(2)] by simp
qed (use assms(2) in \<open>auto intro!: base_goto\<close>)

section \<open>The lock and the joining thread\<close>

fun critical :: "pc \<Rightarrow> bool" where
  "critical Test = True"
| "critical Sleep = True"
| "critical Check = True"
| "critical Break_Unlock = True"
| "critical Take_Fn = True"
| "critical (Take_Args f) = True"
| "critical (Unlock j) = True"
| "critical (Post_Fn j) = True"
| "critical (Post_Args j) = True"
| "critical Post_Unlock = True"
| "critical _ = False"

definition lock_inv :: "pool \<Rightarrow> bool" where
  "lock_inv s \<longleftrightarrow> (\<forall>t. critical (pcs s t) \<longleftrightarrow> w_lock s = Some t)"

lemma critical_kind:
  "moves s p q \<Longrightarrow> critical q = critical p" "locks p = Some q \<Longrightarrow> \<not> critical p \<and> critical q"
  "unlocks p = Some q \<Longrightarrow> critical p \<and> \<not> critical q" "signals p = Some q \<Longrightarrow> \<not> critical p \<and> \<not> critical q"
  by (cases p; auto split: if_splits)+

lemma lock_upd [simp]:
  "lock_inv (s\<lparr>w_jobs := q\<rparr>) = lock_inv s" "lock_inv (s\<lparr>w_stop := b\<rparr>) = lock_inv s"
  "lock_inv (s\<lparr>hp := h\<rparr>) = lock_inv s" "lock_inv (s\<lparr>posted := js\<rparr>) = lock_inv s"
  "lock_inv (s\<lparr>taken := js\<rparr>) = lock_inv s" "lock_inv (s\<lparr>performed := js\<rparr>) = lock_inv s"
  by (simp_all add: lock_inv_def)

lemma lock_goto: "lock_inv s \<Longrightarrow> critical p = critical (pcs s t) \<Longrightarrow> lock_inv (goto t p s)"
  by (simp add: lock_inv_def)

lemma lock_effect:
  assumes "effect t s s'" and "base_inv s" and "lock_inv s"
  shows "lock_inv s'"
  using assms(1)
proof (cases rule: effect.cases)
  case (move p)
  then show ?thesis using assms(3) critical_kind(1)[OF move(2)] by (simp add: lock_goto)
next
  case (lock p)
  then show ?thesis using assms(3) critical_kind(2)[OF lock(2)] by (auto simp: lock_inv_def)
next
  case (unlock p)
  then show ?thesis using assms(3) critical_kind(3)[OF unlock(2)] by (auto simp: lock_inv_def)
next
  case (wake p u)
  have "lock_inv (goto u Woken s)" using wake(3) assms(3) by (intro lock_goto) simp_all
  moreover have "u \<noteq> t" using wake(2,3) by auto
  ultimately show ?thesis using wake(1) critical_kind(4)[OF wake(2)] by (simp add: lock_goto)
next
  case (signal p)
  then show ?thesis using assms(3) critical_kind(4)[OF signal(2)] by (simp add: lock_goto)
next
  case (create i h)
  note c = creator(5)[OF assms(2) create(2,3)]
  have "lock_inv (goto (nat i) Head (s\<lparr>hp := h\<rparr>))" using assms(3) c by (intro lock_goto) simp_all
  then show ?thesis unfolding create(1) by (rule lock_goto) (use create(2) c in simp_all)
qed (use assms(3) in \<open>auto intro!: lock_goto\<close>)

text \<open>At most one thread is inside \<open>w_join\<close>, and at most one ever gets past its test of \<open>_stop\<close>.\<close>

fun past_test :: "pc \<Rightarrow> bool" where
  "past_test Join_Stop = True"
| "past_test Join_Signal = True"
| "past_test (Join_Wait i) = True"
| "past_test Join_Free = True"
| "past_test Joined = True"
| "past_test _ = False"

definition unique :: "(pc \<Rightarrow> bool) \<Rightarrow> pool \<Rightarrow> bool" where
  "unique P s \<longleftrightarrow> (\<forall>t u. P (pcs s t) \<longrightarrow> P (pcs s u) \<longrightarrow> t = u)"

definition stop_ok :: "bool \<Rightarrow> pc \<Rightarrow> bool" where
  "stop_ok b p \<longleftrightarrow> (if p = Join_Stop then \<not> b else past_test p \<longrightarrow> b)"

definition joiners :: "pool \<Rightarrow> bool" where
  "joiners s \<longleftrightarrow> unique joining s \<and> unique past_test s \<and> (\<forall>t. stop_ok (w_stop s) (pcs s t)) \<and>
    (\<forall>t. joining (pcs s t) \<or> past_test (pcs s t) \<longrightarrow> \<not> creating (pcs s (nat (w_num_threads s))))"

lemma unique_stop [simp]: "unique P (s\<lparr>w_stop := b\<rparr>) = unique P s"
  by (simp add: unique_def)

lemma joiners_upd [simp]:
  "joiners (s\<lparr>w_lock := l\<rparr>) = joiners s" "joiners (s\<lparr>w_jobs := q\<rparr>) = joiners s"
  "joiners (s\<lparr>hp := h\<rparr>) = joiners s" "joiners (s\<lparr>posted := js\<rparr>) = joiners s"
  "joiners (s\<lparr>taken := js\<rparr>) = joiners s" "joiners (s\<lparr>performed := js\<rparr>) = joiners s"
  by (simp_all add: joiners_def unique_def)

lemma unique_goto: "unique P s \<Longrightarrow> P p \<longrightarrow> P (pcs s t) \<Longrightarrow> unique P (goto t p s)"
  unfolding unique_def pcs_goto by metis

lemma unique_new: "\<forall>u. u \<noteq> t \<longrightarrow> \<not> P (pcs s u) \<Longrightarrow> unique P (goto t p s)"
  unfolding unique_def pcs_goto by metis

lemma uniqueD: "unique P s \<Longrightarrow> P (pcs s t) \<Longrightarrow> u \<noteq> t \<Longrightarrow> \<not> P (pcs s u)"
  unfolding unique_def by metis

lemma joiners_goto:
  assumes "joiners s" and "joining p \<longrightarrow> joining (pcs s t)" and "past_test p \<longrightarrow> past_test (pcs s t)"
    and "p \<noteq> Join_Stop" and "past_test p \<longrightarrow> pcs s t \<noteq> Join_Stop" and "\<not> creating p \<or> creating (pcs s t)"
  shows "joiners (goto t p s)"
proof -
  have "stop_ok (w_stop s) p" using assms unfolding joiners_def stop_ok_def by metis
  moreover have "joining (pcs (goto t p s) u) \<or> past_test (pcs (goto t p s) u) \<Longrightarrow>
      \<not> creating (pcs (goto t p s) (nat (w_num_threads s)))" for u
    using assms unfolding joiners_def pcs_goto by metis
  ultimately show ?thesis
    using assms unique_goto[of joining s p t] unique_goto[of past_test s p t]
    by (simp add: joiners_def)
qed

lemma moves_joining:
  "moves s p q \<Longrightarrow> p \<noteq> Join_Test \<Longrightarrow> (joining q \<longrightarrow> joining p) \<and> (past_test q \<longrightarrow> past_test p) \<and> q \<noteq> Join_Stop \<and>
    (past_test q \<longrightarrow> p \<noteq> Join_Stop) \<and> \<not> creating q"
  "locks p = Some q \<Longrightarrow> \<not> joining q \<and> \<not> past_test q \<and> q \<noteq> Join_Stop \<and> \<not> creating q"
  "unlocks p = Some q \<Longrightarrow> \<not> joining q \<and> \<not> past_test q \<and> q \<noteq> Join_Stop \<and> \<not> creating q"
  "signals p = Some q \<Longrightarrow> (joining q \<longrightarrow> joining p) \<and> (past_test q \<longrightarrow> past_test p) \<and> q \<noteq> Join_Stop \<and>
    (past_test q \<longrightarrow> p \<noteq> Join_Stop) \<and> \<not> creating q"
  by (cases p; auto split: if_splits)+

lemma joiners_effect:
  assumes "effect t s s'" and "base_inv s" and "joiners s"
  shows "joiners s'"
  using assms(1)
proof (cases rule: effect.cases)
  case (move p)
  show ?thesis
  proof (cases "pcs s t = Join_Test")
    case True
    show ?thesis
    proof (cases "w_stop s")
      case True
      then show ?thesis using assms(3) move \<open>pcs s t = Join_Test\<close> by (auto intro: joiners_goto)
    next
      case False
      then have p: "p = Join_Stop" using move(2) \<open>pcs s t = Join_Test\<close> by simp
      have none: "\<not> past_test (pcs s u)" if "u \<noteq> t" for u
      proof
        assume u: "past_test (pcs s u)"
        then have "pcs s u = Join_Stop"
          using assms(3) False by (metis joiners_def stop_ok_def)
        then have "joining (pcs s u)" by simp
        then show False using uniqueD[of joining s t u] assms(3) that \<open>pcs s t = Join_Test\<close>
          by (simp add: joiners_def)
      qed
      have "unique past_test (goto t Join_Stop s)" using none by (intro unique_new) blast
      moreover have "unique joining (goto t Join_Stop s)"
        using assms(3) \<open>pcs s t = Join_Test\<close> by (intro unique_goto) (simp_all add: joiners_def)
      moreover have "\<not> creating (pcs s (nat (w_num_threads s)))"
        using assms(3) \<open>pcs s t = Join_Test\<close> unfolding joiners_def by (metis joining.simps(1))
      ultimately show ?thesis
        unfolding move(1) p using assms(3) False none by (auto simp: joiners_def stop_ok_def)
    qed
  next
    case False
    then show ?thesis using assms(3) moves_joining(1)[OF move(2) False] move(1) by (auto intro: joiners_goto)
  qed
next
  case (lock p)
  then show ?thesis using lock(1) joiners_goto[of "s\<lparr>w_lock := Some t\<rparr>" p t] assms(3) moves_joining(2)[OF lock(2)] by auto
next
  case (unlock p)
  then show ?thesis using joiners_goto[of "s\<lparr>w_lock := None\<rparr>" p t] assms(3) moves_joining(3)[OF unlock(2)] by auto
next
  case (wake p u)
  have "joiners (goto u Woken s)" using wake(3) assms(3) by (intro joiners_goto) simp_all
  moreover have "u \<noteq> t" using wake(2,3) by auto
  ultimately show ?thesis using wake(1) moves_joining(4)[OF wake(2)] by (auto intro: joiners_goto)
next
  case (signal p)
  then show ?thesis using assms(3) moves_joining(4)[OF signal(2)] by (auto intro: joiners_goto)
next
  case (create i h)
  note c = creator(5)[OF assms(2) create(2,3)]
  have "joiners (goto (nat i) Head s)" using assms(3) c by (intro joiners_goto) simp_all
  then show ?thesis using create c joiners_goto[of "goto (nat i) Head (s\<lparr>hp := h\<rparr>)" "Create (i + 1)" t]
      joiners_goto[of "s\<lparr>hp := h\<rparr>" Head "nat i"] assms(3) by simp
next
  case stop
  let ?s = "goto t Join_Signal (s\<lparr>w_stop := True\<rparr>)"
  have j: "unique joining s" "unique past_test s" using assms(3) by (simp_all add: joiners_def)
  have "\<not> creating (pcs s (nat (w_num_threads s)))"
    using assms(3) stop(2) unfolding joiners_def by (metis joining.simps(2))
  moreover have "unique joining ?s" using j stop(2) by (intro unique_goto) simp_all
  moreover have "unique past_test ?s" using j stop(2) by (intro unique_goto) simp_all
  moreover have "pcs s u \<noteq> Join_Stop" if "u \<noteq> t" for u
    using uniqueD[of joining s t u] j(1) stop(2) that by auto
  ultimately have "joiners ?s" by (simp add: joiners_def stop_ok_def)
  then show ?thesis using stop(1) by simp
next
  case release
  then show ?thesis using assms(3) by (auto intro: joiners_goto)
next
  case call_join
  have "joiners (goto t Join_Test s)"
    using assms(3) call_join unique_new[of t joining s Join_Test] unique_goto[of past_test s Join_Test t]
    by (auto simp: joiners_def stop_ok_def)
  then show ?thesis using call_join(1) by simp
qed (use assms(3) in \<open>auto intro!: joiners_goto\<close>)

end
