(* ===== verification/Pool_Invariants.thy ===== *)
theory Pool_Invariants
  imports Worker_Pool
begin

text \<open>
  The invariants of the thread pool that rest on its data: the block of thread handles, whom
  \<open>w_join\<close> has waited for, what the queue holds in terms of whole jobs, which jobs are in the
  hands of workers, and that a posted job is announced to a waiting worker.  Each is kept by every
  \<open>effect\<close>; \<open>pool_inv\<close> is their conjunction and \<open>pool_reach_inv\<close> says that it holds in every
  state reached from \<open>w_create\<close>.
\<close>

section \<open>The block of thread handles\<close>

definition block_inv :: "pool \<Rightarrow> bool" where
  "block_inv s \<longleftrightarrow> (\<forall>t. pcs s t \<noteq> Joined) \<longrightarrow>
    w_threads s \<noteq> 0 \<and> w_threads s \<noteq> q_data (w_jobs s) \<and>
    (\<exists>cs. mem (hp s) (w_threads s) = Some cs \<and> int (length cs) = w_num_threads s \<and>
      (\<forall>i. int i < made s \<longrightarrow> cs ! i = Some (word_of_nat i)))"

lemma block_upd [simp]:
  "block_inv (s\<lparr>w_lock := l\<rparr>) = block_inv s" "block_inv (s\<lparr>w_stop := b\<rparr>) = block_inv s"
  "block_inv (s\<lparr>posted := js\<rparr>) = block_inv s" "block_inv (s\<lparr>taken := js\<rparr>) = block_inv s"
  "block_inv (s\<lparr>performed := js\<rparr>) = block_inv s"
  by (simp_all add: block_inv_def)

lemma block_goto:
  assumes "block_inv s" and "pcs s t \<noteq> Joined" and "made (goto t p s) = made s"
  shows "block_inv (goto t p s)"
  using assms by (auto simp: block_inv_def)

lemma block_move:
  assumes "block_inv s" and "pcs s t \<noteq> Joined" and "\<not> creating (pcs s t) \<and> \<not> creating p"
  shows "block_inv (goto t p s)"
  using assms by (intro block_goto) (simp_all add: made_goto)

lemma block_Joined: "block_inv (goto t Joined s)"
  by (auto simp: block_inv_def)

lemma moves_not_Joined:
  "moves s p q \<Longrightarrow> p \<noteq> Joined" "locks p = Some q \<Longrightarrow> p \<noteq> Joined"
  "unlocks p = Some q \<Longrightarrow> p \<noteq> Joined" "signals p = Some q \<Longrightarrow> p \<noteq> Joined"
  by (cases p; auto)+

lemma q_next_data: "q_next q h = Inr (v, q') \<Longrightarrow> q_data q' = q_data q"
  by (auto simp: q_next_def rbind_Inr_iff split: if_splits)

lemmas q_push_InrD = q_push_frame [THEN conjunct1] q_push_frame [THEN conjunct2, THEN conjunct1]
  q_push_frame [THEN conjunct2, THEN conjunct2]

lemma block_next: "block_inv s \<Longrightarrow> q_next (w_jobs s) (hp s) = Inr (v, q) \<Longrightarrow> block_inv (s\<lparr>w_jobs := q\<rparr>)"
  by (auto simp: block_inv_def dest: q_next_data)

lemma block_push:
  assumes "block_inv s" and "q_inv (w_jobs s) (hp s)" and "q_push (w_jobs s) v (hp s) = Inr (q, h)"
  shows "block_inv (s\<lparr>w_jobs := q, hp := h\<rparr>)"
  unfolding block_inv_def
proof (intro impI)
  assume "\<forall>t. pcs (s\<lparr>w_jobs := q, hp := h\<rparr>) t \<noteq> Joined"
  then obtain cs where b: "w_threads s \<noteq> 0" "w_threads s \<noteq> q_data (w_jobs s)"
    "mem (hp s) (w_threads s) = Some cs" "int (length cs) = w_num_threads s"
    "\<forall>i. int i < made s \<longrightarrow> cs ! i = Some (word_of_nat i)"
    using assms(1) by (auto simp: block_inv_def)
  note r = q_push_InrD(3)[OF assms(2,3)]
  have "mem h (w_threads s) = Some cs" using replaced_other[OF r, of "w_threads s"] b(2,3) by simp
  moreover have "w_threads s \<noteq> q_data q" using r b(2,3) by (auto simp: replaced_def)
  ultimately show "w_threads (s\<lparr>w_jobs := q, hp := h\<rparr>) \<noteq> 0 \<and>
    w_threads (s\<lparr>w_jobs := q, hp := h\<rparr>) \<noteq> q_data (w_jobs (s\<lparr>w_jobs := q, hp := h\<rparr>)) \<and>
    (\<exists>cs. mem (hp (s\<lparr>w_jobs := q, hp := h\<rparr>)) (w_threads (s\<lparr>w_jobs := q, hp := h\<rparr>)) = Some cs \<and>
      int (length cs) = w_num_threads (s\<lparr>w_jobs := q, hp := h\<rparr>) \<and>
      (\<forall>i. int i < made (s\<lparr>w_jobs := q, hp := h\<rparr>) \<longrightarrow> cs ! i = Some (word_of_nat i)))"
    using b by simp
qed

lemma create_not_Joined: "joiners s \<Longrightarrow> base_inv s \<Longrightarrow> pcs s t = Create i \<Longrightarrow> pcs s u \<noteq> Joined"
  using creator(1)[of s t i] unfolding joiners_def by (metis creating.simps(1) past_test.simps(5))

lemma block_create:
  assumes "block_inv s" and "base_inv s" and "joiners s" and "pcs s t = Create i" and "i < w_num_threads s"
    and "store (w_threads s) i (word_of_int i) (hp s) = Inr h"
  shows "block_inv (goto t (Create (i + 1)) (goto (nat i) Head (s\<lparr>hp := h\<rparr>)))"
    and "w_threads s \<noteq> q_data (w_jobs s)" and "\<forall>a. a \<noteq> w_threads s \<longrightarrow> mem h a = mem (hp s) a"
proof -
  note c = creator[OF assms(2,4)]
  obtain cs where b: "w_threads s \<noteq> 0" "w_threads s \<noteq> q_data (w_jobs s)"
    "mem (hp s) (w_threads s) = Some cs" "int (length cs) = w_num_threads s"
    "\<forall>k. int k < made s \<longrightarrow> cs ! k = Some (word_of_nat k)"
    using assms(1) create_not_Joined[OF assms(3,2,4)] by (auto simp: block_inv_def)
  show "w_threads s \<noteq> q_data (w_jobs s)" by (rule b(2))
  have h: "h = put_block (w_threads s) (cs[nat i := Some (word_of_int i)]) (hp s)"
    using assms(6) store_ok[OF b(1,3), of i] c(3) assms(5) b(4) by simp
  then show "\<forall>a. a \<noteq> w_threads s \<longrightarrow> mem h a = mem (hp s) a" by simp
  have m: "made (goto t (Create (i + 1)) (goto (nat i) Head (s\<lparr>hp := h\<rparr>))) = i + 1"
    using c(1) by (simp add: made_def)
  have cell: "cs[nat i := Some (word_of_int i)] ! k = Some (word_of_nat k)" if "int k < i + 1" for k
  proof (cases "k = nat i")
    case True
    then show ?thesis using c(3) assms(5) b(4) by simp
  next
    case False
    then show ?thesis using that b(5) c(2) by simp
  qed
  show "block_inv (goto t (Create (i + 1)) (goto (nat i) Head (s\<lparr>hp := h\<rparr>)))"
    unfolding block_inv_def m using b(1,2,4) cell h by simp
qed

lemma block_effect:
  assumes "effect t s s'" and "base_inv s" and "joiners s" and "q_inv (w_jobs s) (hp s)" and "block_inv s"
  shows "block_inv s'"
  using assms(1)
proof (cases rule: effect.cases)
  case (move p)
  then show ?thesis using assms(5) moves_not_Joined(1) moves_creating(1) by (metis block_move)
next
  case (lock p)
  then show ?thesis
    using block_move[of "s\<lparr>w_lock := Some t\<rparr>" t p] assms(5) moves_not_Joined(2) moves_creating(2) by simp
next
  case (unlock p)
  then show ?thesis
    using block_move[of "s\<lparr>w_lock := None\<rparr>" t p] assms(5) moves_not_Joined(3) moves_creating(3) by simp
next
  case (wake p u)
  have "block_inv (goto u Woken s)" using assms(5) wake(3) by (intro block_move) simp_all
  moreover have "u \<noteq> t" using wake(2,3) by auto
  ultimately show ?thesis
    using wake(1) moves_not_Joined(4)[OF wake(2)] moves_creating(4)[OF wake(2)] by (simp add: block_move)
next
  case (signal p)
  then show ?thesis using assms(5) moves_not_Joined(4) moves_creating(4) by (metis block_move)
next
  case (take_fn f q)
  then show ?thesis using block_next[OF assms(5)] block_move[of "s\<lparr>w_jobs := q\<rparr>" t] by simp
next
  case (take_args f a q)
  then show ?thesis
    using block_next[OF assms(5)] block_move[of "s\<lparr>w_jobs := q, taken := taken s @ [(f, a)]\<rparr>" t "Unlock (f, a)"] by simp
next
  case (create i h)
  then show ?thesis using block_create(1)[OF assms(5,2,3)] by simp
next
  case (created i)
  have "made (goto t Idle s) = made s"
    using created creator[OF assms(2) created(2)] by (simp add: made_def)
  then show ?thesis using created assms(5) by (simp add: block_goto)
next
  case (push_fn j q h)
  then show ?thesis
    using block_push[OF assms(5,4) push_fn(3)] block_move[of "s\<lparr>w_jobs := q, hp := h\<rparr>" t "Post_Args j"] by simp
next
  case (push_args j q h)
  then show ?thesis
    using block_push[OF assms(5,4) push_args(3)]
      block_move[of "s\<lparr>w_jobs := q, hp := h, posted := posted s @ [j]\<rparr>" t Post_Unlock] by simp
qed (use assms(5) block_Joined in \<open>auto intro!: block_move\<close>)

section \<open>Whom the joining thread has waited for\<close>

fun waited :: "int \<Rightarrow> pc \<Rightarrow> int" where
  "waited n (Join_Wait i) = i"
| "waited n Join_Free = n"
| "waited n Joined = n"
| "waited n _ = 0"

definition exits :: "pool \<Rightarrow> bool" where
  "exits s \<longleftrightarrow> (\<forall>t j. int j < waited (w_num_threads s) (pcs s t) \<longrightarrow> pcs s j = Exited) \<and>
    (\<forall>t i. pcs s t = Join_Wait i \<longrightarrow> 0 \<le> i \<and> i \<le> w_num_threads s)"

lemma waited_kind:
  "locks p = Some q \<Longrightarrow> waited n q = 0 \<and> p \<noteq> Exited \<and> (\<forall>i. q \<noteq> Join_Wait i)"
  "unlocks p = Some q \<Longrightarrow> waited n q = 0 \<and> p \<noteq> Exited \<and> (\<forall>i. q \<noteq> Join_Wait i)"
  "signals p = Some q \<Longrightarrow> waited n q = 0 \<and> p \<noteq> Exited \<and> (\<forall>i. q = Join_Wait i \<longrightarrow> i = 0)"
  by (cases p; auto)+

lemma exits_upd [simp]:
  "exits (s\<lparr>w_lock := l\<rparr>) = exits s" "exits (s\<lparr>w_jobs := q\<rparr>) = exits s" "exits (s\<lparr>w_stop := b\<rparr>) = exits s"
  "exits (s\<lparr>hp := h\<rparr>) = exits s" "exits (s\<lparr>posted := js\<rparr>) = exits s" "exits (s\<lparr>taken := js\<rparr>) = exits s"
  "exits (s\<lparr>performed := js\<rparr>) = exits s"
  by (simp_all add: exits_def)

lemma exits_goto:
  assumes "exits s" and "pcs s t \<noteq> Exited" and "\<forall>j. int j < waited (w_num_threads s) p \<longrightarrow> pcs s j = Exited"
    and "\<forall>i. p = Join_Wait i \<longrightarrow> 0 \<le> i \<and> i \<le> w_num_threads s"
  shows "exits (goto t p s)"
  unfolding exits_def
proof (intro conjI allI impI)
  fix u j assume "int j < waited (w_num_threads (goto t p s)) (pcs (goto t p s) u)"
  then have "pcs s j = Exited" using assms(1,3) unfolding exits_def by (auto split: if_splits)
  then show "pcs (goto t p s) j = Exited" using assms(2) by auto
next
  fix u i assume "pcs (goto t p s) u = Join_Wait i"
  then show "0 \<le> i" "i \<le> w_num_threads (goto t p s)"
    using assms(1,4) unfolding exits_def by (auto split: if_splits)
qed

lemma joining_facts:
  assumes "joiners s" and "pcs s t = Join_Wait i"
  shows "pcs s u \<noteq> Joined" and "made s = w_num_threads s"
proof -
  show "pcs s u \<noteq> Joined"
    using uniqueD[of past_test s t u] assms by (cases "u = t") (auto simp: joiners_def)
  have "\<not> creating (pcs s (nat (w_num_threads s)))"
    using assms unfolding joiners_def by (metis joining.simps(4))
  then show "made s = w_num_threads s" by (simp add: made_def made_at_done)
qed

lemma exits_move:
  assumes "exits s" and "moves s (pcs s t) p" and "block_inv s" and "joiners s" and "w_num_threads s < 2 ^ 60"
  shows "exits (goto t p s)"
proof (cases "\<exists>i. pcs s t = Join_Wait i")
  case True
  then obtain i where i: "pcs s t = Join_Wait i" by auto
  have ex: "\<forall>j. int j < i \<longrightarrow> pcs s j = Exited" and i0: "0 \<le> i" "i \<le> w_num_threads s"
    using assms(1) i unfolding exits_def by (metis waited.simps(1))+
  show ?thesis
  proof (cases "i < w_num_threads s")
    case lt: True
    then obtain u where p: "p = Join_Wait (i + 1)" and u: "load (w_threads s) i (hp s) = Inr u"
      "pcs s (unat u) = Exited" using assms(2) i by auto
    have "\<forall>u. pcs s u \<noteq> Joined" and "made s = w_num_threads s" using joining_facts[OF assms(4) i] by auto
    then obtain cs where cs: "mem (hp s) (w_threads s) = Some cs" "int (length cs) = w_num_threads s"
      "cs ! nat i = Some (word_of_nat (nat i))" "w_threads s \<noteq> 0"
      using assms(3) lt i0 by (auto simp: block_inv_def)
    then have "load (w_threads s) i (hp s) = Inr (word_of_nat (nat i))"
      using lt i0 by (intro load_ok) auto
    then have "unat u = nat i" using u(1) lt assms(5) by (simp add: unat_of_nat)
    then have "pcs s (nat i) = Exited" using u(2) by simp
    then have "\<forall>j. int j < i + 1 \<longrightarrow> pcs s j = Exited"
      using ex by (metis int_nat_eq less_int_code(1) linorder_less_linear not_less zless_add1_eq nat_int)
    then show ?thesis using assms(1) i p lt i0 by (intro exits_goto) auto
  next
    case False
    then have "p = Join_Free" "i = w_num_threads s" using assms(2) i i0 by auto
    then show ?thesis using assms(1) i ex by (intro exits_goto) auto
  qed
next
  case False
  then have "waited (w_num_threads s) p = 0 \<and> pcs s t \<noteq> Exited \<and> (\<forall>i. p \<noteq> Join_Wait i)"
    using assms(2) by (cases "pcs s t") (auto split: if_splits)
  then show ?thesis using assms(1) by (intro exits_goto) auto
qed


lemma exits_effect:
  assumes "effect t s s'" and "base_inv s" and "joiners s" and "block_inv s" and "exits s"
    and "0 \<le> w_num_threads s" and "w_num_threads s < 2 ^ 60"
  shows "exits s'"
  using assms(1)
proof (cases rule: effect.cases)
  case (move p)
  then show ?thesis using exits_move[OF assms(5) _ assms(4,3,7)] by simp
next
  case (lock p)
  then show ?thesis using assms(5) waited_kind(1)[OF lock(2)] by (auto intro!: exits_goto)
next
  case (unlock p)
  then show ?thesis using assms(5) waited_kind(2)[OF unlock(2)] by (auto intro!: exits_goto)
next
  case (wake p u)
  have "exits (goto u Woken s)" using assms(5) wake(3) by (intro exits_goto) simp_all
  moreover have "u \<noteq> t" using wake(2,3) by auto
  ultimately show ?thesis using wake(1) waited_kind(3)[OF wake(2)] assms(6) by (auto intro!: exits_goto)
next
  case (signal p)
  then show ?thesis using assms(5,6) waited_kind(3)[OF signal(2)] by (auto intro!: exits_goto)
next
  case (create i h)
  note c = creator(5)[OF assms(2) create(2,3)]
  have "exits (goto (nat i) Head (s\<lparr>hp := h\<rparr>))" using assms(5) c by (intro exits_goto) simp_all
  then show ?thesis using create c by (auto intro!: exits_goto)
next
  case release
  then have "\<forall>j. int j < w_num_threads s \<longrightarrow> pcs s j = Exited"
    using assms(5) unfolding exits_def by (metis waited.simps(2))
  then show ?thesis using release assms(5) by (auto intro!: exits_goto)
next
  case stop
  then show ?thesis using assms(5) by (auto intro!: exits_goto)
qed (use assms(5) in \<open>auto intro!: exits_goto\<close>)

section \<open>The queue\<close>

definition flat :: "job list \<Rightarrow> 64 word list" where
  "flat js = concat (map (\<lambda>j. [fst j, snd j]) js)"

lemma flat_simps [simp]:
  "flat [] = []" "flat (j # js) = fst j # snd j # flat js" "flat (js @ ks) = flat js @ flat ks"
  by (simp_all add: flat_def)

lemma flat_Nil [simp]: "flat js = [] \<longleftrightarrow> js = []"
  by (cases js) auto

text \<open>
  What the queue holds while the owner of the lock is at \<open>p\<close> and the jobs \<open>pend\<close> are posted but
  not taken: whole jobs, but for the job that is being taken or posted.
\<close>

fun content :: "bool \<Rightarrow> pc \<Rightarrow> job list \<Rightarrow> 64 word list \<Rightarrow> bool" where
  "content b Check pend ws \<longleftrightarrow> ws = flat pend \<and> (pend \<noteq> [] \<or> b)"
| "content b Sleep pend ws \<longleftrightarrow> ws = [] \<and> pend = []"
| "content b Take_Fn pend ws \<longleftrightarrow> ws = flat pend \<and> pend \<noteq> []"
| "content b (Take_Args f) pend ws \<longleftrightarrow> pend \<noteq> [] \<and> f = fst (hd pend) \<and> ws = tl (flat pend)"
| "content b (Post_Args j) pend ws \<longleftrightarrow> ws = flat pend @ [fst j]"
| "content b _ pend ws \<longleftrightarrow> ws = flat pend"

definition owner_pc :: "pool \<Rightarrow> pc" where
  "owner_pc s = (case w_lock s of None \<Rightarrow> Idle | Some t \<Rightarrow> pcs s t)"

definition queue_inv :: "pool \<Rightarrow> bool" where
  "queue_inv s \<longleftrightarrow> q_inv (w_jobs s) (hp s) \<and>
    (\<exists>pend. posted s = taken s @ pend \<and> content (w_stop s) (owner_pc s) pend (q_list (w_jobs s) (hp s)))"

lemma content_plain: "\<not> critical p \<Longrightarrow> content b p pend ws \<longleftrightarrow> ws = flat pend"
  by (cases p) auto

lemma content_kind:
  "locks p = Some q \<Longrightarrow> content b q pend ws \<longleftrightarrow> ws = flat pend"
  "unlocks p = Some q \<Longrightarrow> content b p pend ws \<Longrightarrow> ws = flat pend"
  "unlocks p = Some q \<Longrightarrow> content b q pend ws \<longleftrightarrow> ws = flat pend"
  by (cases p; auto)+

lemma content_stop: "content b p pend ws \<Longrightarrow> content True p pend ws"
  by (cases p) auto

lemma owner_other: "lock_inv s \<Longrightarrow> \<not> critical (pcs s t) \<Longrightarrow> owner_pc (goto t p s) = owner_pc s"
  by (auto simp: owner_pc_def lock_inv_def split: option.splits)

lemma owner_self: "lock_inv s \<Longrightarrow> critical (pcs s t) \<Longrightarrow> owner_pc (goto t p s) = p \<and> owner_pc s = pcs s t"
  by (auto simp: owner_pc_def lock_inv_def)

lemma owner_upd [simp]:
  "owner_pc (s\<lparr>w_jobs := q\<rparr>) = owner_pc s" "owner_pc (s\<lparr>w_stop := b\<rparr>) = owner_pc s"
  "owner_pc (s\<lparr>hp := h\<rparr>) = owner_pc s" "owner_pc (s\<lparr>posted := js\<rparr>) = owner_pc s"
  "owner_pc (s\<lparr>taken := js\<rparr>) = owner_pc s" "owner_pc (s\<lparr>performed := js\<rparr>) = owner_pc s"
  by (simp_all add: owner_pc_def split: option.split)

lemma queue_other:
  assumes "queue_inv s" and "lock_inv s" and "\<not> critical (pcs s t)"
  shows "queue_inv (goto t p s)"
  using assms by (simp add: queue_inv_def owner_other)

lemma queue_heap:
  assumes "queue_inv s" and "mem h (q_data (w_jobs s)) = mem (hp s) (q_data (w_jobs s))"
  shows "queue_inv (s\<lparr>hp := h\<rparr>)"
  using assms q_frame[OF assms(2)] by (simp add: queue_inv_def)

lemma q_next_InrD:
  assumes "q_inv q h" and "q_next q h = Inr (v, q')" and "q_list q h \<noteq> []"
  shows "q_inv q' h" and "v = hd (q_list q h)" and "q_list q' h = tl (q_list q h)"
proof -
  obtain k cs where sh: "q_shape q h k cs" using assms(1) by (auto simp: q_inv_def)
  have "0 < q_size q" using length_q_list[OF assms(1)] assms(3) by (cases "q_list q h") auto
  note n = q_next_step[OF sh this]
  have "v = hd (q_list q h)" "q' = q_drop1 q" using n(1) assms(2) by auto
  then show "q_inv q' h" "v = hd (q_list q h)" "q_list q' h = tl (q_list q h)"
    using n(2,3) by (auto simp: q_inv_def)
qed

lemma queue_move:
  assumes "queue_inv s" and "lock_inv s" and "moves s (pcs s t) p"
  shows "queue_inv (goto t p s)"
proof (cases "critical (pcs s t)")
  case True
  note o = owner_self[OF assms(2) True, of p]
  obtain pend where pend: "q_inv (w_jobs s) (hp s)" "posted s = taken s @ pend"
    "content (w_stop s) (pcs s t) pend (q_list (w_jobs s) (hp s))"
    using assms(1) o by (auto simp: queue_inv_def)
  have e: "q_is_empty (w_jobs s) \<longleftrightarrow> q_list (w_jobs s) (hp s) = []" by (rule q_is_empty_iff[OF pend(1)])
  have "content (w_stop s) p pend (q_list (w_jobs s) (hp s))"
    using pend(3) assms(3) True e by (cases "pcs s t") (auto split: if_splits)
  then show ?thesis using pend o by (auto simp: queue_inv_def)
qed (use assms queue_other in blast)

lemma queue_lock:
  assumes "queue_inv s" and "w_lock s = None" and "locks (pcs s t) = Some p"
  shows "queue_inv (goto t p (s\<lparr>w_lock := Some t\<rparr>))"
  using assms content_kind(1)[OF assms(3)] by (auto simp: queue_inv_def owner_pc_def)

lemma queue_unlock:
  assumes "queue_inv s" and "w_lock s = Some t" and "unlocks (pcs s t) = Some p"
  shows "queue_inv (goto t p (s\<lparr>w_lock := None\<rparr>))"
  using assms content_kind(2)[OF assms(3)] by (auto simp: queue_inv_def owner_pc_def)

lemma queue_take_fn:
  assumes "queue_inv s" and "lock_inv s" and "pcs s t = Take_Fn" and "q_next (w_jobs s) (hp s) = Inr (f, q)"
  shows "queue_inv (goto t (Take_Args f) (s\<lparr>w_jobs := q\<rparr>))"
proof -
  note o = owner_self[OF assms(2), of t "Take_Args f"]
  obtain pend where pend: "q_inv (w_jobs s) (hp s)" "posted s = taken s @ pend" "pend \<noteq> []"
    "q_list (w_jobs s) (hp s) = flat pend" using assms(1,3) o by (auto simp: queue_inv_def)
  then have "q_list (w_jobs s) (hp s) \<noteq> []" by simp
  note n = q_next_InrD[OF pend(1) assms(4) this]
  have "owner_pc (goto t (Take_Args f) (s\<lparr>w_jobs := q\<rparr>)) = Take_Args f"
    using owner_self[of "s\<lparr>w_jobs := q\<rparr>" t] assms(2,3) by simp
  moreover have "f = fst (hd pend)" using n(2) pend(3,4) by (cases pend) auto
  ultimately show ?thesis using n pend by (auto simp: queue_inv_def)
qed

lemma queue_take_args:
  assumes "queue_inv s" and "lock_inv s" and "pcs s t = Take_Args f" and "q_next (w_jobs s) (hp s) = Inr (a, q)"
  shows "queue_inv (goto t (Unlock (f, a)) (s\<lparr>w_jobs := q, taken := taken s @ [(f, a)]\<rparr>))"
proof -
  note o = owner_self[OF assms(2), of t "Unlock (f, a)"]
  obtain pend where pend: "q_inv (w_jobs s) (hp s)" "posted s = taken s @ pend" "pend \<noteq> []"
    "f = fst (hd pend)" "q_list (w_jobs s) (hp s) = tl (flat pend)"
    using assms(1,3) o by (auto simp: queue_inv_def)
  obtain b js where js: "pend = (f, b) # js" using pend(3,4) by (cases pend) auto
  then have l: "q_list (w_jobs s) (hp s) = b # flat js" using pend(5) by simp
  have n: "q_inv q (hp s)" "a = b" "q_list q (hp s) = flat js"
    using q_next_InrD[OF pend(1) assms(4)] l by simp_all
  have "owner_pc (goto t (Unlock (f, a)) (s\<lparr>w_jobs := q, taken := taken s @ [(f, a)]\<rparr>)) = Unlock (f, a)"
    using owner_self[of "s\<lparr>w_jobs := q, taken := taken s @ [(f, a)]\<rparr>" t] assms(2,3) by simp
  then show ?thesis using n(1,3) unfolding queue_inv_def
    by (intro conjI exI[of _ js]) (simp_all add: pend(2) js n(2))
qed

lemma queue_push_fn:
  assumes "queue_inv s" and "lock_inv s" and "pcs s t = Post_Fn j" and "q_push (w_jobs s) (fst j) (hp s) = Inr (q, h)"
  shows "queue_inv (goto t (Post_Args j) (s\<lparr>w_jobs := q, hp := h\<rparr>))"
proof -
  note o = owner_self[OF assms(2), of t "Post_Args j"]
  obtain pend where pend: "q_inv (w_jobs s) (hp s)" "posted s = taken s @ pend"
    "q_list (w_jobs s) (hp s) = flat pend" using assms(1,3) o by (auto simp: queue_inv_def)
  have "owner_pc (goto t (Post_Args j) (s\<lparr>w_jobs := q, hp := h\<rparr>)) = Post_Args j"
    using owner_self[of "s\<lparr>w_jobs := q, hp := h\<rparr>" t] assms(2,3) by simp
  then show ?thesis using q_push_InrD[OF pend(1) assms(4)] pend by (auto simp: queue_inv_def)
qed

lemma queue_push_args:
  assumes "queue_inv s" and "lock_inv s" and "pcs s t = Post_Args j" and "q_push (w_jobs s) (snd j) (hp s) = Inr (q, h)"
  shows "queue_inv (goto t Post_Unlock (s\<lparr>w_jobs := q, hp := h, posted := posted s @ [j]\<rparr>))"
proof -
  note o = owner_self[OF assms(2), of t Post_Unlock]
  obtain pend where pend: "q_inv (w_jobs s) (hp s)" "posted s = taken s @ pend"
    "q_list (w_jobs s) (hp s) = flat pend @ [fst j]" using assms(1,3) o by (auto simp: queue_inv_def)
  have "owner_pc (goto t Post_Unlock (s\<lparr>w_jobs := q, hp := h, posted := posted s @ [j]\<rparr>)) = Post_Unlock"
    using owner_self[of "s\<lparr>w_jobs := q, hp := h, posted := posted s @ [j]\<rparr>" t] assms(2,3) by simp
  then show ?thesis using q_push_InrD[OF pend(1) assms(4)] pend
    by (auto simp: queue_inv_def intro!: exI[of _ "pend @ [j]"])
qed

lemma queue_stop: "queue_inv s \<Longrightarrow> queue_inv (s\<lparr>w_stop := True\<rparr>)"
  by (auto simp: queue_inv_def intro: content_stop)

lemma queue_performed [simp]: "queue_inv (s\<lparr>performed := js\<rparr>) = queue_inv s"
  by (simp add: queue_inv_def)

lemma queue_effect:
  assumes "effect t s s'" and "base_inv s" and "lock_inv s" and "joiners s" and "block_inv s" and "queue_inv s"
  shows "queue_inv s'"
  using assms(1)
proof (cases rule: effect.cases)
  case (move p)
  then show ?thesis using queue_move[OF assms(6,3)] by simp
next
  case (lock p)
  then show ?thesis using queue_lock[OF assms(6)] by simp
next
  case (unlock p)
  then show ?thesis using queue_unlock[OF assms(6)] by simp
next
  case (wake p u)
  have "queue_inv (goto u Woken s)" "lock_inv (goto u Woken s)"
    using assms(3,6) wake(3) by (auto intro: queue_other lock_goto)
  moreover have "u \<noteq> t" using wake(2,3) by auto
  ultimately show ?thesis using wake(1) critical_kind(4)[OF wake(2)] by (simp add: queue_other)
next
  case (signal p)
  then show ?thesis using assms(3,6) critical_kind(4)[OF signal(2)] by (simp add: queue_other)
next
  case (take_fn f q)
  then show ?thesis using queue_take_fn[OF assms(6,3)] by simp
next
  case (take_args f a q)
  then show ?thesis using queue_take_args[OF assms(6,3)] by simp
next
  case (perform j)
  have "queue_inv (goto t Head (s\<lparr>performed := performed s @ [j]\<rparr>))"
    by (rule queue_other) (use assms(3,6) perform(2) in simp_all)
  then show ?thesis using perform(1) by simp
next
  case (create i h)
  note c = creator(5)[OF assms(2) create(2,3)]
  note b = block_create(2,3)[OF assms(5,2,4) create(2,3,4)]
  have "queue_inv (s\<lparr>hp := h\<rparr>)" using assms(6) b by (intro queue_heap) auto
  then have q: "queue_inv (goto (nat i) Head (s\<lparr>hp := h\<rparr>))" by (rule queue_other) (use assms(3) c in simp_all)
  have "lock_inv (goto (nat i) Head (s\<lparr>hp := h\<rparr>))" by (rule lock_goto) (use assms(3) c in simp_all)
  with q show ?thesis unfolding create(1) by (rule queue_other) (use create(2) c in simp_all)
next
  case (push_fn j q h)
  then show ?thesis using queue_push_fn[OF assms(6,3)] by simp
next
  case (push_args j q h)
  then show ?thesis using queue_push_args[OF assms(6,3)] by simp
next
  case stop
  have "queue_inv (goto t Join_Signal (s\<lparr>w_stop := True\<rparr>))"
    by (rule queue_other[OF queue_stop[OF assms(6)]]) (use assms(3) stop(2) in simp_all)
  then show ?thesis using stop(1) by simp
next
  case (release h)
  have "pcs s u \<noteq> Joined" if "u \<noteq> t" for u
    using uniqueD[of past_test s t u] assms(4) release(2) that by (auto simp: joiners_def)
  then have "\<forall>u. pcs s u \<noteq> Joined" using release(2) by (metis pc.distinct)
  then have "w_threads s \<noteq> q_data (w_jobs s)" "w_threads s \<noteq> 0" using assms(5) by (auto simp: block_inv_def)
  then have "mem h (q_data (w_jobs s)) = mem (hp s) (q_data (w_jobs s))"
    using release(3) by (auto simp: free_def split: if_splits)
  then have "queue_inv (s\<lparr>hp := h\<rparr>)" using assms(6) by (intro queue_heap)
  then have "queue_inv (goto t Joined (s\<lparr>hp := h\<rparr>))" by (rule queue_other) (use assms(3) release(2) in simp_all)
  then show ?thesis using release(1) by simp
qed (use assms(3,6) in \<open>auto intro: queue_other\<close>)

section \<open>Jobs in the hands of the workers\<close>

fun in_hand :: "pc \<Rightarrow> job multiset" where
  "in_hand (Unlock j) = {#j#}"
| "in_hand (Notify j) = {#j#}"
| "in_hand (Perform j) = {#j#}"
| "in_hand _ = {#}"

definition flight :: "pool \<Rightarrow> job multiset" where
  "flight s = (\<Sum>t < nat (w_num_threads s). in_hand (pcs s t))"

definition flight_inv :: "pool \<Rightarrow> bool" where
  "flight_inv s \<longleftrightarrow> mset (taken s) = mset (performed s) + flight s"

lemma flight_goto:
  assumes "worker_pc (pcs s t) \<longrightarrow> int t < w_num_threads s" and "in_hand p \<noteq> {#} \<longrightarrow> worker_pc (pcs s t)"
  shows "flight (goto t p s) + in_hand (pcs s t) = flight s + in_hand p"
proof (cases "int t < w_num_threads s")
  case True
  then have t: "t \<in> {..<nat (w_num_threads s)}" by simp
  show ?thesis
    unfolding flight_def goto_simps sum.remove[OF finite_lessThan t] by (simp add: ac_simps)
next
  case False
  then have "in_hand p = {#}" "in_hand (pcs s t) = {#}"
    using assms by (auto, cases "pcs s t", auto)
  moreover have "flight (goto t p s) = flight s"
    unfolding flight_def using False by (intro sum.cong) auto
  ultimately show ?thesis by simp
qed

lemma flight_upd [simp]:
  "flight (s\<lparr>w_lock := l\<rparr>) = flight s" "flight (s\<lparr>w_jobs := q\<rparr>) = flight s" "flight (s\<lparr>w_stop := b\<rparr>) = flight s"
  "flight (s\<lparr>hp := h\<rparr>) = flight s" "flight (s\<lparr>posted := js\<rparr>) = flight s" "flight (s\<lparr>taken := js\<rparr>) = flight s"
  "flight (s\<lparr>performed := js\<rparr>) = flight s"
  by (simp_all add: flight_def)

lemma worker_number: "base_inv s \<Longrightarrow> worker_pc (pcs s t) \<Longrightarrow> int t < w_num_threads s"
  by (auto simp: base_inv_def roles_def creation_def)

lemma hand_kind:
  "moves s p q \<Longrightarrow> in_hand q = {#} \<and> in_hand p = {#}" "locks p = Some q \<Longrightarrow> in_hand q = {#} \<and> in_hand p = {#}"
  "unlocks p = Some q \<Longrightarrow> in_hand q = in_hand p \<and> (in_hand q \<noteq> {#} \<longrightarrow> worker_pc p)"
  "signals p = Some q \<Longrightarrow> in_hand q = in_hand p \<and> (in_hand q \<noteq> {#} \<longrightarrow> worker_pc p)"
  by (cases p; auto split: if_splits)+

lemma flight_same:
  assumes "base_inv s" and "in_hand p = in_hand (pcs s t)" and "in_hand p \<noteq> {#} \<longrightarrow> worker_pc (pcs s t)"
  shows "flight (goto t p s) = flight s"
  using flight_goto[of s t p] worker_number[OF assms(1)] assms(2,3) by auto

lemma flight_effect:
  assumes "effect t s s'" and "base_inv s" and "flight_inv s"
  shows "flight_inv s'"
  using assms(1)
proof (cases rule: effect.cases)
  case (move p)
  then show ?thesis using assms flight_same[OF assms(2), of p t] hand_kind(1)[OF move(2)] by (simp add: flight_inv_def)
next
  case (lock p)
  then show ?thesis
    using assms flight_same[of "s\<lparr>w_lock := Some t\<rparr>" p t] hand_kind(2)[OF lock(2)] by (simp add: flight_inv_def)
next
  case (unlock p)
  then show ?thesis
    using assms flight_same[of "s\<lparr>w_lock := None\<rparr>" p t] hand_kind(3)[OF unlock(2)] by (simp add: flight_inv_def)
next
  case (wake p u)
  have "flight (goto u Woken s) = flight s" using assms(2) wake(3) by (intro flight_same) simp_all
  moreover have "u \<noteq> t" using wake(2,3) by auto
  moreover have "flight (goto t p (goto u Woken s)) = flight (goto u Woken s)"
    using hand_kind(4)[OF wake(2)] \<open>u \<noteq> t\<close> base_wake[OF assms(2) wake(3)] by (intro flight_same) simp_all
  ultimately show ?thesis using wake(1) assms(3) by (simp add: flight_inv_def)
next
  case (signal p)
  then show ?thesis using assms flight_same[OF assms(2), of p t] hand_kind(4)[OF signal(2)] by (simp add: flight_inv_def)
next
  case (take_args f a q)
  let ?s = "s\<lparr>w_jobs := q, taken := taken s @ [(f, a)]\<rparr>"
  have "flight (goto t (Unlock (f, a)) ?s) = flight s + {#(f, a)#}"
    using flight_goto[of ?s t "Unlock (f, a)"] worker_number[OF assms(2), of t] take_args(2) by simp
  then show ?thesis using take_args(1) assms(3) by (simp add: flight_inv_def)
next
  case (perform j)
  let ?s = "s\<lparr>performed := performed s @ [j]\<rparr>"
  have "flight (goto t Head ?s) + {#j#} = flight s"
    using flight_goto[of ?s t Head] worker_number[OF assms(2), of t] perform(2) by simp
  then show ?thesis using perform(1) assms(3) by (simp add: flight_inv_def)
next
  case (create i h)
  note c = creator(5)[OF assms(2) create(2,3)]
  have "flight (goto (nat i) Head (s\<lparr>hp := h\<rparr>)) = flight s"
    using flight_goto[of "s\<lparr>hp := h\<rparr>" "nat i" Head] c by simp
  moreover have "flight (goto t (Create (i + 1)) (goto (nat i) Head (s\<lparr>hp := h\<rparr>))) =
      flight (goto (nat i) Head (s\<lparr>hp := h\<rparr>))"
    using flight_goto[of "goto (nat i) Head (s\<lparr>hp := h\<rparr>)" t "Create (i + 1)"] c create(2) by simp
  ultimately show ?thesis using create(1) assms(3) by (simp add: flight_inv_def)
next
  case (take_fn f q)
  then show ?thesis using assms(2,3) flight_same[of "s\<lparr>w_jobs := q\<rparr>" "Take_Args f" t] by (simp add: flight_inv_def)
next
  case (created i)
  then show ?thesis using assms(2,3) flight_same[of s Idle t] by (simp add: flight_inv_def)
next
  case (push_fn j q h)
  then show ?thesis using assms(2,3) flight_same[of "s\<lparr>w_jobs := q, hp := h\<rparr>" "Post_Args j" t] by (simp add: flight_inv_def)
next
  case (push_args j q h)
  then show ?thesis
    using assms(2,3) flight_same[of "s\<lparr>w_jobs := q, hp := h, posted := posted s @ [j]\<rparr>" Post_Unlock t]
    by (simp add: flight_inv_def)
next
  case stop
  then show ?thesis using assms(2,3) flight_same[of "s\<lparr>w_stop := True\<rparr>" Join_Signal t] by (simp add: flight_inv_def)
next
  case (release h)
  then show ?thesis using assms(2,3) flight_same[of "s\<lparr>hp := h\<rparr>" Joined t] by (simp add: flight_inv_def)
next
  case (call_post j)
  then show ?thesis using assms(2,3) flight_same[of s "Post_Lock j" t] by (simp add: flight_inv_def)
next
  case call_join
  then show ?thesis using assms(2,3) flight_same[of s Join_Test t] by (simp add: flight_inv_def)
qed

section \<open>Signals for waiting workers\<close>

fun announces :: "pc \<Rightarrow> bool" where
  "announces (Post_Args j) = True"
| "announces Post_Unlock = True"
| "announces Post_Signal = True"
| "announces _ = False"

text \<open>When the queue holds something and all workers wait, a client is about to signal.\<close>

definition all_wait :: "pool \<Rightarrow> bool" where
  "all_wait s \<longleftrightarrow> (\<forall>u. int u < w_num_threads s \<longrightarrow> pcs s u = Waiting)"

definition wake_inv :: "pool \<Rightarrow> bool" where
  "wake_inv s \<longleftrightarrow> (\<not> q_is_empty (w_jobs s) \<and> 0 < w_num_threads s \<and> all_wait s \<longrightarrow> (\<exists>t. announces (pcs s t)))"

lemma wake_worker:
  assumes "int t < w_num_threads s'" and "pcs s' t \<noteq> Waiting"
  shows "wake_inv s'"
  using assms by (auto simp: wake_inv_def all_wait_def)

lemma wake_announce: "announces (pcs s' t) \<Longrightarrow> wake_inv s'"
  by (auto simp: wake_inv_def)

lemma wake_upd [simp]:
  "wake_inv (s\<lparr>w_lock := l\<rparr>) = wake_inv s" "wake_inv (s\<lparr>w_stop := b\<rparr>) = wake_inv s"
  "wake_inv (s\<lparr>hp := h\<rparr>) = wake_inv s" "wake_inv (s\<lparr>performed := js\<rparr>) = wake_inv s"
  by (simp_all add: wake_inv_def all_wait_def)

lemma wake_goto:
  assumes "wake_inv s" and "announces (pcs s t) \<longrightarrow> announces p" and "p = Waiting \<longrightarrow> w_num_threads s \<le> int t"
    and "pcs s t \<noteq> Waiting"
  shows "wake_inv (goto t p s)"
proof (cases "int t < w_num_threads s")
  case True
  then show ?thesis using assms(3) by (intro wake_worker[of t]) auto
next
  case False
  then have "all_wait (goto t p s) \<longleftrightarrow> all_wait s" by (auto simp: all_wait_def)
  moreover have "\<exists>u. announces (pcs (goto t p s) u)" if "announces (pcs s v)" for v
    using that assms(2) by (intro exI[of _ v]) auto
  ultimately show ?thesis using assms(1) unfolding wake_inv_def goto_simps by blast
qed

lemma announce_kind:
  "moves s p q \<Longrightarrow> p \<noteq> Waiting \<Longrightarrow> (announces p \<longrightarrow> announces q) \<and> q \<noteq> Waiting"
  "locks p = Some q \<Longrightarrow> \<not> announces p \<and> q \<noteq> Waiting \<and> p \<noteq> Waiting"
  "unlocks p = Some q \<Longrightarrow> (announces p \<longrightarrow> announces q) \<and> p \<noteq> Waiting \<and> (q = Waiting \<longrightarrow> p = Sleep)"
  "signals p = Some q \<Longrightarrow> q \<noteq> Waiting \<and> p \<noteq> Waiting"
  by (cases p; auto split: if_splits)+

lemma wake_empty: "q_is_empty (w_jobs s) \<Longrightarrow> wake_inv s"
  by (simp add: wake_inv_def)

lemma wake_effect:
  assumes "effect t s s'" and "base_inv s" and "lock_inv s" and "queue_inv s" and "wake_inv s"
  shows "wake_inv s'"
  using assms(1)
proof (cases rule: effect.cases)
  case (move p)
  show ?thesis
  proof (cases "pcs s t = Waiting")
    case True
    then have "p = Woken" "int t < w_num_threads s" using move(2) worker_number[OF assms(2)] by auto
    then show ?thesis using move(1) by (intro wake_worker[of t]) auto
  next
    case False
    then show ?thesis using move announce_kind(1)[OF move(2)] assms(5) by (auto intro: wake_goto)
  qed
next
  case (lock p)
  then show ?thesis
    using wake_goto[of "s\<lparr>w_lock := Some t\<rparr>" t p] announce_kind(2)[OF lock(2)] assms(5) by simp
next
  case (unlock p)
  show ?thesis
  proof (cases "p = Waiting")
    case True
    then have "pcs s t = Sleep" using announce_kind(3)[OF unlock(2)] by simp
    then have "q_list (w_jobs s) (hp s) = []"
      using assms(4) owner_self[OF assms(3), of t] by (auto simp: queue_inv_def)
    then have "q_is_empty (w_jobs s)" using q_is_empty_iff assms(4) by (auto simp: queue_inv_def)
    then show ?thesis using unlock(1) by (intro wake_empty) simp
  next
    case False
    then show ?thesis
      using unlock wake_goto[of "s\<lparr>w_lock := None\<rparr>" t p] announce_kind(3)[OF unlock(2)] assms(5) by simp
  qed
next
  case (wake p u)
  then have "u \<noteq> t" "int u < w_num_threads s" using worker_number[OF assms(2), of u] by auto
  then show ?thesis using wake(1) by (intro wake_worker[of u]) auto
next
  case (signal p)
  show ?thesis
  proof (cases "0 < w_num_threads s")
    case True
    have "p \<noteq> Waiting" using announce_kind(4)[OF signal(2)] by simp
    then have "pcs (goto t p s) 0 \<noteq> Waiting" using signal(3) True by auto
    then show ?thesis using signal(1) True by (intro wake_worker[of 0]) auto
  qed (use signal(1) in \<open>simp add: wake_inv_def\<close>)
next
  case (take_fn f q)
  then show ?thesis using worker_number[OF assms(2), of t] by (intro wake_worker[of t]) auto
next
  case (take_args f a q)
  then show ?thesis using worker_number[OF assms(2), of t] by (intro wake_worker[of t]) auto
next
  case (create i h)
  then show ?thesis using creator[OF assms(2) create(2)] by (intro wake_worker[of "nat i"]) auto
next
  case (push_fn j q h)
  then show ?thesis by (intro wake_announce[of _ t]) simp
next
  case (push_args j q h)
  then show ?thesis by (intro wake_announce[of _ t]) simp
qed (use assms(5) in \<open>auto intro: wake_goto\<close>)

section \<open>The invariant of the pool\<close>

definition pool_inv :: "pool \<Rightarrow> bool" where
  "pool_inv s \<longleftrightarrow> 0 \<le> w_num_threads s \<and> w_num_threads s < 2 ^ 60 \<and> base_inv s \<and> lock_inv s \<and> joiners s \<and>
    block_inv s \<and> exits s \<and> queue_inv s \<and> flight_inv s \<and> wake_inv s"

lemma effect_threads: "effect t s s' \<Longrightarrow> w_num_threads s' = w_num_threads s"
  by (erule effect.cases) simp_all

lemma pool_inv_step:
  assumes "pool_step s s'" and "pool_inv s"
  shows "pool_inv s' \<and> w_num_threads s' = w_num_threads s"
proof -
  obtain t where e: "effect t s s'" using pool_step_effect[OF assms(1)] by auto
  have q: "q_inv (w_jobs s) (hp s)" using assms(2) by (auto simp: pool_inv_def queue_inv_def)
  show ?thesis
    using assms(2) effect_threads[OF e] base_effect[OF e] lock_effect[OF e] joiners_effect[OF e]
      block_effect[OF e _ _ q] exits_effect[OF e] queue_effect[OF e] flight_effect[OF e] wake_effect[OF e]
    by (simp add: pool_inv_def)
qed

lemma pool_inv_create:
  assumes "0 \<le> n" and "n < 2 ^ 60" and "ample 2 h"
  shows "pool_inv (w_create n h)"
proof -
  have a: "can_alloc h" using assms(3) ample_can_alloc[of 1] by (simp add: numeral_2_eq_2)
  obtain q h1 where q: "q_create h = (q, h1)" "q_inv q h1" "q_list q h1 = []" "mem h (q_data q) = None"
    "q_data q \<noteq> 0" "\<forall>a. a \<noteq> q_data q \<longrightarrow> mem h1 a = mem h a" "answers h1 = tl (answers h)" "q_data q = hd (answers h)"
    by (rule q_create_ok[OF a])
  have "ample 1 h1" using assms(3) q(4,6,7,8) by (intro ample_step[of 1 h]) (auto simp: numeral_2_eq_2)
  then have "can_alloc h1" using ample_can_alloc[of 0] by simp
  then obtain p where p: "p \<noteq> 0" "mem h1 p = None"
    "\<And>k. malloc k h1 = (p, put_block p (replicate (unat k div 8) None) (h1\<lparr>answers := tl (answers h1)\<rparr>))"
    using malloc_ok by metis
  have len: "int (unat (word_of_int n * 8 :: 64 word) div 8) = n"
  proof -
    have "unat (word_of_int n :: 64 word) = nat n" using assms(1,2) by (simp add: unat_eq_nat_uint uint_word_of_int)
    then have "unat (word_of_int n * 8 :: 64 word) = nat n * 8"
      using assms(1,2) by (simp add: unat_word_ariths)
    then show ?thesis using assms(1) by simp
  qed
  define h2 where "h2 = put_block p (replicate (unat (word_of_int n * 8 :: 64 word) div 8) None)
    (h1\<lparr>answers := tl (answers h1)\<rparr>)"
  have s: "w_create n h = \<lparr>w_num_threads = n, w_threads = p, w_stop = False, w_jobs = q, w_lock = None, hp = h2,
      pcs = (\<lambda>_. Idle)(nat n := Create 0), posted = [], taken = [], performed = []\<rparr>"
    by (simp add: w_create_def q(1) p(3) h2_def)
  have "q_data q \<noteq> p" using q(2) p(2) by (auto simp: q_inv_def q_shape_def)
  then have m: "mem h2 (q_data q) = mem h1 (q_data q)" by (simp add: h2_def)
  have b: "mem h2 p = Some (replicate (unat (word_of_int n * 8 :: 64 word) div 8) None)" by (simp add: h2_def)
  have mk: "made (w_create n h) = 0" by (simp add: made_def s)
  show ?thesis
    unfolding pool_inv_def
  proof (intro conjI)
    show "base_inv (w_create n h)"
      unfolding base_inv_def roles_def creation_def mk using assms(1) by (simp add: s)
    show "lock_inv (w_create n h)" by (simp add: lock_inv_def s)
    show "joiners (w_create n h)" by (simp add: joiners_def unique_def stop_ok_def s)
    show "block_inv (w_create n h)"
      unfolding block_inv_def mk using p(1) \<open>q_data q \<noteq> p\<close> b len by (simp add: s)
    show "exits (w_create n h)" by (simp add: exits_def s)
    show "queue_inv (w_create n h)"
      using q_frame[OF m] q(2,3) by (simp add: queue_inv_def owner_pc_def s)
    show "flight_inv (w_create n h)" using assms(1) by (simp add: flight_inv_def flight_def s)
    have "q_is_empty q" using q_is_empty_iff[OF q(2)] q(3) by simp
    then show "wake_inv (w_create n h)" by (intro wake_empty) (simp add: s)
  qed (use assms in \<open>simp_all add: s\<close>)
qed

lemma pool_reach_inv:
  assumes "pool_reach n h s" and "0 \<le> n" and "n < 2 ^ 60" and "ample 2 h"
  shows "pool_inv s \<and> w_num_threads s = n"
  using assms(1)
proof (induction rule: pool_reach.induct)
  case start
  then show ?case using pool_inv_create[OF assms(2-4)] by (simp add: w_create_def split: prod.split)
next
  case (step s s')
  then show ?case using pool_inv_step by metis
qed

end
