(* ===== verification/Pool_Properties.thy ===== *)
theory Pool_Properties
  imports Pool_Invariants
begin

text \<open>
  What the thread pool guarantees in every reachable state, and two concrete schedules in which it
  does not do what \<open>w_join\<close> is meant to do: a lost wake-up and a lost job.
\<close>

section \<open>Progress\<close>

lemma cond_signal_enabled: "\<exists>c r. cond_signal c t p s = Some r"
proof (cases "\<exists>u \<in> set [0..<nat (w_num_threads s)]. pcs s u = Waiting")
  case True
  then obtain u where "u < nat (w_num_threads s)" "pcs s u = Waiting" by auto
  then have "cond_signal (Some u) t p s = Some (Inr (goto t p (goto u Woken s)))" by (simp add: cond_signal_def)
  then show ?thesis by blast
next
  case False
  then have "cond_signal None t p s = Some (Inr (goto t p s))" unfolding cond_signal_def by simp
  then show ?thesis by blast
qed

lemma mutex_unlock_enabled: "\<exists>r. mutex_unlock t p s = Some r"
  by (simp add: mutex_unlock_def)

lemma worker_enabled:
  assumes "worker_pc (pcs s t)" and "pcs s t \<noteq> Waiting" and "pcs s t \<noteq> Exited"
    and "w_lock s = None \<or> critical (pcs s t)"
  shows "\<exists>c r. w_process_step t c s = Some r"
  using assms cond_signal_enabled mutex_unlock_enabled
  by (cases "pcs s t") (auto simp: w_process_step_def mutex_lock_def)

lemma poster_enabled:
  assumes "critical (pcs s t) \<or> pcs s t = Post_Signal" and "\<not> worker_pc (pcs s t)"
  shows "\<exists>c r. client_step t c s = Some r"
proof -
  have none: "w_create_step t s = None" using assms by (cases "pcs s t") (auto simp: w_create_step_def)
  have "\<exists>c r. w_post_step t c s = Some r"
    using assms cond_signal_enabled mutex_unlock_enabled by (cases "pcs s t") (auto simp: w_post_step_def)
  then obtain c r where "w_post_step t c s = Some r" by blast
  then have "client_step t c s = Some r" by (simp add: client_step_def none)
  then show ?thesis by blast
qed

lemma pool_not_stuck:
  assumes "pool_inv s" and "0 < w_num_threads s" and "\<not> creating (pcs s (nat (w_num_threads s)))"
    and "\<not> q_is_empty (w_jobs s)" and "\<forall>u. int u < w_num_threads s \<longrightarrow> pcs s u \<noteq> Exited"
  shows "\<exists>t c r. thread_step t c s = Some r \<and>
    (int t < w_num_threads s \<or> critical (pcs s t) \<or> pcs s t = Post_Signal)"
proof -
  have wk: "worker_pc (pcs s t) \<longleftrightarrow> int t < w_num_threads s" for t
    using assms(1,3) by (simp add: pool_inv_def base_inv_def roles_def made_def made_at_done)
  have crit: ?thesis if "critical (pcs s t) \<or> pcs s t = Post_Signal \<and> w_lock s = None" for t
  proof (cases "int t < w_num_threads s")
    case True
    then have "pcs s t \<noteq> Post_Signal" using wk[of t] by auto
    then have "\<exists>c r. w_process_step t c s = Some r"
      using that True wk[of t] by (intro worker_enabled) auto
    then show ?thesis using True by (auto simp: thread_step_def)
  next
    case False
    then have "\<exists>c r. client_step t c s = Some r" using that wk[of t] by (intro poster_enabled) auto
    then show ?thesis using that False by (auto simp: thread_step_def)
  qed
  show ?thesis
  proof (cases "w_lock s")
    case (Some t)
    then have "critical (pcs s t)" using assms(1) by (auto simp: pool_inv_def lock_inv_def)
    then show ?thesis using crit by blast
  next
    case None
    show ?thesis
    proof (cases "all_wait s")
      case True
      then obtain t where "announces (pcs s t)" using assms(1,2,4) by (auto simp: pool_inv_def wake_inv_def)
      moreover have "\<not> critical (pcs s t)" using assms(1) None by (auto simp: pool_inv_def lock_inv_def)
      ultimately have "pcs s t = Post_Signal" by (cases "pcs s t") auto
      then show ?thesis using crit None by blast
    next
      case False
      then obtain t where t: "int t < w_num_threads s" "pcs s t \<noteq> Waiting" by (auto simp: all_wait_def)
      then have "\<exists>c r. w_process_step t c s = Some r"
        using wk[of t] assms(5) None by (intro worker_enabled) auto
      then show ?thesis using t by (auto simp: thread_step_def)
    qed
  qed
qed

section \<open>Faults\<close>

lemma lock_owner_unlock:
  "lock_inv s \<Longrightarrow> critical (pcs s t) \<Longrightarrow> mutex_unlock t p s \<noteq> Some (Inl e)"
  by (auto simp: mutex_unlock_def lock_inv_def)

lemma mutex_lock_no_fault: "mutex_lock t p s \<noteq> Some (Inl e)"
  by (simp add: mutex_lock_def)

lemma cond_signal_no_fault: "cond_signal c t p s \<noteq> Some (Inl e)"
  by (simp add: cond_signal_def split: option.splits)

lemma rbind_Inl_iff: "rbind m f = Inl e \<longleftrightarrow> m = Inl e \<or> (\<exists>x. m = Inr x \<and> f x = Inl e)"
  by (cases m) auto

lemma q_next_no_fault:
  assumes "q_inv q h"
  shows "q_next q h \<noteq> Inl e"
proof (cases "0 < q_size q")
  case True
  then show ?thesis using assms q_next_step(1) by (auto simp: q_inv_def)
qed (simp add: q_next_empty)

lemma process_fault:
  assumes "pool_inv s" and "w_process_step t c s = Some (Inl e)"
  shows "e = Null_Deref \<and> (\<exists>j. pcs s t = Perform j \<and> fst j = 0)"
proof -
  have inv: "lock_inv s" "q_inv (w_jobs s) (hp s)" using assms(1) by (auto simp: pool_inv_def queue_inv_def)
  show ?thesis
    using assms(2) lock_owner_unlock[OF inv(1)] q_next_no_fault[OF inv(2)]
    by (cases "pcs s t") (auto simp: w_process_step_def mutex_lock_no_fault cond_signal_no_fault rbind_Inl_iff
        split: if_splits)
qed

lemma create_no_fault:
  assumes "pool_inv s"
  shows "w_create_step t s \<noteq> Some (Inl e)"
proof (cases "\<exists>i. pcs s t = Create i \<and> i < w_num_threads s")
  case True
  then obtain i where i: "pcs s t = Create i" "i < w_num_threads s" by auto
  have inv: "base_inv s" "joiners s" "block_inv s" using assms by (simp_all add: pool_inv_def)
  obtain cs where cs: "w_threads s \<noteq> 0" "mem (hp s) (w_threads s) = Some cs" "int (length cs) = w_num_threads s"
    using inv(3) create_not_Joined[OF inv(2,1) i(1)] by (auto simp: block_inv_def)
  have "store (w_threads s) i (word_of_int i) (hp s) =
      Inr (put_block (w_threads s) (cs[nat i := Some (word_of_int i)]) (hp s))"
    using cs i creator(3)[OF inv(1) i(1)] by (intro store_ok) auto
  then show ?thesis using i by (simp add: w_create_step_def)
next
  case False
  then show ?thesis by (cases "pcs s t") (auto simp: w_create_step_def)
qed

lemma post_fault:
  assumes "pool_inv s" and "w_post_step t c s = Some (Inl e)"
  shows "\<not> q_room (w_jobs s) (hp s) \<and> (\<exists>j. pcs s t = Post_Fn j \<or> pcs s t = Post_Args j)"
proof -
  have inv: "lock_inv s" "q_inv (w_jobs s) (hp s)" using assms(1) by (auto simp: pool_inv_def queue_inv_def)
  have push: "q_push (w_jobs s) v (hp s) = Inl e \<Longrightarrow> \<not> q_room (w_jobs s) (hp s)" for v
    using q_push_ok[OF inv(2), of v] by (metis Inl_Inr_False)
  show ?thesis
    using assms(2) lock_owner_unlock[OF inv(1)] push
    by (cases "pcs s t") (auto simp: w_post_step_def mutex_lock_no_fault cond_signal_no_fault rbind_Inl_iff)
qed

lemma join_no_fault:
  assumes "pool_inv s"
  shows "w_join_step t c s \<noteq> Some (Inl e)"
proof -
  have inv: "joiners s" "block_inv s" "exits s" using assms by (simp_all add: pool_inv_def)
  have live: "\<exists>cs. w_threads s \<noteq> 0 \<and> mem (hp s) (w_threads s) = Some cs \<and> int (length cs) = w_num_threads s \<and>
      (\<forall>i. int i < w_num_threads s \<longrightarrow> cs ! i = Some (word_of_nat i))"
    if "joining (pcs s t)" "past_test (pcs s t)"
  proof -
    have "pcs s u \<noteq> Joined" for u
      using uniqueD[of past_test s t u] inv(1) that by (cases "u = t") (auto simp: joiners_def)
    moreover have "\<not> creating (pcs s (nat (w_num_threads s)))" using inv(1) that(1) unfolding joiners_def by metis
    then have "made s = w_num_threads s" by (simp add: made_def made_at_done)
    ultimately show ?thesis using inv(2) by (auto simp: block_inv_def)
  qed
  show ?thesis
  proof (cases "pcs s t")
    case (Join_Wait i)
    obtain cs where cs: "w_threads s \<noteq> 0" "mem (hp s) (w_threads s) = Some cs" "int (length cs) = w_num_threads s"
      "\<forall>i. int i < w_num_threads s \<longrightarrow> cs ! i = Some (word_of_nat i)" using live Join_Wait by auto
    have "0 \<le> i" using inv(3) Join_Wait by (auto simp: exits_def)
    then have "i < w_num_threads s \<Longrightarrow> load (w_threads s) i (hp s) = Inr (word_of_nat (nat i))"
      using cs by (intro load_ok) auto
    then show ?thesis using Join_Wait by (auto simp: w_join_step_def split: sum.splits)
  next
    case Join_Free
    then show ?thesis using live by (auto simp: w_join_step_def free_def)
  qed (auto simp: w_join_step_def cond_signal_no_fault)
qed

section \<open>Schedules\<close>

text \<open>Running a list of thread steps, with the thread that a signal wakes.\<close>

fun run_sched :: "(nat \<times> nat option) list \<Rightarrow> pool \<Rightarrow> pool option" where
  "run_sched [] s = Some s"
| "run_sched ((t, c) # es) s =
    (case thread_step t c s of Some (Inr s') \<Rightarrow> run_sched es s' | _ \<Rightarrow> None)"

lemma run_sched_reach: "run_sched es s = Some s' \<Longrightarrow> pool_reach n h s \<Longrightarrow> pool_reach n h s'"
  by (induction es s rule: run_sched.induct)
    (auto split: option.splits sum.splits intro: pool_reach.step pool_step.run)

lemma run_sched_steps: "run_sched es s = Some s' \<Longrightarrow> pool_step\<^sup>*\<^sup>* s s'"
  by (induction es s rule: run_sched.induct)
    (auto split: option.splits sum.splits intro: converse_rtranclp_into_rtranclp pool_step.run)

definition heapP :: heap where
  "heapP = \<lparr>mem = (\<lambda>_. None), answers = [1, 2]\<rparr>"

lemma ample_heapP: "ample 2 heapP"
  by (simp add: ample_def heapP_def)

text \<open>A pool with one worker, by the values that its fields can have in the examples.\<close>

definition queue8 :: "int \<Rightarrow> queue" where
  "queue8 n = \<lparr>q_front = 0, q_back = n, q_size = n, q_range_mask = 7, q_data = 1\<rparr>"

definition heap8w :: "cell list \<Rightarrow> cell list \<Rightarrow> heap" where
  "heap8w ws ts = put_block 2 ts (put_block 1 ws (heapP\<lparr>answers := []\<rparr>))"

definition pool1 :: "bool \<Rightarrow> queue \<Rightarrow> nat option \<Rightarrow> heap \<Rightarrow> pc \<Rightarrow> pc \<Rightarrow> job list \<Rightarrow> job list \<Rightarrow> pool" where
  "pool1 b q l h p0 p1 js tk = \<lparr>w_num_threads = 1, w_threads = 2, w_stop = b, w_jobs = q, w_lock = l,
     hp = h, pcs = (\<lambda>_. Idle)(0 := p0, 1 := p1), posted = js, taken = tk, performed = []\<rparr>"

abbreviation empty8 :: "cell list" where
  "empty8 \<equiv> replicate 8 None"

lemma w_create1: "w_create 1 heapP = pool1 False (queue8 0) None (heap8w empty8 [None]) Idle (Create 0) [] []"
  by (simp add: w_create_def q_create_def CUSTOM_QUEUE_DEFAULT_SIZE_def malloc_def heapP_def pool1_def
      queue8_def heap8w_def put_block_def fun_eq_iff)

lemma pool1_fields [simp]:
  "w_num_threads (pool1 b q l h p0 p1 js tk) = 1" "w_threads (pool1 b q l h p0 p1 js tk) = 2"
  "w_stop (pool1 b q l h p0 p1 js tk) = b" "w_jobs (pool1 b q l h p0 p1 js tk) = q"
  "w_lock (pool1 b q l h p0 p1 js tk) = l" "hp (pool1 b q l h p0 p1 js tk) = h"
  "pcs (pool1 b q l h p0 p1 js tk) 0 = p0" "pcs (pool1 b q l h p0 p1 js tk) (Suc 0) = p1"
  "1 < t \<Longrightarrow> pcs (pool1 b q l h p0 p1 js tk) t = Idle"
  "posted (pool1 b q l h p0 p1 js tk) = js" "taken (pool1 b q l h p0 p1 js tk) = tk" "performed (pool1 b q l h p0 p1 js tk) = []"
  by (simp_all add: pool1_def)

lemma pool1_upd [simp]:
  "pool1 b q l h p0 p1 js tk\<lparr>w_lock := l'\<rparr> = pool1 b q l' h p0 p1 js tk"
  "pool1 b q l h p0 p1 js tk\<lparr>w_stop := b'\<rparr> = pool1 b' q l h p0 p1 js tk"
  "pool1 b q l h p0 p1 js tk\<lparr>hp := h'\<rparr> = pool1 b q l h' p0 p1 js tk"
  "pool1 b q l h p0 p1 js tk\<lparr>w_jobs := q', hp := h'\<rparr> = pool1 b q' l h' p0 p1 js tk"
  "pool1 b q l h p0 p1 js tk\<lparr>w_jobs := q', hp := h', posted := js'\<rparr> = pool1 b q' l h' p0 p1 js' tk"
  "pool1 b q l h p0 p1 js tk\<lparr>w_jobs := q'\<rparr> = pool1 b q' l h p0 p1 js tk"
  "pool1 b q l h p0 p1 js tk\<lparr>w_jobs := q', taken := tk'\<rparr> = pool1 b q' l h p0 p1 js tk'"
  "pool1 b q l h p0 p1 js tk\<lparr>taken := tk'\<rparr> = pool1 b q l h p0 p1 js tk'"
  "pool1 b q l h p0 p1 js tk\<lparr>posted := js'\<rparr> = pool1 b q l h p0 p1 js' tk"
  "goto 0 p (pool1 b q l h p0 p1 js tk) = pool1 b q l h p p1 js tk"
  "goto (Suc 0) p (pool1 b q l h p0 p1 js tk) = pool1 b q l h p0 p js tk"
  by (simp_all add: pool1_def goto_def fun_eq_iff)

lemma pool1_heap [simp]:
  "store 2 0 w (heap8w ws [x]) = Inr (heap8w ws [Some w])"
  "load 2 0 (heap8w ws [Some w]) = Inr w"
  "free 2 (heap8w ws ts) = Inr (del_block 2 (heap8w ws ts))"
  "q_is_empty (queue8 n) \<longleftrightarrow> n = 0"
  "q_push (queue8 0) f (heap8w empty8 ts) = Inr (queue8 1, heap8w (empty8[0 := Some f]) ts)"
  "q_push (queue8 1) a (heap8w (empty8[0 := Some f]) ts) =
    Inr (queue8 2, heap8w (empty8[0 := Some f, 1 := Some a]) ts)"
  by (simp_all add: store_def load_def free_def block_of_def heap8w_def q_is_empty_def queue8_def q_push_def
      q_append_def put_block_def fun_eq_iff and_mask_mod [of _ 3, simplified])

lemmas run1 = thread_step_def client_step_def w_process_step_def w_create_step_def w_post_step_def
  w_join_step_def mutex_lock_def mutex_unlock_def cond_signal_def

lemma created1:
  "run_sched [(1, None), (1, None)] (pool1 False (queue8 0) None (heap8w empty8 [None]) Idle (Create 0) [] []) =
    Some (pool1 False (queue8 0) None (heap8w empty8 [Some 0]) Head Idle [] [])"
  by (simp add: run1)

lemma reach1: "pool_reach 1 heapP (pool1 False (queue8 0) None (heap8w empty8 [Some 0]) Head Idle [] [])"
  using run_sched_reach[OF created1, of 1 heapP] pool_reach.start[of 1 heapP] by (simp add: w_create1)

text \<open>The worker reads \<open>_stop\<close> under the lock, \<open>w_join\<close> sets it and signals, then the worker waits.\<close>

lemma worker_to_sleep:
  "run_sched [(0, None), (0, None), (0, None), (0, None)]
      (pool1 False (queue8 0) None (heap8w empty8 [Some 0]) Head Idle [] []) =
    Some (pool1 False (queue8 0) (Some 0) (heap8w empty8 [Some 0]) Sleep Idle [] [])"
  by (simp add: run1)

lemma join_then_wait:
  "run_sched [(1, None), (1, None), (1, None), (0, None)]
      (pool1 False (queue8 0) (Some 0) (heap8w empty8 [Some 0]) Sleep Join_Test [] []) =
    Some (pool1 True (queue8 0) None (heap8w empty8 [Some 0]) Waiting (Join_Wait 0) [] [])"
  by (simp add: run1)

text \<open>The worker finds the queue empty without the lock, a job is posted and the pool is joined,
  then the worker reads \<open>_stop\<close>.\<close>

lemma worker_head:
  "run_sched [(0, None)] (pool1 False (queue8 0) None (heap8w empty8 [Some 0]) Head Idle [] []) =
    Some (pool1 False (queue8 0) None (heap8w empty8 [Some 0]) Head_Stop Idle [] [])"
  by (simp add: run1)

lemma post_job:
  "run_sched [(1, None), (1, None), (1, None), (1, None), (1, None)]
      (pool1 False (queue8 0) None (heap8w empty8 [Some 0]) Head_Stop (Post_Lock (f, a)) [] []) =
    Some (pool1 False (queue8 2) None (heap8w (empty8[0 := Some f, 1 := Some a]) [Some 0]) Head_Stop Idle [(f, a)] [])"
  by (simp add: run1)

lemma join_late:
  "run_sched [(1, None), (1, None), (1, None), (0, None), (1, None), (1, None), (1, None)]
      (pool1 False (queue8 2) None (heap8w ws [Some 0]) Head_Stop Join_Test js []) =
    Some (pool1 True (queue8 2) None (del_block 2 (heap8w ws [Some 0])) Exited Joined js [])"
  by (simp add: run1)


definition posted_pool :: "64 word \<Rightarrow> 64 word \<Rightarrow> pool" where
  "posted_pool f a = pool1 False (queue8 2) None (heap8w (empty8[0 := Some f, 1 := Some a]) [Some 0])
     Head_Stop Idle [(f, a)] []"

lemma reach_posted: "pool_reach 1 heapP (posted_pool f a)"
proof -
  let ?s = "pool1 False (queue8 0) None (heap8w empty8 [Some 0]) Head_Stop Idle [] []"
  have "pool_step ?s (goto 1 (Post_Lock (f, a)) ?s)" by (rule pool_step.call_post) simp_all
  then have "pool_reach 1 heapP (pool1 False (queue8 0) None (heap8w empty8 [Some 0]) Head_Stop (Post_Lock (f, a)) [] [])"
    using pool_reach.step[OF run_sched_reach[OF worker_head reach1]] by simp
  then show ?thesis unfolding posted_pool_def by (rule run_sched_reach[OF post_job])
qed

definition lost_pool :: "64 word \<Rightarrow> 64 word \<Rightarrow> pool" where
  "lost_pool f a = pool1 True (queue8 2) None (del_block 2 (heap8w (empty8[0 := Some f, 1 := Some a]) [Some 0]))
     Exited Joined [(f, a)] []"

text \<open>From the state after the post, \<open>w_join\<close> is called and the worker reads \<open>_stop\<close> after it was set.\<close>

lemma steps_lost: "pool_step\<^sup>*\<^sup>* (posted_pool f a) (lost_pool f a)"
proof -
  have "pool_step (posted_pool f a) (goto 1 Join_Test (posted_pool f a))"
    by (rule pool_step.call_join) (simp_all add: posted_pool_def, simp add: pool1_def)
  then have "pool_step (posted_pool f a) (pool1 False (queue8 2) None (heap8w (empty8[0 := Some f, 1 := Some a]) [Some 0])
      Head_Stop Join_Test [(f, a)] [])"
    by (simp add: posted_pool_def)
  also have "pool_step\<^sup>*\<^sup>* \<dots> (lost_pool f a)" unfolding lost_pool_def by (rule run_sched_steps[OF join_late])
  finally (converse_rtranclp_into_rtranclp) show ?thesis .
qed

lemma reach_steps: "pool_step\<^sup>*\<^sup>* s s' \<Longrightarrow> pool_reach n h s \<Longrightarrow> pool_reach n h s'"
  by (induction rule: rtranclp_induct) (auto intro: pool_reach.step)

lemma reach_lost: "pool_reach 1 heapP (lost_pool f a)"
  by (rule reach_steps[OF steps_lost reach_posted])

definition null_job_pool :: pool where
  "null_job_pool = pool1 False \<lparr>q_front = 2, q_back = 2, q_size = 0, q_range_mask = 7, q_data = 1\<rparr> None
     (heap8w (empty8[0 := Some 0, 1 := Some 5]) [Some 0]) (Perform (0, 5)) Idle [(0, 5)] [(0, 5)]"

lemma take8:
  "q_next (queue8 2) (heap8w (empty8[0 := Some f, 1 := Some a]) ts) =
    Inr (f, \<lparr>q_front = 1, q_back = 2, q_size = 1, q_range_mask = 7, q_data = 1\<rparr>)"
  "q_next \<lparr>q_front = 1, q_back = 2, q_size = 1, q_range_mask = 7, q_data = 1\<rparr>
      (heap8w (empty8[0 := Some f, 1 := Some a]) ts) =
    Inr (a, \<lparr>q_front = 2, q_back = 2, q_size = 0, q_range_mask = 7, q_data = 1\<rparr>)"
  by (simp_all add: q_next_def queue8_def load_def block_of_def heap8w_def and_mask_mod [of _ 3, simplified])

lemma reach_null_job: "pool_reach 1 heapP null_job_pool"
proof -
  have "run_sched [(0, None), (0, None), (0, None), (0, None), (0, None), (0, None), (0, None), (0, None)]
      (posted_pool 0 5) = Some null_job_pool"
    by (simp add: run1 posted_pool_def null_job_pool_def take8 [simplified])
  then show ?thesis using run_sched_reach reach_posted by blast
qed

lemma null_job_fault: "thread_step 0 None null_job_pool = Some (Inl Null_Deref)"
  by (simp add: run1 null_job_pool_def)

section \<open>Properties\<close>

text \<open>C11: In every reachable state at most one thread is between \<open>pthread_mutex_lock\<close> and
  \<open>pthread_mutex_unlock\<close>, and it owns the lock.\<close>

theorem pool_mutual_exclusion:
  assumes "pool_reach n h s" and "0 \<le> n" and "n < 2 ^ 60" and "ample 2 h"
    and "critical (pcs s t)" and "critical (pcs s u)"
  shows "t = u \<and> w_lock s = Some t"
  using pool_reach_inv[OF assms(1-4)] assms(5,6) by (auto simp: pool_inv_def lock_inv_def)

lemma pool_mutual_exclusion_witness:
  "0 = (0 :: nat) \<and> w_lock (pool1 False (queue8 0) (Some 0) (heap8w empty8 [Some 0]) Sleep Idle [] []) = Some 0"
  by (rule pool_mutual_exclusion[OF run_sched_reach[OF worker_to_sleep reach1] _ _ ample_heapP]) simp_all

text \<open>C9: In every reachable state the workers have taken a prefix of the posted jobs, in posting
  order and each with its own argument, and every taken job was either performed exactly once or is
  in the hands of exactly one worker: no job is split, duplicated, invented or dropped once taken.\<close>

theorem pool_jobs_exact:
  assumes "pool_reach n h s" and "0 \<le> n" and "n < 2 ^ 60" and "ample 2 h"
  shows "\<exists>pend. posted s = taken s @ pend \<and> mset (taken s) = mset (performed s) + flight s"
  using pool_reach_inv[OF assms] by (auto simp: pool_inv_def queue_inv_def flight_inv_def)

lemma pool_jobs_exact_witness:
  "taken null_job_pool = [(0, 5)] \<and> (\<exists>pend. posted null_job_pool = taken null_job_pool @ pend \<and>
    mset (taken null_job_pool) = mset (performed null_job_pool) + flight null_job_pool)"
proof -
  have "\<exists>pend. posted null_job_pool = taken null_job_pool @ pend \<and>
    mset (taken null_job_pool) = mset (performed null_job_pool) + flight null_job_pool"
    by (rule pool_jobs_exact[OF reach_null_job _ _ ample_heapP]) simp_all
  then show ?thesis by (simp add: null_job_pool_def)
qed

text \<open>C19: The only faults a reachable pool can run into are a \<open>q_push\<close> for which the queue has no
  room, and a job that was posted with a null function: no access is out of bounds, no thread
  unlocks a mutex it does not own, and the array of thread handles is freed once.\<close>

theorem pool_faults:
  assumes "pool_reach n h s" and "0 \<le> n" and "n < 2 ^ 60" and "ample 2 h" and "thread_step t c s = Some (Inl e)"
  shows "\<not> q_room (w_jobs s) (hp s) \<and> (\<exists>j. pcs s t = Post_Fn j \<or> pcs s t = Post_Args j) \<or>
    e = Null_Deref \<and> (\<exists>j. pcs s t = Perform j \<and> fst j = 0)"
proof -
  have inv: "pool_inv s" using pool_reach_inv[OF assms(1-4)] by simp
  show ?thesis
    using assms(5) process_fault[OF inv] create_no_fault[OF inv] post_fault[OF inv] join_no_fault[OF inv]
    by (auto simp: thread_step_def client_step_def split: if_splits option.splits)
qed

lemma pool_faults_witness:
  "\<not> q_room (w_jobs null_job_pool) (hp null_job_pool) \<and>
      (\<exists>j. pcs null_job_pool 0 = Post_Fn j \<or> pcs null_job_pool 0 = Post_Args j) \<or>
    Null_Deref = Null_Deref \<and> (\<exists>j. pcs null_job_pool 0 = Perform j \<and> fst j = 0)"
  by (rule pool_faults[OF reach_null_job _ _ ample_heapP null_job_fault]) simp_all

text \<open>C14: When \<open>w_join\<close> has returned (past its first test), every worker has returned, and every
  posted job was performed exactly once, except those that are still in the queue.\<close>

theorem pool_joined:
  assumes "pool_reach n h s" and "0 \<le> n" and "n < 2 ^ 60" and "ample 2 h" and "pcs s t = Joined"
  shows "(\<forall>u. int u < n \<longrightarrow> pcs s u = Exited) \<and>
    (\<exists>pend. posted s = taken s @ pend \<and> mset (posted s) = mset (performed s) + mset pend)"
proof -
  note inv = pool_reach_inv[OF assms(1-4)]
  then have ex: "\<forall>u. int u < n \<longrightarrow> pcs s u = Exited"
    using assms(5) unfolding pool_inv_def exits_def by (metis waited.simps(3))
  then have "flight s = {#}" using inv by (auto simp: flight_def intro!: sum.neutral)
  moreover obtain pend where "posted s = taken s @ pend" "mset (taken s) = mset (performed s) + flight s"
    using inv by (auto simp: pool_inv_def queue_inv_def flight_inv_def)
  ultimately show ?thesis using ex by (intro conjI exI[of _ pend]) auto
qed

lemma pool_joined_witness:
  "pcs (lost_pool 7 8) 0 = Exited \<and>
    (\<exists>pend. posted (lost_pool 7 8) = taken (lost_pool 7 8) @ pend \<and>
      mset (posted (lost_pool 7 8)) = mset (performed (lost_pool 7 8)) + mset pend)"
proof -
  have "(\<forall>u. int u < 1 \<longrightarrow> pcs (lost_pool 7 8) u = Exited) \<and>
    (\<exists>pend. posted (lost_pool 7 8) = taken (lost_pool 7 8) @ pend \<and>
      mset (posted (lost_pool 7 8)) = mset (performed (lost_pool 7 8)) + mset pend)"
    by (rule pool_joined[OF reach_lost _ _ ample_heapP, where t = 1]) (simp_all add: lost_pool_def)
  then show ?thesis by simp
qed

text \<open>No wake-up of a posted job is lost: as long as no worker has returned, a created pool with
  a job in its queue can always take a step, by a worker, by the owner of the lock, or by a client
  that is about to signal.\<close>

theorem pool_progress:
  assumes "pool_reach n h s" and "0 < n" and "n < 2 ^ 60" and "ample 2 h"
    and "\<not> creating (pcs s (nat n))" and "\<not> q_is_empty (w_jobs s)" and "\<forall>u. int u < n \<longrightarrow> pcs s u \<noteq> Exited"
  shows "\<exists>t c r. thread_step t c s = Some r \<and> (int t < n \<or> critical (pcs s t) \<or> pcs s t = Post_Signal)"
  using pool_not_stuck[of s] pool_reach_inv[OF assms(1) _ assms(3,4)] assms(2,5-7) by auto

lemma pool_progress_witness:
  "\<exists>t c r. thread_step t c (posted_pool 7 8) = Some r \<and>
    (int t < 1 \<or> critical (pcs (posted_pool 7 8) t) \<or> pcs (posted_pool 7 8) t = Post_Signal)"
  by (rule pool_progress[OF reach_posted _ _ ample_heapP]) (simp_all add: posted_pool_def)

text \<open>C13: The wake-up of \<open>w_join\<close> can be lost: it sets \<open>_stop\<close> and signals without the lock, so a
  worker that has just read \<open>_stop\<close> starts to wait afterwards.  In that reachable state no thread
  can ever take a step again: the worker waits for a signal and \<open>w_join\<close> for the worker.\<close>

theorem join_deadlock:
  "\<exists>s. pool_reach 1 heapP s \<and> pcs s 0 = Waiting \<and> pcs s 1 = Join_Wait 0 \<and>
    (\<forall>t c. thread_step t c s = None)"
proof (intro exI conjI allI)
  let ?s = "pool1 True (queue8 0) None (heap8w empty8 [Some 0]) Waiting (Join_Wait 0) [] []"
  have "pool_step (pool1 False (queue8 0) (Some 0) (heap8w empty8 [Some 0]) Sleep Idle [] [])
      (goto 1 Join_Test (pool1 False (queue8 0) (Some 0) (heap8w empty8 [Some 0]) Sleep Idle [] []))"
    by (rule pool_step.call_join) (simp_all, simp add: pool1_def)
  then have "pool_reach 1 heapP (pool1 False (queue8 0) (Some 0) (heap8w empty8 [Some 0]) Sleep Join_Test [] [])"
    using pool_reach.step[OF run_sched_reach[OF worker_to_sleep reach1]] by simp
  then show "pool_reach 1 heapP ?s" by (rule run_sched_reach[OF join_then_wait])
  show "pcs ?s 0 = Waiting" "pcs ?s 1 = Join_Wait 0" by simp_all
  fix t :: nat and c
  consider "t = 0" | "t = 1" | "1 < t" by (cases "t = 0"; cases "t = 1") auto
  then show "thread_step t c ?s = None" by cases (simp_all add: run1)
qed

text \<open>C12: A job that was posted before \<open>w_join\<close> was called can be lost.  There is a reachable state in which a call
  of \<open>w_post\<close> has returned, so that the job is in the queue, while \<open>_stop\<close> is not set and nobody has called \<open>w_join\<close>; and from there the
  pool can reach a state in which \<open>w_join\<close> has returned, the job has not been performed, and no thread has a step left: a
  worker that has found the queue empty without the lock returns when it then reads \<open>_stop\<close>, although a job was posted in
  between.\<close>

theorem posted_job_lost:
  "\<exists>s0 s. pool_reach 1 heapP s0 \<and> posted s0 = [(f, a)] \<and> pcs s0 1 = Idle \<and> \<not> w_stop s0 \<and>
    (\<forall>t. \<not> joining (pcs s0 t) \<and> \<not> past_test (pcs s0 t)) \<and>
    pool_step\<^sup>*\<^sup>* s0 s \<and> pcs s 1 = Joined \<and> posted s = [(f, a)] \<and> performed s = [] \<and>
    (\<forall>t c. thread_step t c s = None)"
proof (intro exI conjI allI)
  show "pool_reach 1 heapP (posted_pool f a)" by (rule reach_posted)
  show "posted (posted_pool f a) = [(f, a)]" "pcs (posted_pool f a) 1 = Idle" "\<not> w_stop (posted_pool f a)"
    by (simp_all add: posted_pool_def)
  show "\<not> joining (pcs (posted_pool f a) t)" "\<not> past_test (pcs (posted_pool f a) t)" for t
    by (simp_all add: posted_pool_def pool1_def)
  show "pool_step\<^sup>*\<^sup>* (posted_pool f a) (lost_pool f a)" by (rule steps_lost)
  show "pcs (lost_pool f a) 1 = Joined" "posted (lost_pool f a) = [(f, a)]" "performed (lost_pool f a) = []"
    by (simp_all add: lost_pool_def)
  fix t :: nat and c
  consider "t = 0" | "t = 1" | "1 < t" by (cases "t = 0"; cases "t = 1") auto
  then show "thread_step t c (lost_pool f a) = None" by cases (simp_all add: run1 lost_pool_def)
qed

end
