(* ===== verification/Pool_Memory.thy ===== *)
theory Pool_Memory
  imports Pool_Properties
begin

text \<open>
  The memory of the thread pool: which blocks of the heap are its own in every reachable state, and what
  \<open>w_join\<close> leaves behind.  \<open>others s\<close> is the heap without the blocks of the pool; no step changes it.
\<close>

section \<open>The blocks of the pool\<close>

definition joined :: "pool \<Rightarrow> bool" where
  "joined s \<longleftrightarrow> (\<exists>t. pcs s t = Joined)"

definition others :: "pool \<Rightarrow> ptr \<Rightarrow> cell list option" where
  "others s = (if joined s then (mem (hp s))(q_data (w_jobs s) := None)
    else (mem (hp s))(q_data (w_jobs s) := None, w_threads s := None))"

lemma unjoined_upd [simp]:
  "joined (s\<lparr>w_lock := l\<rparr>) = joined s" "joined (s\<lparr>w_jobs := q\<rparr>) = joined s" "joined (s\<lparr>w_stop := b\<rparr>) = joined s"
  "joined (s\<lparr>hp := h\<rparr>) = joined s" "joined (s\<lparr>posted := js\<rparr>) = joined s" "joined (s\<lparr>taken := js\<rparr>) = joined s"
  "joined (s\<lparr>performed := js\<rparr>) = joined s"
  by (simp_all add: joined_def)

lemma others_upd [simp]:
  "others (s\<lparr>w_lock := l\<rparr>) = others s" "others (s\<lparr>w_stop := b\<rparr>) = others s" "others (s\<lparr>posted := js\<rparr>) = others s"
  "others (s\<lparr>taken := js\<rparr>) = others s" "others (s\<lparr>performed := js\<rparr>) = others s"
  by (simp_all add: others_def)

lemma unjoined_goto: "pcs s t \<noteq> Joined \<Longrightarrow> p \<noteq> Joined \<Longrightarrow> joined (goto t p s) = joined s"
  unfolding joined_def pcs_goto by metis

lemma others_goto: "pcs s t \<noteq> Joined \<Longrightarrow> p \<noteq> Joined \<Longrightarrow> others (goto t p s) = others s"
  by (simp add: others_def unjoined_goto)

lemma others_jobs: "q_data q = q_data (w_jobs s) \<Longrightarrow> others (s\<lparr>w_jobs := q\<rparr>) = others s"
  by (simp add: others_def)

lemma moves_to_Joined:
  "moves s p q \<Longrightarrow> q \<noteq> Joined" "locks p = Some q \<Longrightarrow> q \<noteq> Joined"
  "unlocks p = Some q \<Longrightarrow> q \<noteq> Joined" "signals p = Some q \<Longrightarrow> q \<noteq> Joined"
  by (cases p; auto split: if_splits)+

lemma others_push:
  assumes "replaced (q_data (w_jobs s)) (q_data q) (hp s) h" and "block_inv s"
  shows "others (s\<lparr>w_jobs := q, hp := h\<rparr>) = others s"
proof (cases "joined s")
  case True
  then show ?thesis using assms(1) by (auto simp: others_def replaced_def fun_eq_iff)
next
  case False
  then show ?thesis using assms(1) by (auto simp: others_def replaced_def fun_eq_iff)
qed

lemma others_effect:
  assumes "effect t s s'" and "base_inv s" and "joiners s" and "q_inv (w_jobs s) (hp s)" and "block_inv s"
  shows "others s' = others s"
  using assms(1)
proof (cases rule: effect.cases)
  case (move p)
  then show ?thesis using moves_not_Joined(1) moves_to_Joined(1) by (metis others_goto)
next
  case (lock p)
  then show ?thesis using others_goto[of "s\<lparr>w_lock := Some t\<rparr>" t p] moves_not_Joined(2) moves_to_Joined(2) by simp
next
  case (unlock p)
  then show ?thesis using others_goto[of "s\<lparr>w_lock := None\<rparr>" t p] moves_not_Joined(3) moves_to_Joined(3) by simp
next
  case (wake p u)
  have "others (goto u Woken s) = others s" using wake(3) by (intro others_goto) simp_all
  moreover have "u \<noteq> t" using wake(2,3) by auto
  ultimately show ?thesis
    using wake(1) moves_not_Joined(4)[OF wake(2)] moves_to_Joined(4)[OF wake(2)] by (simp add: others_goto)
next
  case (signal p)
  then show ?thesis using moves_not_Joined(4) moves_to_Joined(4) by (metis others_goto)
next
  case (take_fn f q)
  then show ?thesis using others_goto[of "s\<lparr>w_jobs := q\<rparr>" t] others_jobs q_next_data by simp
next
  case (take_args f a q)
  then show ?thesis
    using others_goto[of "s\<lparr>w_jobs := q, taken := taken s @ [(f, a)]\<rparr>" t "Unlock (f, a)"] others_jobs q_next_data by simp
next
  case (create i h)
  note c = creator(5)[OF assms(2) create(2,3)]
  have "others (s\<lparr>hp := h\<rparr>) = others s"
    using block_create(2,3)[OF assms(5,2,3) create(2-4)] create_not_Joined[OF assms(3,2) create(2)]
    by (auto simp: others_def joined_def fun_eq_iff)
  moreover have "others (goto (nat i) Head (s\<lparr>hp := h\<rparr>)) = others (s\<lparr>hp := h\<rparr>)" using c by (intro others_goto) simp_all
  ultimately show ?thesis using create c by (simp add: others_goto)
next
  case (push_fn j q h)
  then show ?thesis using others_push[OF q_push_InrD(3)[OF assms(4) push_fn(3)] assms(5)]
      others_goto[of "s\<lparr>w_jobs := q, hp := h\<rparr>" t "Post_Args j"] by simp
next
  case (push_args j q h)
  then show ?thesis using others_push[OF q_push_InrD(3)[OF assms(4) push_args(3)] assms(5)]
      others_goto[of "s\<lparr>w_jobs := q, hp := h, posted := posted s @ [j]\<rparr>" t Post_Unlock] by simp
next
  case (release h)
  have "pcs s u \<noteq> Joined" for u
    using uniqueD[of past_test s t u] assms(3) release(2) by (cases "u = t") (auto simp: joiners_def)
  then have "\<not> joined s" "w_threads s \<noteq> 0" "mem (hp s) (w_threads s) \<noteq> None" using assms(5) by (auto simp: joined_def block_inv_def)
  moreover have "joined s'" using release(1) by (auto simp: joined_def)
  ultimately show ?thesis using release(1,3) by (auto simp: others_def free_def fun_eq_iff)
qed (use others_goto in \<open>auto simp: others_goto\<close>)

lemma others_create:
  assumes "ample 2 h"
  shows "others (w_create n h) = mem h"
proof -
  have a: "can_alloc h" using assms ample_can_alloc[of 1] by (simp add: numeral_2_eq_2)
  obtain q h1 where q: "q_create h = (q, h1)" "q_inv q h1" "q_list q h1 = []" "mem h (q_data q) = None"
    "q_data q \<noteq> 0" "\<forall>a. a \<noteq> q_data q \<longrightarrow> mem h1 a = mem h a" "answers h1 = tl (answers h)" "q_data q = hd (answers h)"
    by (rule q_create_ok[OF a])
  have "ample 1 h1" using assms q(4,6,7,8) by (intro ample_step[of 1 h]) (auto simp: numeral_2_eq_2)
  then have "can_alloc h1" using ample_can_alloc[of 0] by simp
  then obtain p where p: "p \<noteq> 0" "mem h1 p = None"
    "\<And>k. malloc k h1 = (p, put_block p (replicate (unat k div 8) None) (h1\<lparr>answers := tl (answers h1)\<rparr>))"
    using malloc_ok by metis
  have "q_data q \<noteq> p" using q(2) p(2) by (auto simp: q_inv_def q_shape_def)
  then have "mem h p = None" using q(6) p(2) by simp
  moreover have "pcs (w_create n h) t \<noteq> Joined" for t by (simp add: w_create_def split: prod.split)
  ultimately show ?thesis using q(4,6) p(2) \<open>q_data q \<noteq> p\<close>
    by (auto simp: others_def joined_def w_create_def q(1) p(3) fun_eq_iff)
qed

lemma pool_reach_others:
  assumes "pool_reach n h s" and "0 \<le> n" and "n < 2 ^ 60" and "ample 2 h"
  shows "others s = mem h"
  using assms(1)
proof (induction rule: pool_reach.induct)
  case start
  then show ?case by (rule others_create[OF assms(4)])
next
  case (step s s')
  have inv: "pool_inv s" using pool_reach_inv[OF step.hyps(1) assms(2-4)] by simp
  obtain t where "effect t s s'" using pool_step_effect[OF step.hyps(2)] by auto
  then have "others s' = others s" by (rule others_effect) (use inv in \<open>auto simp: pool_inv_def queue_inv_def\<close>)
  then show ?case using step.IH by simp
qed

section \<open>Properties\<close>

text \<open>C15: The memory of the pool, in every reachable state, under every interleaving.  Until \<open>w_join\<close> has returned, the heap is
  the one before \<open>w_create\<close> with exactly two new blocks, the buffer of the job queue and the array of thread handles.
  Once \<open>w_join\<close> has returned, the array is freed, but the buffer of the queue is still there: \<open>w_join\<close>, the
  last function of the pool that its users call, leaks it, for nobody calls \<open>q_destroy\<close>.\<close>

theorem pool_memory:
  assumes "pool_reach n h s" and "0 \<le> n" and "n < 2 ^ 60" and "ample 2 h"
  shows "mem h (q_data (w_jobs s)) = None \<and>
    ((\<exists>t. pcs s t = Joined) \<longrightarrow> (\<exists>cs. mem (hp s) = (mem h)(q_data (w_jobs s) \<mapsto> cs))) \<and>
    ((\<forall>t. pcs s t \<noteq> Joined) \<longrightarrow> mem h (w_threads s) = None \<and> w_threads s \<noteq> q_data (w_jobs s) \<and>
      (\<exists>cs ts. mem (hp s) = (mem h)(q_data (w_jobs s) \<mapsto> cs, w_threads s \<mapsto> ts)))"
proof -
  have inv: "q_inv (w_jobs s) (hp s)" "block_inv s"
    using pool_reach_inv[OF assms] by (simp_all add: pool_inv_def queue_inv_def)
  obtain cs where cs: "mem (hp s) (q_data (w_jobs s)) = Some cs" using inv(1) by (auto simp: q_inv_def q_shape_def)
  note o = pool_reach_others[OF assms, symmetric]
  have free: "mem h (q_data (w_jobs s)) = None" unfolding o by (simp add: others_def)
  show ?thesis
  proof (intro conjI impI)
    assume "\<exists>t. pcs s t = Joined"
    then have "mem h = (mem (hp s))(q_data (w_jobs s) := None)" unfolding o by (auto simp: others_def joined_def)
    then have "mem (hp s) = (mem h)(q_data (w_jobs s) \<mapsto> cs)" using cs by (auto simp: fun_eq_iff)
    then show "\<exists>cs. mem (hp s) = (mem h)(q_data (w_jobs s) \<mapsto> cs)" by blast
  next
    assume none: "\<forall>t. pcs s t \<noteq> Joined"
    then have m: "mem h = (mem (hp s))(q_data (w_jobs s) := None, w_threads s := None)"
      unfolding o by (auto simp: others_def joined_def)
    then show "mem h (w_threads s) = None" by simp
    obtain ts where ts: "mem (hp s) (w_threads s) = Some ts" "w_threads s \<noteq> q_data (w_jobs s)"
      using inv(2) none by (auto simp: block_inv_def)
    then show "w_threads s \<noteq> q_data (w_jobs s)" by simp
    have "mem (hp s) = (mem h)(q_data (w_jobs s) \<mapsto> cs, w_threads s \<mapsto> ts)" using m cs ts by (auto simp: fun_eq_iff)
    then show "\<exists>cs ts. mem (hp s) = (mem h)(q_data (w_jobs s) \<mapsto> cs, w_threads s \<mapsto> ts)" by blast
  qed (rule free)
qed

lemma pool_memory_witness:
  "mem heapP 1 = None \<and> (\<exists>cs. mem (hp (lost_pool 7 8)) = (mem heapP)(1 \<mapsto> cs))"
proof -
  have d: "q_data (w_jobs (lost_pool 7 8)) = 1" "pcs (lost_pool 7 8) 1 = Joined" by (simp_all add: lost_pool_def queue8_def)
  have "mem heapP (q_data (w_jobs (lost_pool 7 8))) = None \<and>
    ((\<exists>t. pcs (lost_pool 7 8) t = Joined) \<longrightarrow> (\<exists>cs. mem (hp (lost_pool 7 8)) = (mem heapP)(q_data (w_jobs (lost_pool 7 8)) \<mapsto> cs))) \<and>
    ((\<forall>t. pcs (lost_pool 7 8) t \<noteq> Joined) \<longrightarrow> mem heapP (w_threads (lost_pool 7 8)) = None \<and>
      w_threads (lost_pool 7 8) \<noteq> q_data (w_jobs (lost_pool 7 8)) \<and>
      (\<exists>cs ts. mem (hp (lost_pool 7 8)) = (mem heapP)(q_data (w_jobs (lost_pool 7 8)) \<mapsto> cs, w_threads (lost_pool 7 8) \<mapsto> ts)))"
    by (rule pool_memory[OF reach_lost _ _ ample_heapP]) simp_all
  then show ?thesis using d by auto
qed

end
