(* ===== verification/Pool_Rest.thy ===== *)
theory Pool_Rest
  imports Pool_Properties
begin

text \<open>
  The pool of \<open>workers.c\<close> comes to rest.  A measure of what the threads may still do and of the values in the
  queue decreases with every step but a new call and a spurious wake-up; and where no thread can take a step, either \<open>_stop\<close>
  is not set, every worker waits, the queue is empty and all posted jobs were performed, or \<open>w_join\<close> has returned or waits for
  a worker that has missed its signal.
\<close>

section \<open>The steps that are left\<close>

text \<open>A step by which a thread executes a statement: not a new call, and not a spurious wake-up.\<close>

definition pool_work :: "pool \<Rightarrow> pool \<Rightarrow> bool" where
  "pool_work s s' \<longleftrightarrow> (\<exists>t c. thread_step t c s = Some (Inr s'))"

definition at_rest :: "pool \<Rightarrow> bool" where
  "at_rest s \<longleftrightarrow> (\<forall>t c. thread_step t c s = None)"

text \<open>What a thread may still do before it waits or returns; a value in the queue counts 14, a worker that is
  woken 5.\<close>

fun pc_left :: "int \<Rightarrow> pc \<Rightarrow> nat" where
  "pc_left n Head = 12" | "pc_left n Head_Stop = 11" | "pc_left n Acquire = 10" | "pc_left n Woken = 10"
| "pc_left n Test = 9" | "pc_left n Check = 8" | "pc_left n Sleep = 6" | "pc_left n Waiting = 5"
| "pc_left n Break_Unlock = 7" | "pc_left n Break_Signal = 6" | "pc_left n Take_Fn = 7" | "pc_left n (Take_Args f) = 7"
| "pc_left n (Unlock j) = 20" | "pc_left n (Notify j) = 19" | "pc_left n (Perform j) = 13" | "pc_left n Exited = 0"
| "pc_left n Idle = 0" | "pc_left n (Create i) = 1 + 13 * nat (n - i)"
| "pc_left n (Post_Lock j) = 38" | "pc_left n (Post_Fn j) = 37" | "pc_left n (Post_Args j) = 22"
| "pc_left n Post_Unlock = 7" | "pc_left n Post_Signal = 6"
| "pc_left n Join_Test = 10 + nat n" | "pc_left n Join_Stop = 9 + nat n" | "pc_left n Join_Signal = 8 + nat n"
| "pc_left n (Join_Wait i) = 2 + nat (n - i)" | "pc_left n Join_Free = 1" | "pc_left n Joined = 0"

definition cells :: "pool \<Rightarrow> nat" where
  "cells s = nat (q_size (w_jobs s))"

definition pool_left :: "nat \<Rightarrow> pool \<Rightarrow> nat" where
  "pool_left N s = 14 * cells s + (\<Sum>t < N. pc_left (w_num_threads s) (pcs s t))"

lemma pc_left_less:
  "moves s p q \<Longrightarrow> p \<noteq> Waiting \<Longrightarrow> pc_left (w_num_threads s) q < pc_left (w_num_threads s) p"
  "locks p = Some q \<Longrightarrow> pc_left n q < pc_left n p" "unlocks p = Some q \<Longrightarrow> pc_left n q < pc_left n p"
  "signals p = Some q \<Longrightarrow> pc_left n q + 5 < pc_left n p"
  by (cases p; auto split: if_splits)+

lemma pool_left_goto:
  assumes "t < N"
  shows "pool_left N (goto t p s) + pc_left (w_num_threads s) (pcs s t) = pool_left N s + pc_left (w_num_threads s) p"
proof -
  have t: "t \<in> {..<N}" using assms by simp
  have "(\<Sum>u \<in> {..<N} - {t}. pc_left (w_num_threads s) (if u = t then p else pcs s u)) =
      (\<Sum>u \<in> {..<N} - {t}. pc_left (w_num_threads s) (pcs s u))"
    by (intro sum.cong) auto
  then show ?thesis unfolding pool_left_def cells_def by (simp add: sum.remove[OF finite_lessThan t])
qed

lemma pool_left_upd [simp]:
  "pool_left N (s\<lparr>w_lock := l\<rparr>) = pool_left N s" "pool_left N (s\<lparr>w_stop := b\<rparr>) = pool_left N s"
  "pool_left N (s\<lparr>hp := h\<rparr>) = pool_left N s" "pool_left N (s\<lparr>posted := js\<rparr>) = pool_left N s"
  "pool_left N (s\<lparr>taken := js\<rparr>) = pool_left N s" "pool_left N (s\<lparr>performed := js\<rparr>) = pool_left N s"
  by (simp_all add: pool_left_def cells_def)

lemma pool_left_jobs: "pool_left N (s\<lparr>w_jobs := q\<rparr>) + 14 * cells s = pool_left N s + 14 * nat (q_size q)"
  by (simp add: pool_left_def cells_def)

text \<open>Taking shortens the queue by one value, posting makes it longer by one.\<close>

lemma cells_list: "queue_inv s \<Longrightarrow> cells s = length (q_list (w_jobs s) (hp s))"
  using length_q_list[of "w_jobs s" "hp s"] by (simp add: cells_def queue_inv_def)

lemma flat_tl: "pend \<noteq> [] \<Longrightarrow> tl (flat pend) \<noteq> []"
  by (cases pend) auto

lemma take_cells:
  assumes "pool_inv s" and "pcs s t = Take_Fn \<or> pcs s t = Take_Args f" and "q_next (w_jobs s) (hp s) = Inr (v, q)"
  shows "cells s = Suc (nat (q_size q))"
proof -
  have inv: "queue_inv s" "lock_inv s" using assms(1) by (simp_all add: pool_inv_def)
  have "critical (pcs s t)" using assms(2) by auto
  then have "owner_pc s = pcs s t" using owner_self[OF inv(2)] by simp
  then obtain pend where "content (w_stop s) (pcs s t) pend (q_list (w_jobs s) (hp s))" using inv(1) by (auto simp: queue_inv_def)
  then have "q_list (w_jobs s) (hp s) \<noteq> []" using assms(2) flat_tl[of pend] by auto
  then have "0 < q_size (w_jobs s)" using length_q_list[of "w_jobs s" "hp s"] inv(1)
    by (cases "q_list (w_jobs s) (hp s)") (auto simp: queue_inv_def)
  then show ?thesis using assms(3) by (auto simp: q_next_def cells_def chk_long_def rbind_Inr_iff split: if_splits)
qed

lemma push_cells:
  assumes "pool_inv s" and "q_push (w_jobs s) v (hp s) = Inr (q, h)"
  shows "nat (q_size q) = Suc (cells s)"
proof -
  have inv: "q_inv (w_jobs s) (hp s)" using assms(1) by (simp add: pool_inv_def queue_inv_def)
  have "int (length (q_list q h)) = q_size q" "q_list q h = q_list (w_jobs s) (hp s) @ [v]"
    using q_push_frame[OF inv assms(2)] length_q_list by blast+
  then show ?thesis using length_q_list[OF inv] by (simp add: cells_def)
qed

lemma thread_step_from: "thread_step t c s = Some r \<Longrightarrow> pcs s t \<noteq> Idle \<and> pcs s t \<noteq> Waiting"
  by (auto simp: thread_step_def client_step_def w_process_step_def w_create_step_def w_post_step_def w_join_step_def split: if_splits)

lemma thread_step_effect: "thread_step t c s = Some (Inr s') \<Longrightarrow> effect t s s'"
  unfolding thread_step_def client_step_def
  by (auto split: if_splits option.splits intro: w_process_effect w_create_effect w_post_effect w_join_effect)

text \<open>Beyond \<open>N\<close> every client is idle.\<close>

definition idle_from :: "nat \<Rightarrow> pool \<Rightarrow> bool" where
  "idle_from N s \<longleftrightarrow> w_num_threads s \<le> int N \<and> (\<forall>t \<ge> N. pcs s t = Idle)"

lemma idle_goto: "idle_from N s \<Longrightarrow> t < N \<Longrightarrow> idle_from N (goto t p s)"
  by (simp add: idle_from_def)

lemma idle_upd [simp]:
  "idle_from N (s\<lparr>w_lock := l\<rparr>) = idle_from N s" "idle_from N (s\<lparr>w_stop := b\<rparr>) = idle_from N s"
  "idle_from N (s\<lparr>hp := h\<rparr>) = idle_from N s" "idle_from N (s\<lparr>posted := js\<rparr>) = idle_from N s"
  "idle_from N (s\<lparr>taken := js\<rparr>) = idle_from N s" "idle_from N (s\<lparr>performed := js\<rparr>) = idle_from N s"
  "idle_from N (s\<lparr>w_jobs := q\<rparr>) = idle_from N s"
  by (simp_all add: idle_from_def)

lemma idle_start: "idle_from N s \<Longrightarrow> pcs s t \<noteq> Idle \<Longrightarrow> t < N"
  unfolding idle_from_def by (meson not_less)

lemma work_less:
  assumes "effect t s s'" and "pcs s t \<noteq> Idle" and "pcs s t \<noteq> Waiting" and "pool_inv s" and "idle_from N s"
  shows "pool_left N s' < pool_left N s \<and> idle_from N s'"
proof -
  have t: "t < N" using idle_start assms(2,5) by blast
  note goto = pool_left_goto[OF t] and idle = idle_goto[OF _ t]
  from assms(1) show ?thesis
  proof (cases rule: effect.cases)
    case (move p)
    then show ?thesis using goto[of p s] pc_left_less(1)[OF move(2) assms(3)] assms(5) idle by simp
  next
    case (lock p)
    then show ?thesis using goto[of p "s\<lparr>w_lock := Some t\<rparr>"] pc_left_less(2)[OF lock(2), of "w_num_threads s"] assms(5) idle by simp
  next
    case (unlock p)
    then show ?thesis using goto[of p "s\<lparr>w_lock := None\<rparr>"] pc_left_less(3)[OF unlock(2), of "w_num_threads s"] assms(5) idle by simp
  next
    case (wake p u)
    have u: "u < N" using idle_start[OF assms(5), of u] wake(3) by simp
    have "u \<noteq> t" using wake(3) assms(3) by auto
    then show ?thesis
      using wake goto[of p "goto u Woken s"] pool_left_goto[OF u, of Woken s] pc_left_less(4)[OF wake(2), of "w_num_threads s"]
        idle_goto[OF assms(5) u] idle by simp
  next
    case (signal p)
    then show ?thesis using goto[of p s] pc_left_less(4)[OF signal(2), of "w_num_threads s"] assms(5) idle by simp
  next
    case (take_fn f q)
    have "pool_left N (s\<lparr>w_jobs := q\<rparr>) + 14 = pool_left N s"
      using pool_left_jobs[of N q s] take_cells[OF assms(4) disjI1 take_fn(3)] take_fn(2) by simp
    then show ?thesis using take_fn(1,2) goto[of "Take_Args f" "s\<lparr>w_jobs := q\<rparr>"] assms(5) idle by simp
  next
    case (take_args f a q)
    have left: "pool_left N (s\<lparr>w_jobs := q\<rparr>) + 14 = pool_left N s"
      using pool_left_jobs[of N q s] take_cells[OF assms(4) disjI2 take_args(3)] take_args(2) by simp
    have "pool_left N (s\<lparr>w_jobs := q, taken := taken s @ [(f, a)]\<rparr>) = pool_left N (s\<lparr>w_jobs := q\<rparr>)"
      by (simp add: pool_left_def cells_def)
    then show ?thesis
      using left take_args(1,2) goto[of "Unlock (f, a)" "s\<lparr>w_jobs := q, taken := taken s @ [(f, a)]\<rparr>"] assms(5) idle by simp
  next
    case (perform j)
    then show ?thesis using goto[of Head "s\<lparr>performed := performed s @ [j]\<rparr>"] assms(5) idle by simp
  next
    case (create i h)
    have base: "base_inv s" using assms(4) by (simp add: pool_inv_def)
    note c = creator[OF base create(2)]
    have i: "nat i < N" "pcs s (nat i) = Idle" "nat i \<noteq> t" using c(3,5) create(3) assms(5) by (auto simp: idle_from_def)
    have d: "nat (w_num_threads s - i) = Suc (nat (w_num_threads s - (i + 1)))" using create(3) by simp
    show ?thesis
      using create(1,2) i d pool_left_goto[OF i(1), of Head "s\<lparr>hp := h\<rparr>"] goto[of "Create (i + 1)" "goto (nat i) Head (s\<lparr>hp := h\<rparr>)"]
        idle_goto[of N "s\<lparr>hp := h\<rparr>" "nat i"] assms(5) idle by simp
  next
    case (created i)
    then show ?thesis using goto[of Idle s] assms(5) idle by simp
  next
    case (push_fn j q h)
    have left: "pool_left N (s\<lparr>w_jobs := q\<rparr>) = pool_left N s + 14"
      using pool_left_jobs[of N q s] push_cells[OF assms(4) push_fn(3)] by simp
    have "pool_left N (s\<lparr>w_jobs := q, hp := h\<rparr>) = pool_left N (s\<lparr>w_jobs := q\<rparr>)" by (simp add: pool_left_def cells_def)
    then show ?thesis using left push_fn(1,2) goto[of "Post_Args j" "s\<lparr>w_jobs := q, hp := h\<rparr>"] assms(5) idle by simp
  next
    case (push_args j q h)
    have left: "pool_left N (s\<lparr>w_jobs := q\<rparr>) = pool_left N s + 14"
      using pool_left_jobs[of N q s] push_cells[OF assms(4) push_args(3)] by simp
    have "pool_left N (s\<lparr>w_jobs := q, hp := h, posted := posted s @ [j]\<rparr>) = pool_left N (s\<lparr>w_jobs := q\<rparr>)"
      by (simp add: pool_left_def cells_def)
    then show ?thesis
      using left push_args(1,2) goto[of Post_Unlock "s\<lparr>w_jobs := q, hp := h, posted := posted s @ [j]\<rparr>"] assms(5) idle by simp
  next
    case stop
    then show ?thesis using goto[of Join_Signal "s\<lparr>w_stop := True\<rparr>"] assms(5) idle by simp
  next
    case (release h)
    then show ?thesis using goto[of Joined "s\<lparr>hp := h\<rparr>"] assms(5) idle by simp
  qed (use assms(2) in simp_all)
qed

text \<open>So the steps of a pool are bounded.\<close>

lemma pool_work_less:
  assumes "pool_work s s'" and "pool_inv s" and "idle_from N s"
  shows "pool_left N s' < pool_left N s" and "idle_from N s'" and "pool_inv s'"
proof -
  obtain t c where t: "thread_step t c s = Some (Inr s')" using assms(1) by (auto simp: pool_work_def)
  show "pool_left N s' < pool_left N s" "idle_from N s'"
    using work_less[OF thread_step_effect[OF t] _ _ assms(2,3)] thread_step_from[OF t] by simp_all
  show "pool_inv s'" using pool_inv_step[OF pool_step.run[OF t] assms(2)] by simp
qed

lemma pool_work_bound:
  assumes "(pool_work ^^ i) s s'" and "pool_inv s" and "idle_from N s"
  shows "i + pool_left N s' \<le> pool_left N s \<and> pool_inv s' \<and> idle_from N s'"
  using assms(1)
proof (induction i arbitrary: s')
  case (Suc i)
  then obtain u where "(pool_work ^^ i) s u" "pool_work u s'" by auto
  with Suc.IH[of u] pool_work_less[of u s' N] show ?case by auto
qed (use assms in simp)

text \<open>Only finitely many clients are not idle, and a worker returns only when \<open>_stop\<close> is set.\<close>

definition busy :: "pool \<Rightarrow> nat set" where
  "busy s = {t. pcs s t \<noteq> Idle}"

lemma busy_goto [simp]: "finite (busy s) \<Longrightarrow> finite (busy (goto t p s))"
  by (rule finite_subset[of _ "insert t (busy s)"]) (auto simp: busy_def)

lemma busy_upd [simp]:
  "busy (s\<lparr>w_lock := l\<rparr>) = busy s" "busy (s\<lparr>w_stop := b\<rparr>) = busy s" "busy (s\<lparr>hp := h\<rparr>) = busy s"
  "busy (s\<lparr>posted := js\<rparr>) = busy s" "busy (s\<lparr>taken := js\<rparr>) = busy s" "busy (s\<lparr>performed := js\<rparr>) = busy s"
  "busy (s\<lparr>w_jobs := q\<rparr>) = busy s"
  by (simp_all add: busy_def)

lemma busy_effect: "effect t s s' \<Longrightarrow> finite (busy s) \<Longrightarrow> finite (busy s')"
  by (erule effect.cases) simp_all

fun leaving :: "pc \<Rightarrow> bool" where
  "leaving Exited = True" | "leaving Break_Unlock = True" | "leaving Break_Signal = True" | "leaving _ = False"

definition leaving_inv :: "pool \<Rightarrow> bool" where
  "leaving_inv s \<longleftrightarrow> w_stop s \<or> (\<forall>t. \<not> leaving (pcs s t))"

lemma leaving_kind:
  "moves s p q \<Longrightarrow> leaving q \<Longrightarrow> w_stop s" "locks p = Some q \<Longrightarrow> \<not> leaving q"
  "unlocks p = Some q \<Longrightarrow> leaving q \<Longrightarrow> leaving p" "signals p = Some q \<Longrightarrow> leaving q \<Longrightarrow> leaving p"
  by (cases p; auto split: if_splits)+

lemma leaving_effect:
  assumes "effect t s s'" and "leaving_inv s"
  shows "leaving_inv s'"
  using assms(1)
proof (cases rule: effect.cases)
  case (move p)
  then show ?thesis using assms(2) leaving_kind(1)[OF move(2)] by (auto simp: leaving_inv_def)
next
  case (lock p)
  then show ?thesis using assms(2) leaving_kind(2)[OF lock(2)] by (auto simp: leaving_inv_def)
next
  case (unlock p)
  then show ?thesis using assms(2) leaving_kind(3)[OF unlock(2)] by (auto simp: leaving_inv_def)
next
  case (wake p u)
  then show ?thesis using assms(2) leaving_kind(4)[OF wake(2)] by (auto simp: leaving_inv_def)
next
  case (signal p)
  then show ?thesis using assms(2) leaving_kind(4)[OF signal(2)] by (auto simp: leaving_inv_def)
qed (use assms(2) in \<open>auto simp: leaving_inv_def\<close>)

lemma pool_reach_busy: "pool_reach n h s \<Longrightarrow> finite (busy s) \<and> leaving_inv s"
proof (induction rule: pool_reach.induct)
  case start
  have "busy (w_create n h) \<subseteq> {nat n}" by (auto simp: busy_def w_create_def split: prod.splits if_splits)
  then have "finite (busy (w_create n h))" by (rule finite_subset) simp
  then show ?case by (simp add: leaving_inv_def w_create_def split: prod.split)
next
  case (step s s')
  then show ?case using pool_step_effect busy_effect leaving_effect by blast
qed

lemma busy_bound:
  assumes "finite (busy s)"
  obtains N where "idle_from N s"
proof -
  obtain N where "\<forall>t \<in> busy s. t < N" using assms finite_nat_set_iff_bounded by auto
  then have "idle_from (max N (nat (w_num_threads s))) s" unfolding idle_from_def busy_def by force
  then show thesis by (rule that)
qed

lemma client_number: "base_inv s \<Longrightarrow> pcs s t \<noteq> Idle \<Longrightarrow> \<not> worker_pc (pcs s t) \<Longrightarrow> w_num_threads s \<le> int t"
  by (auto simp: base_inv_def creation_def roles_def not_less[symmetric])

text \<open>A pool at rest whose \<open>_stop\<close> is not set: every worker waits and the queue is empty.\<close>

lemma rest_lock_free:
  assumes "pool_inv s" and "at_rest s"
  shows "w_lock s = None" and "\<And>t. worker_pc (pcs s t) \<Longrightarrow> pcs s t = Waiting \<or> pcs s t = Exited"
    and "\<not> creating (pcs s (nat (w_num_threads s)))"
proof -
  have base: "base_inv s" using assms(1) by (simp add: pool_inv_def)
  have step: "thread_step t c s = None" for t c using assms(2) by (simp add: at_rest_def)
  have worker: "int t < w_num_threads s" if "worker_pc (pcs s t)" for t using worker_number[OF base that] .
  note client = client_number[OF base]
  show lock: "w_lock s = None"
  proof (rule ccontr)
    assume "w_lock s \<noteq> None"
    then obtain t where t: "critical (pcs s t)" using assms(1) by (auto simp: pool_inv_def lock_inv_def)
    show False
    proof (cases "worker_pc (pcs s t)")
      case True
      have "\<exists>c r. w_process_step t c s = Some r"
        by (rule worker_enabled[OF True]) (use t in \<open>auto elim: critical.elims\<close>)
      then show False using step[of t] worker[OF True] by (auto simp: thread_step_def)
    next
      case False
      have "pcs s t \<noteq> Idle" using t by auto
      then show False using poster_enabled[OF disjI1[OF t] False] step[of t] client[OF _ False] by (auto simp: thread_step_def)
    qed
  qed
  show "pcs s t = Waiting \<or> pcs s t = Exited" if "worker_pc (pcs s t)" for t
  proof (rule ccontr)
    assume "\<not> (pcs s t = Waiting \<or> pcs s t = Exited)"
    then have "\<exists>c r. w_process_step t c s = Some r" using worker_enabled[OF that] lock by blast
    then show False using step[of t] worker[OF that] by (auto simp: thread_step_def)
  qed
  show "\<not> creating (pcs s (nat (w_num_threads s)))"
  proof
    assume "creating (pcs s (nat (w_num_threads s)))"
    then obtain i where i: "pcs s (nat (w_num_threads s)) = Create i" by (auto elim: creating.elims)
    then have "w_create_step (nat (w_num_threads s)) s \<noteq> None" by (simp add: w_create_step_def)
    moreover have "0 \<le> w_num_threads s" using assms(1) by (simp add: pool_inv_def)
    ultimately show False using step[of "nat (w_num_threads s)"] by (auto simp: thread_step_def client_step_def)
  qed
qed

lemma rest_done:
  assumes "pool_inv s" and "leaving_inv s" and "at_rest s" and "\<not> w_stop s" and "0 < w_num_threads s"
  shows "(\<forall>t. int t < w_num_threads s \<longrightarrow> pcs s t = Waiting) \<and> q_is_empty (w_jobs s) \<and> mset (performed s) = mset (posted s)"
proof -
  note rest = rest_lock_free[OF assms(1,3)]
  have wk: "worker_pc (pcs s t) \<longleftrightarrow> int t < w_num_threads s" for t
    using assms(1) rest(3) by (simp add: pool_inv_def base_inv_def roles_def made_def made_at_done)
  have wait: "pcs s t = Waiting" if "int t < w_num_threads s" for t
  proof -
    have "pcs s t \<noteq> Exited" using assms(2,4) leaving.simps(1) unfolding leaving_inv_def by metis
    then show ?thesis using rest(2)[of t] wk[of t] that by auto
  qed
  have "\<not> (\<exists>t c r. thread_step t c s = Some r)" using assms(3) by (simp add: at_rest_def)
  then have empty: "q_is_empty (w_jobs s)"
    using pool_not_stuck[OF assms(1,5) rest(3)] wait by fastforce
  obtain pend where pend: "q_inv (w_jobs s) (hp s)" "posted s = taken s @ pend" "q_list (w_jobs s) (hp s) = flat pend"
    using assms(1) rest(1) by (auto simp: pool_inv_def queue_inv_def owner_pc_def)
  have "pend = []" using q_is_empty_iff[OF pend(1)] empty pend(3) by simp
  moreover have "flight s = {#}" unfolding flight_def using wait by (intro sum.neutral) auto
  moreover have "mset (taken s) = mset (performed s) + flight s" using assms(1) by (simp add: pool_inv_def flight_inv_def)
  ultimately show ?thesis using pend(2) wait empty by simp
qed

text \<open>Who sets \<open>_stop\<close> stays in \<open>w_join\<close> until it has returned.  So with \<open>_stop\<close> set, a pool is at rest only when \<open>w_join\<close> has
  returned or waits for a worker that waits itself.\<close>

definition stopper_inv :: "pool \<Rightarrow> bool" where
  "stopper_inv s \<longleftrightarrow> (w_stop s \<longrightarrow> (\<exists>t. past_test (pcs s t)))"

lemma stopper_goto:
  assumes "stopper_inv s" and "past_test (pcs s t) \<longrightarrow> past_test p"
  shows "stopper_inv (goto t p s)"
  using assms unfolding stopper_inv_def by (metis goto_simps(3) pcs_goto)

lemma stopper_upd [simp]:
  "stopper_inv (s\<lparr>w_lock := l\<rparr>) = stopper_inv s" "stopper_inv (s\<lparr>w_jobs := q\<rparr>) = stopper_inv s"
  "stopper_inv (s\<lparr>hp := h\<rparr>) = stopper_inv s" "stopper_inv (s\<lparr>posted := js\<rparr>) = stopper_inv s"
  "stopper_inv (s\<lparr>taken := js\<rparr>) = stopper_inv s" "stopper_inv (s\<lparr>performed := js\<rparr>) = stopper_inv s"
  by (simp_all add: stopper_inv_def)

lemma past_test_stays:
  "moves s p q \<Longrightarrow> past_test p \<Longrightarrow> past_test q" "locks p = Some q \<Longrightarrow> \<not> past_test p"
  "unlocks p = Some q \<Longrightarrow> \<not> past_test p" "signals p = Some q \<Longrightarrow> past_test p \<Longrightarrow> past_test q"
  by (cases p; auto split: if_splits)+

lemma stopper_effect:
  assumes "effect t s s'" and "stopper_inv s" and "base_inv s"
  shows "stopper_inv s'"
  using assms(1)
proof (cases rule: effect.cases)
  case (move p)
  then show ?thesis using assms(2) past_test_stays(1)[OF move(2)] by (auto intro!: stopper_goto)
next
  case (lock p)
  then show ?thesis using assms(2) past_test_stays(2)[OF lock(2)] by (auto intro!: stopper_goto)
next
  case (unlock p)
  then show ?thesis using assms(2) past_test_stays(3)[OF unlock(2)] by (auto intro!: stopper_goto)
next
  case (wake p u)
  then have "u \<noteq> t" by auto
  then show ?thesis using wake assms(2) past_test_stays(4)[OF wake(2)] by (auto intro!: stopper_goto)
next
  case (signal p)
  then show ?thesis using assms(2) past_test_stays(4)[OF signal(2)] by (auto intro!: stopper_goto)
next
  case (create i h)
  then show ?thesis using assms(2) creator[OF assms(3) create(2)] by (auto intro!: stopper_goto)
next
  case stop
  then show ?thesis by (auto simp: stopper_inv_def)
qed (use assms(2) in \<open>auto intro!: stopper_goto\<close>)

lemma pool_reach_stopper:
  assumes "pool_reach n h s" and "0 \<le> n" and "n < 2 ^ 60" and "ample 2 h"
  shows "stopper_inv s"
  using assms(1)
proof (induction rule: pool_reach.induct)
  case start
  then show ?case by (simp add: stopper_inv_def w_create_def split: prod.split)
next
  case (step s s')
  have "base_inv s" using pool_reach_inv[OF step(1) assms(2-4)] by (simp add: pool_inv_def)
  then show ?case using pool_step_effect[OF step(2)] stopper_effect step(3) by blast
qed

lemma rest_stopped:
  assumes "pool_inv s" and "stopper_inv s" and "at_rest s" and "w_stop s"
  shows "\<exists>u. pcs s u = Joined \<and> (\<forall>t. int t < w_num_threads s \<longrightarrow> pcs s t = Exited) \<or>
    (\<exists>i. pcs s u = Join_Wait (int i) \<and> int i < w_num_threads s \<and> pcs s i = Waiting)"
proof -
  note rest = rest_lock_free[OF assms(1,3)]
  have inv: "joiners s" "exits s" "block_inv s" "base_inv s" "w_num_threads s < 2 ^ 60" using assms(1) by (simp_all add: pool_inv_def)
  obtain u where u: "past_test (pcs s u)" using assms(2,4) by (auto simp: stopper_inv_def)
  have client: "w_num_threads s \<le> int u"
    using client_number[OF inv(4)] u by (cases "pcs s u") auto
  have step: "w_join_step u c s = None" for c
  proof -
    have "client_step u c s = None" using assms(3) client unfolding at_rest_def thread_step_def by (metis not_less)
    then show ?thesis using u by (auto simp: client_step_def split: option.splits)
  qed
  have "stop_ok (w_stop s) (pcs s u)" using inv(1) by (simp add: joiners_def)
  then consider "pcs s u = Join_Signal" | i where "pcs s u = Join_Wait i" | "pcs s u = Join_Free" | "pcs s u = Joined"
    using u assms(4) by (cases "pcs s u") (auto simp: stop_ok_def)
  then show ?thesis
  proof cases
    case 1
    then show ?thesis using step cond_signal_enabled[of u "Join_Wait 0" s] by (auto simp: w_join_step_def)
  next
    case (2 i)
    have "\<forall>u. pcs s u \<noteq> Joined" and made: "made s = w_num_threads s" using joining_facts[OF inv(1) 2] by auto
    then obtain cs where cs: "mem (hp s) (w_threads s) = Some cs" "int (length cs) = w_num_threads s" "w_threads s \<noteq> 0"
      "\<forall>k. int k < w_num_threads s \<longrightarrow> cs ! k = Some (word_of_nat k)"
      using inv(3) by (auto simp: block_inv_def)
    have i: "0 \<le> i" "i < w_num_threads s"
      using inv(2) 2 step[of None] by (auto simp: exits_def w_join_step_def split: if_splits)
    have "load (w_threads s) i (hp s) = Inr (word_of_nat (nat i))"
      using cs i by (intro load_ok) auto
    moreover have "unat (word_of_nat (nat i) :: 64 word) = nat i" using i inv(5) by (simp add: unat_of_nat del: of_nat_nat)
    ultimately have "pcs s (nat i) \<noteq> Exited" using step[of None] 2 i by (auto simp: w_join_step_def split: if_splits)
    moreover have "worker_pc (pcs s (nat i))" using inv(4) made i by (auto simp: base_inv_def roles_def)
    ultimately have "pcs s (nat i) = Waiting" using rest(2) by blast
    then show ?thesis using 2 i by (intro exI[of _ u] disjI2 exI[of _ "nat i"]) simp
  next
    case 3
    then show ?thesis using step[of None] by (simp add: w_join_step_def)
  next
    case 4
    then have "pcs s t = Exited" if "int t < w_num_threads s" for t
      using inv(2) that unfolding exits_def by (metis waited.simps(3))
    then show ?thesis using 4 by blast
  qed
qed

section \<open>Properties\<close>

text \<open>C10: The pool comes to rest.  From every reachable state the number of steps that the threads can take
  is bounded, as long as no client makes a new call and no wait ends spuriously; there is no loop in which workers wake
  each other for ever.  When no thread can take a step any more and \<open>w_join\<close> has not set \<open>_stop\<close>, every worker waits on the condition
  variable, the queue is empty and each posted job was performed exactly once: no signal of \<open>w_post\<close> is lost.  When it has set
  \<open>_stop\<close>, either it has returned and all workers have ended, or it waits for a worker that still waits on the condition variable:
  the lost signal is the only way in which \<open>w_join\<close> hangs.\<close>

theorem pool_comes_to_rest:
  assumes "pool_reach n h s" and "0 < n" and "n < 2 ^ 60" and "ample 2 h"
  shows "(\<exists>k. \<forall>i s'. (pool_work ^^ i) s s' \<longrightarrow> i \<le> k) \<and>
    (\<forall>s'. pool_work\<^sup>*\<^sup>* s s' \<and> at_rest s' \<longrightarrow>
      (if w_stop s'
       then \<exists>u. pcs s' u = Joined \<and> (\<forall>t. int t < n \<longrightarrow> pcs s' t = Exited) \<or>
         (\<exists>i. pcs s' u = Join_Wait (int i) \<and> int i < n \<and> pcs s' i = Waiting)
       else (\<forall>t. int t < n \<longrightarrow> pcs s' t = Waiting) \<and> q_is_empty (w_jobs s') \<and> mset (performed s') = mset (posted s')))"
proof (intro conjI allI impI)
  have inv: "pool_inv s" using pool_reach_inv[OF assms(1) _ assms(3,4)] assms(2) by simp
  obtain N where "idle_from N s" using pool_reach_busy[OF assms(1)] busy_bound by blast
  then show "\<exists>k. \<forall>i s'. (pool_work ^^ i) s s' \<longrightarrow> i \<le> k"
    using pool_work_bound[OF _ inv, of _ _ N] by (intro exI[of _ "pool_left N s"]) fastforce
  fix s'
  assume s': "pool_work\<^sup>*\<^sup>* s s' \<and> at_rest s'"
  then have "pool_work\<^sup>*\<^sup>* s s'" by simp
  then have reach: "pool_reach n h s'"
  proof (induction rule: rtranclp_induct)
    case (step u v)
    then show ?case unfolding pool_work_def using pool_reach.step pool_step.run by blast
  qed (rule assms(1))
  have inv': "pool_inv s'" "w_num_threads s' = n" using pool_reach_inv[OF reach _ assms(3,4)] assms(2) by simp_all
  have "stopper_inv s'" using pool_reach_stopper[OF reach _ assms(3,4)] assms(2) by simp
  then show "if w_stop s'
       then \<exists>u. pcs s' u = Joined \<and> (\<forall>t. int t < n \<longrightarrow> pcs s' t = Exited) \<or>
         (\<exists>i. pcs s' u = Join_Wait (int i) \<and> int i < n \<and> pcs s' i = Waiting)
       else (\<forall>t. int t < n \<longrightarrow> pcs s' t = Waiting) \<and> q_is_empty (w_jobs s') \<and> mset (performed s') = mset (posted s')"
    using rest_stopped[OF inv'(1)] rest_done[OF inv'(1)] pool_reach_busy[OF reach] s' inv'(2) assms(2) by simp
qed

text \<open>The pool of one worker to which a job was posted.\<close>

lemma pool_workI: "thread_step t c s = Some (Inr s') \<Longrightarrow> pool_work s s'"
  by (auto simp: pool_work_def)

lemma run_sched_work: "run_sched ts s = Some s' \<Longrightarrow> pool_work\<^sup>*\<^sup>* s s'"
  by (induction ts s rule: run_sched.induct)
    (auto split: option.splits sum.splits intro: converse_rtranclp_into_rtranclp[where r = pool_work, OF pool_workI])

lemma performed_last:
  "goto t p (s\<lparr>performed := js\<rparr>) = goto t p s\<lparr>performed := js\<rparr>" "s\<lparr>performed := js\<rparr>\<lparr>w_lock := l\<rparr> = s\<lparr>w_lock := l\<rparr>\<lparr>performed := js\<rparr>"
  for s :: pool
  by (simp_all add: goto_def)

definition rested_pool :: "64 word \<Rightarrow> 64 word \<Rightarrow> pool" where
  "rested_pool f a = pool1 False \<lparr>q_front = 2, q_back = 2, q_size = 0, q_range_mask = 7, q_data = 1\<rparr> None
     (heap8w (empty8[0 := Some f, 1 := Some a]) [Some 0]) Waiting Idle [(f, a)] [(f, a)]\<lparr>performed := [(f, a)]\<rparr>"

lemma posted_rests:
  assumes "f \<noteq> 0"
  shows "pool_work\<^sup>*\<^sup>* (posted_pool f a) (rested_pool f a)"
proof (rule run_sched_work)
  have e: "q_is_empty \<lparr>q_front = 2, q_back = 2, q_size = 0, q_range_mask = 7, q_data = 1\<rparr>" by (simp add: q_is_empty_def)
  show "run_sched [(0, None), (0, None), (0, None), (0, None), (0, None), (0, None), (0, None), (0, None), (0, None), (0, None),
      (0, None), (0, None), (0, None), (0, None)] (posted_pool f a) = Some (rested_pool f a)"
    using assms by (simp add: run1 posted_pool_def rested_pool_def take8 [simplified] performed_last e)
qed

lemma rested_at_rest: "at_rest (rested_pool f a)"
  unfolding at_rest_def
proof (intro allI)
  fix t :: nat and c
  consider "t = 0" | "t = 1" | "1 < t" by (cases "t = 0"; cases "t = 1") auto
  then show "thread_step t c (rested_pool f a) = None" by cases (simp_all add: run1 rested_pool_def)
qed

lemma pool_comes_to_rest_witness:
  "pool_work\<^sup>*\<^sup>* (posted_pool 7 8) (rested_pool 7 8) \<and> at_rest (rested_pool 7 8) \<and>
    (\<exists>k. \<forall>i s'. (pool_work ^^ i) (posted_pool 7 8) s' \<longrightarrow> i \<le> k) \<and>
    mset (performed (rested_pool 7 8)) = mset (posted (rested_pool 7 8))"
  using pool_comes_to_rest[OF reach_posted _ _ ample_heapP, of 7 8] posted_rests[of 7 8] rested_at_rest[of 7 8]
  by (auto simp: rested_pool_def)

end
