(* ===== verification/Pool_Contract.thy ===== *)
theory Pool_Contract
  imports Pool_Properties
begin

text \<open>
  What the thread pool promises to the programs that use it, as an abstract machine: jobs wait in the
  order in which they were posted, at most as many as there are workers are in hand, and joining waits
  until none is.  The pool of \<open>workers.c\<close>, statement by statement and under every interleaving, does what
  this machine does.
\<close>

section \<open>The contract\<close>

record 'j contract =
  ct_waiting :: "'j list"
  ct_hand :: "'j multiset"
  ct_joined :: bool

datatype 'j pool_act = Act_Post 'j | Act_Take | Act_Perform 'j | Act_Join

fun contract_act :: "nat \<Rightarrow> 'j pool_act \<Rightarrow> 'j contract \<Rightarrow> 'j contract option" where
  "contract_act n (Act_Post j) c = Some (c\<lparr>ct_waiting := ct_waiting c @ [j]\<rparr>)"
| "contract_act n Act_Take c = (case ct_waiting c of
      [] \<Rightarrow> None
    | j # js \<Rightarrow> if size (ct_hand c) < n \<and> \<not> ct_joined c
        then Some (c\<lparr>ct_waiting := js, ct_hand := add_mset j (ct_hand c)\<rparr>) else None)"
| "contract_act n (Act_Perform j) c = (if j \<in># ct_hand c then Some (c\<lparr>ct_hand := ct_hand c - {#j#}\<rparr>) else None)"
| "contract_act n Act_Join c = (if ct_hand c = {#} \<and> \<not> ct_joined c then Some (c\<lparr>ct_joined := True\<rparr>) else None)"

definition new_contract :: "'j contract" where
  "new_contract = \<lparr>ct_waiting = [], ct_hand = {#}, ct_joined = False\<rparr>"

text \<open>What the actions of a run were about.\<close>

fun posts :: "'j pool_act list \<Rightarrow> 'j list" where
  "posts [] = []"
| "posts (Act_Post j # ps) = j # posts ps"
| "posts (p # ps) = posts ps"

fun performs :: "'j pool_act list \<Rightarrow> 'j list" where
  "performs [] = []"
| "performs (Act_Perform j # ps) = j # performs ps"
| "performs (p # ps) = performs ps"

lemma posts_append [simp]: "posts (ps @ qs) = posts ps @ posts qs"
  by (induction ps rule: posts.induct) simp_all

lemma performs_append [simp]: "performs (ps @ qs) = performs ps @ performs qs"
  by (induction ps rule: performs.induct) simp_all

text \<open>No job is lost or invented, and who has none in hand leaves room for one.\<close>

lemma contract_conserves:
  assumes "run_acts (contract_act n) ps c = Some c'"
  shows "mset (posts ps) + mset (ct_waiting c) + ct_hand c = mset (performs ps) + mset (ct_waiting c') + ct_hand c'"
  using assms
proof (induction ps arbitrary: c)
  case (Cons p ps)
  then obtain b where b: "contract_act n p c = Some b" "run_acts (contract_act n) ps b = Some c'" by (auto split: option.splits)
  from Cons.IH[OF b(2)] b(1) show ?case by (cases p) (auto split: list.splits if_splits dest!: multi_member_split)
qed simp

lemma hand_room:
  assumes "t < n" and "f t = {#}" and "\<And>u. size (f u :: 'j multiset) \<le> 1"
  shows "size (\<Sum>u < n. f u) < n"
proof -
  have t: "t \<in> {..<n}" using assms(1) by simp
  have "(\<Sum>u < n. f u) = (\<Sum>u \<in> {..<n} - {t}. f u)" unfolding sum.remove[OF finite_lessThan t] using assms(2) by simp
  then have "size (\<Sum>u < n. f u) = (\<Sum>u \<in> {..<n} - {t}. size (f u))" by (simp add: size_multiset_sum)
  also have "\<dots> \<le> (\<Sum>u \<in> {..<n} - {t}. 1)" using assms(3) by (intro sum_mono) simp
  also have "\<dots> < n" using t by simp
  finally show ?thesis .
qed


section \<open>The pool as the contract sees it\<close>

definition pool_view :: "pool \<Rightarrow> job contract" where
  "pool_view s = \<lparr>ct_waiting = drop (length (taken s)) (posted s), ct_hand = flight s, ct_joined = (\<exists>t. pcs s t = Joined)\<rparr>"

definition pool_rel :: "job pool_act list \<Rightarrow> pool \<Rightarrow> job contract \<Rightarrow> bool" where
  "pool_rel ps s c \<longleftrightarrow> c = pool_view s \<and> posts ps = posted s \<and> performs ps = performed s"

lemma joined_goto: "pcs s t \<noteq> Joined \<Longrightarrow> p \<noteq> Joined \<Longrightarrow> (\<exists>u. pcs (goto t p s) u = Joined) = (\<exists>u. pcs s u = Joined)"
  by (metis pcs_goto)

lemma steps_not_Joined:
  "moves s p q \<Longrightarrow> q \<noteq> Joined" "locks p = Some q \<Longrightarrow> q \<noteq> Joined" "unlocks p = Some q \<Longrightarrow> q \<noteq> Joined"
  "signals p = Some q \<Longrightarrow> q \<noteq> Joined"
  by (cases p; auto split: if_splits)+

lemma flight_room:
  assumes "int t < w_num_threads s" and "in_hand (pcs s t) = {#}"
  shows "size (flight s) < nat (w_num_threads s)"
proof -
  have "size (in_hand p) \<le> 1" for p by (cases p) simp_all
  then show ?thesis unfolding flight_def using assms by (intro hand_room[of t]) auto
qed

text \<open>What a step does to the history of the jobs.\<close>

definition same_history :: "pool \<Rightarrow> pool \<Rightarrow> bool" where
  "same_history s s' \<longleftrightarrow> posted s' = posted s \<and> taken s' = taken s \<and> performed s' = performed s"

lemma effect_history:
  assumes "effect t s s'" and "base_inv s"
  obtains (none) "same_history s s'" "(\<exists>u. pcs s' u = Joined) = (\<exists>u. pcs s u = Joined)"
    | (join) "same_history s s'" "pcs s t = Join_Free" "pcs s' t = Joined"
    | (post) j where "posted s' = posted s @ [j]" "taken s' = taken s" "performed s' = performed s"
        "(\<exists>u. pcs s' u = Joined) = (\<exists>u. pcs s u = Joined)"
    | (take) f a where "pcs s t = Take_Args f" "taken s' = taken s @ [(f, a)]" "posted s' = posted s" "performed s' = performed s"
        "(\<exists>u. pcs s' u = Joined) = (\<exists>u. pcs s u = Joined)"
    | (perform) j where "performed s' = performed s @ [j]" "posted s' = posted s" "taken s' = taken s"
        "(\<exists>u. pcs s' u = Joined) = (\<exists>u. pcs s u = Joined)"
  using assms(1)
proof (cases rule: effect.cases)
  case (move p)
  then show ?thesis using none joined_goto[OF moves_not_Joined(1) steps_not_Joined(1)] by (simp add: same_history_def)
next
  case (lock p)
  then show ?thesis using none joined_goto[of "s\<lparr>w_lock := Some t\<rparr>" t p] moves_not_Joined(2) steps_not_Joined(2)
    by (simp add: same_history_def)
next
  case (unlock p)
  then show ?thesis using none joined_goto[of "s\<lparr>w_lock := None\<rparr>" t p] moves_not_Joined(3) steps_not_Joined(3)
    by (simp add: same_history_def)
next
  case (wake p u)
  then have "pcs (goto u Woken s) t \<noteq> Joined" using moves_not_Joined(4) by auto
  then have "(\<exists>v. pcs s' v = Joined) = (\<exists>v. pcs (goto u Woken s) v = Joined)"
    unfolding wake(1) by (rule joined_goto) (use steps_not_Joined(4)[OF wake(2)] in simp)
  also have "\<dots> = (\<exists>v. pcs s v = Joined)" by (rule joined_goto) (use wake(3) in simp_all)
  finally show ?thesis using none wake(1) by (simp add: same_history_def)
next
  case (signal p)
  then show ?thesis using none joined_goto[OF moves_not_Joined(4) steps_not_Joined(4)] by (simp add: same_history_def)
next
  case (take_fn f q)
  then show ?thesis using none joined_goto[of "s\<lparr>w_jobs := q\<rparr>" t "Take_Args f"] by (simp add: same_history_def)
next
  case (take_args f a q)
  then show ?thesis
    using take joined_goto[of "s\<lparr>w_jobs := q, taken := taken s @ [(f, a)]\<rparr>" t "Unlock (f, a)"] by simp
next
  case (perform j)
  then show ?thesis using that(5) joined_goto[of "s\<lparr>performed := performed s @ [j]\<rparr>" t Head] by simp
next
  case (create i h)
  have "(\<exists>v. pcs s' v = Joined) = (\<exists>v. pcs (goto (nat i) Head (s\<lparr>hp := h\<rparr>)) v = Joined)"
    unfolding create(1) by (rule joined_goto) (use create(2) in auto)
  also have "\<dots> = (\<exists>v. pcs s v = Joined)"
    using joined_goto[of "s\<lparr>hp := h\<rparr>" "nat i" Head] creator(5)[OF assms(2) create(2,3)] by simp
  finally show ?thesis using none create(1) by (simp add: same_history_def)
next
  case (created i)
  then show ?thesis using none joined_goto[of s t Idle] by (simp add: same_history_def)
next
  case (push_fn j q h)
  then show ?thesis using none joined_goto[of "s\<lparr>w_jobs := q, hp := h\<rparr>" t "Post_Args j"] by (simp add: same_history_def)
next
  case (push_args j q h)
  then show ?thesis
    using post[of j] joined_goto[of "s\<lparr>w_jobs := q, hp := h, posted := posted s @ [j]\<rparr>" t Post_Unlock] by simp
next
  case stop
  then show ?thesis using none joined_goto[of "s\<lparr>w_stop := True\<rparr>" t Join_Signal] by (simp add: same_history_def)
next
  case (release h)
  then show ?thesis using join by (simp add: same_history_def)
next
  case (call_post j)
  then show ?thesis using none joined_goto[of s t "Post_Lock j"] by (simp add: same_history_def)
next
  case call_join
  then show ?thesis using none joined_goto[of s t Join_Test] by (simp add: same_history_def)
qed

text \<open>The four actions.\<close>

lemma pending:
  assumes "pool_inv s"
  obtains pend where "posted s = taken s @ pend" and "ct_waiting (pool_view s) = pend"
  using assms that by (auto simp: pool_inv_def queue_inv_def pool_view_def)

lemma flight_mset: "pool_inv s \<Longrightarrow> mset (taken s) = mset (performed s) + flight s"
  by (simp add: pool_inv_def flight_inv_def)

lemma joined_exited:
  assumes "pool_inv s" and "pcs s u = Joined \<or> pcs s u = Join_Free" and "int t < w_num_threads s"
  shows "pcs s t = Exited"
  using assms unfolding pool_inv_def exits_def by (metis waited.simps(2,3))

lemma view_simps [simp]:
  "ct_hand (pool_view s) = flight s" "ct_joined (pool_view s) \<longleftrightarrow> (\<exists>t. pcs s t = Joined)"
  by (simp_all add: pool_view_def)

lemma view_eqI:
  assumes "ct_waiting c = ct_waiting c'" and "ct_hand c = ct_hand c'" and "ct_joined c = ct_joined c'"
  shows "(c :: 'j contract) = c'"
  using assms by (cases c; cases c') simp

lemma pool_sim:
  assumes "pool_inv s" and "w_num_threads s = int n" and "pool_rel ps s c" and "pool_step s s'"
  shows "pool_rel ps s' c \<or> (\<exists>p c'. contract_act n p c = Some c' \<and> pool_rel (ps @ [p]) s' c')"
proof -
  have inv': "pool_inv s'" using pool_inv_step[OF assms(4,1)] by simp
  obtain t where e: "effect t s s'" using pool_step_effect[OF assms(4)] by auto
  have base: "base_inv s" using assms(1) by (simp add: pool_inv_def)
  have rel: "c = pool_view s" "posts ps = posted s" "performs ps = performed s" using assms(3) by (simp_all add: pool_rel_def)
  obtain pend where pend: "posted s = taken s @ pend" "ct_waiting (pool_view s) = pend" by (rule pending[OF assms(1)])
  obtain pend' where pend': "posted s' = taken s' @ pend'" "ct_waiting (pool_view s') = pend'" by (rule pending[OF inv'])
  note m = flight_mset[OF assms(1)] and m' = flight_mset[OF inv']
  from e base show ?thesis
  proof (cases rule: effect_history)
    case none
    then have same: "posted s' = posted s" "taken s' = taken s" "performed s' = performed s" by (simp_all add: same_history_def)
    have "flight s' = flight s" using m m' same by simp
    moreover have "pend' = pend" using pend(1) pend'(1) same by (metis same_append_eq)
    ultimately have "pool_view s' = pool_view s" using none(2) pend(2) pend'(2) by (intro view_eqI) simp_all
    then show ?thesis using rel none(1) by (simp add: pool_rel_def same_history_def)
  next
    case join
    have flight: "flight s = {#}"
      unfolding flight_def using joined_exited[OF assms(1), of t] join(2) by (intro sum.neutral) auto
    have same: "posted s' = posted s" "taken s' = taken s" "performed s' = performed s"
      using join(1) by (simp_all add: same_history_def)
    have "flight s' = flight s" using m m' same by simp
    moreover have "pend' = pend" using pend(1) pend'(1) same by (metis same_append_eq)
    ultimately have "pool_view s' = pool_view s\<lparr>ct_joined := True\<rparr>"
      using join(3) pend(2) pend'(2) by (intro view_eqI) auto
    moreover have "\<not> ct_joined (pool_view s)"
    proof
      assume "ct_joined (pool_view s)"
      then obtain u where u: "pcs s u = Joined" by auto
      then have "u = t" using assms(1) join(2) uniqueD[of past_test s t u] by (auto simp: pool_inv_def joiners_def)
      then show False using u join(2) by simp
    qed
    ultimately have "contract_act n Act_Join c = Some (pool_view s')" using flight rel(1) by simp
    then show ?thesis using rel join(1) by (intro disjI2 exI[of _ Act_Join]) (simp add: pool_rel_def same_history_def)
  next
    case (post j)
    then have "flight s' = flight s" "pend' = pend @ [j]" using m m' pend(1) pend'(1) by simp_all
    then have "pool_view s' = pool_view s\<lparr>ct_waiting := ct_waiting (pool_view s) @ [j]\<rparr>"
      using post(4) pend(2) pend'(2) by (intro view_eqI) simp_all
    then show ?thesis using rel post by (intro disjI2 exI[of _ "Act_Post j"]) (simp add: pool_rel_def)
  next
    case (take f a)
    have t: "int t < w_num_threads s" using worker_number[OF base, of t] take(1) by simp
    have room: "size (flight s) < n" using flight_room[OF t] take(1) assms(2) by simp
    have hand: "flight s' = add_mset (f, a) (flight s)" using m m' take(2,4) by simp
    have wait: "pend = (f, a) # pend'" using pend(1) pend'(1) take(2,3) by simp
    have free: "\<forall>u. pcs s u \<noteq> Joined" using joined_exited[OF assms(1) _ t] take(1) by auto
    have "pool_view s' = pool_view s\<lparr>ct_waiting := pend', ct_hand := add_mset (f, a) (flight s)\<rparr>"
      using hand pend'(2) take(5) by (intro view_eqI) simp_all
    then have "contract_act n Act_Take c = Some (pool_view s')" using rel(1) wait pend(2) room free by simp
    then show ?thesis using rel take by (intro disjI2 exI[of _ Act_Take]) (simp add: pool_rel_def)
  next
    case (perform j)
    have hand: "flight s = add_mset j (flight s')" using m m' perform(1,3) by simp
    have "pend' = pend" using perform(2,3) pend(1) pend'(1) by simp
    then have "pool_view s' = pool_view s\<lparr>ct_hand := flight s - {#j#}\<rparr>"
      using hand perform(4) pend(2) pend'(2) by (intro view_eqI) simp_all
    then have "contract_act n (Act_Perform j) c = Some (pool_view s')" using rel(1) hand by simp
    then show ?thesis using rel perform by (intro disjI2 exI[of _ "Act_Perform j"]) (simp add: pool_rel_def)
  qed
qed

interpretation pool: action_simulation "\<lambda>s. pool_inv s \<and> w_num_threads s = int n" pool_step "contract_act n" pool_rel
  for n :: nat
proof
  show "pool_inv s' \<and> w_num_threads s' = int n" if "pool_inv s \<and> w_num_threads s = int n" "pool_step s s'" for s s'
    using pool_inv_step[OF that(2)] that(1) by simp
  show "pool_rel ps s' c \<or> (\<exists>p c'. contract_act n p c = Some c' \<and> pool_rel (ps @ [p]) s' c')"
    if "pool_inv s \<and> w_num_threads s = int n" "pool_rel ps s c" "pool_step s s'" for ps s s' c
    using pool_sim that by blast
qed

lemma pool_reach_steps: "pool_reach n h s \<Longrightarrow> pool_step\<^sup>*\<^sup>* (w_create n h) s"
  by (induction rule: pool_reach.induct) auto

section \<open>Properties\<close>

text \<open>C7: The pool keeps its contract: whatever the interleaving of its threads and clients, the jobs that were
  posted and not taken, those in the hands of the workers and whether \<open>w_join\<close> has returned are as in a run
  of the abstract machine in which a worker takes the oldest waiting job when it has none, and the join
  happens when no job is in hand; the posts and the performances of that run are those of the pool, in
  their order.\<close>

theorem pool_refines_contract:
  assumes "pool_reach (int n) h s" and "n < 2 ^ 60" and "ample 2 h"
  shows "\<exists>ps. run_acts (contract_act n) ps new_contract = Some (pool_view s) \<and> posts ps = posted s \<and> performs ps = performed s"
proof -
  have inv: "pool_inv (w_create (int n) h) \<and> w_num_threads (w_create (int n) h) = int n"
    using pool_reach_inv[OF pool_reach.start, of "int n" h] assms(2,3) by simp
  have "\<forall>t. pcs (w_create (int n) h) t \<noteq> Joined" "posted (w_create (int n) h) = []" "taken (w_create (int n) h) = []"
    "performed (w_create (int n) h) = []" by (simp_all add: w_create_def split: prod.split)
  then have "pool_rel [] (w_create (int n) h) new_contract"
    using flight_mset[of "w_create (int n) h"] inv by (simp add: pool_rel_def pool_view_def new_contract_def)
  from pool.runs_simulated[OF pool_reach_steps[OF assms(1)] inv this] show ?thesis by (auto simp: pool_rel_def)
qed

lemma pool_refines_contract_witness:
  "\<exists>ps. run_acts (contract_act 1) ps new_contract = Some \<lparr>ct_waiting = [], ct_hand = {#(0, 5) :: job#}, ct_joined = False\<rparr> \<and>
    posts ps = [(0, 5)] \<and> performs ps = []"
proof -
  have reach: "pool_reach (int 1) heapP null_job_pool" using reach_null_job by simp
  have pcs: "pcs null_job_pool = (\<lambda>_. Idle)(0 := Perform (0, 5))" by (simp add: null_job_pool_def pool1_def fun_eq_iff)
  have "pool_view null_job_pool = \<lparr>ct_waiting = [], ct_hand = {#(0, 5)#}, ct_joined = False\<rparr>"
    unfolding pool_view_def flight_def pcs by (simp add: null_job_pool_def)
  with pool_refines_contract[OF reach _ ample_heapP] show ?thesis by (simp add: null_job_pool_def)
qed

end
