(* ===== verification/Cpp_Threadpool.thy ===== *)
theory Cpp_Threadpool
  imports Pool_Contract
begin

text \<open>
  The C++ thread pool of \<open>src/Nettverksprog/Threadpool.cpp\<close> (\<open>include/Nettverksprog/Threadpool.hpp\<close>),
  statement by statement like that of \<open>Worker_Pool\<close>: threads \<open>0 .. num_threads - 1\<close> run \<open>process\<close>, every
  other thread is a client and client \<open>num_threads\<close> runs the constructor, which starts the workers from the
  last to the first.  \<open>std::queue\<close> is a list; \<open>lock_guard\<close> unlocks at the end of \<open>post\<close>, after the
  notification.  Calls of \<open>join\<close> do not overlap; the destructor is one more call of it.  The pool refines
  the same contract as that of \<open>workers.c\<close>.
\<close>

section \<open>The model\<close>

datatype tp_pc =
    T_Unborn | T_Idle | T_Create nat
  | T_Head | T_Head_Stop | T_Lock | T_Test | T_Wait | T_Waiting | T_Woken | T_Check | T_Front
  | T_Break_Unlock | T_Break_Notify | T_Unlock "64 word" | T_Notify "64 word" | T_Call "64 word" | T_Exited
  | T_Post_Lock "64 word" | T_Post_Push "64 word" | T_Post_Notify | T_Post_Unlock
  | T_Join_Test | T_Join_Stop | T_Join_Notify | T_Join_Wait nat | T_Join_Delete

record threadpool =
  tp_num_threads :: nat
  tp_threads :: bool
  tp_stop :: bool
  tp_jobs :: "64 word list"
  tp_lock :: "nat option"
  tp_pcs :: "nat \<Rightarrow> tp_pc"
  tp_posted :: "64 word list"
  tp_performed :: "64 word list"

definition tgoto :: "nat \<Rightarrow> tp_pc \<Rightarrow> threadpool \<Rightarrow> threadpool" where
  "tgoto t p s = s\<lparr>tp_pcs := (tp_pcs s)(t := p)\<rparr>"

text \<open>\<open>notify_one\<close> wakes one waiting thread, or none when no thread waits.\<close>

definition notify_one :: "nat option \<Rightarrow> nat \<Rightarrow> tp_pc \<Rightarrow> threadpool \<Rightarrow> threadpool result option" where
  "notify_one c t p s = (case c of
      None \<Rightarrow> if \<exists>u \<in> set [0..<tp_num_threads s]. tp_pcs s u = T_Waiting then None else Some (Inr (tgoto t p s))
    | Some u \<Rightarrow> if u < tp_num_threads s \<and> tp_pcs s u = T_Waiting then Some (Inr (tgoto t p (tgoto u T_Woken s))) else None)"

definition tp_acquire :: "nat \<Rightarrow> tp_pc \<Rightarrow> threadpool \<Rightarrow> threadpool result option" where
  "tp_acquire t p s = (if tp_lock s = None then Some (Inr (tgoto t p (s\<lparr>tp_lock := Some t\<rparr>))) else None)"

definition tp_release :: "nat \<Rightarrow> tp_pc \<Rightarrow> threadpool \<Rightarrow> threadpool result option" where
  "tp_release t p s =
    (if tp_lock s = Some t then Some (Inr (tgoto t p (s\<lparr>tp_lock := None\<rparr>))) else Some (Inl Lock_Misuse))"

definition tp_process :: "nat \<Rightarrow> nat option \<Rightarrow> threadpool \<Rightarrow> threadpool result option" where
  "tp_process t c s = (case tp_pcs s t of
      T_Head \<Rightarrow> Some (Inr (tgoto t (if tp_jobs s \<noteq> [] then T_Lock else T_Head_Stop) s))
    | T_Head_Stop \<Rightarrow> Some (Inr (tgoto t (if \<not> tp_stop s then T_Lock else T_Exited) s))
    | T_Lock \<Rightarrow> tp_acquire t T_Test s
    | T_Test \<Rightarrow> Some (Inr (tgoto t (if tp_jobs s = [] \<and> \<not> tp_stop s then T_Wait else T_Check) s))
    | T_Wait \<Rightarrow> tp_release t T_Waiting s
    | T_Woken \<Rightarrow> tp_acquire t T_Test s
    | T_Check \<Rightarrow> Some (Inr (tgoto t (if tp_jobs s = [] \<and> tp_stop s then T_Break_Unlock else T_Front) s))
    | T_Break_Unlock \<Rightarrow> tp_release t T_Break_Notify s
    | T_Break_Notify \<Rightarrow> notify_one c t T_Exited s
    | T_Front \<Rightarrow> (case tp_jobs s of
          [] \<Rightarrow> Some (Inl Out_Of_Bounds)
        | function_p # jobs \<Rightarrow> Some (Inr (tgoto t (T_Unlock function_p) (s\<lparr>tp_jobs := jobs\<rparr>))))
    | T_Unlock function_p \<Rightarrow> tp_release t (T_Notify function_p) s
    | T_Notify function_p \<Rightarrow> notify_one c t (T_Call function_p) s
    | T_Call function_p \<Rightarrow>
        Some (if function_p = 0 then Inl Null_Deref
              else Inr (tgoto t T_Head (s\<lparr>tp_performed := tp_performed s @ [function_p]\<rparr>)))
    | _ \<Rightarrow> None)"

definition tp_construct :: "nat \<Rightarrow> threadpool \<Rightarrow> threadpool result option" where
  "tp_construct t s = (case tp_pcs s t of
      T_Create num_threads \<Rightarrow>
        Some (Inr (if num_threads \<noteq> 0
          then tgoto t (T_Create (num_threads - 1)) (tgoto (num_threads - 1) T_Head s) else tgoto t T_Idle s))
    | _ \<Rightarrow> None)"

definition tp_post :: "nat \<Rightarrow> nat option \<Rightarrow> threadpool \<Rightarrow> threadpool result option" where
  "tp_post t c s = (case tp_pcs s t of
      T_Post_Lock function_p \<Rightarrow> tp_acquire t (T_Post_Push function_p) s
    | T_Post_Push function_p \<Rightarrow>
        Some (Inr (tgoto t T_Post_Notify (s\<lparr>tp_jobs := tp_jobs s @ [function_p], tp_posted := tp_posted s @ [function_p]\<rparr>)))
    | T_Post_Notify \<Rightarrow> notify_one c t T_Post_Unlock s
    | T_Post_Unlock \<Rightarrow> tp_release t T_Idle s
    | _ \<Rightarrow> None)"

definition tp_join :: "nat \<Rightarrow> nat option \<Rightarrow> threadpool \<Rightarrow> threadpool result option" where
  "tp_join t c s = (case tp_pcs s t of
      T_Join_Test \<Rightarrow> Some (Inr (tgoto t (if tp_stop s then T_Idle else T_Join_Stop) s))
    | T_Join_Stop \<Rightarrow> Some (Inr (tgoto t T_Join_Notify (s\<lparr>tp_stop := True\<rparr>)))
    | T_Join_Notify \<Rightarrow> notify_one c t (T_Join_Wait 0) s
    | T_Join_Wait i \<Rightarrow>
        if i < tp_num_threads s
        then if tp_pcs s i = T_Exited then Some (Inr (tgoto t (T_Join_Wait (i + 1)) s)) else None
        else Some (Inr (tgoto t T_Join_Delete s))
    | T_Join_Delete \<Rightarrow>
        Some (if tp_threads s then Inr (tgoto t T_Idle (s\<lparr>tp_threads := False\<rparr>)) else Inl Invalid_Free)
    | _ \<Rightarrow> None)"

definition tp_step :: "nat \<Rightarrow> nat option \<Rightarrow> threadpool \<Rightarrow> threadpool result option" where
  "tp_step t c s =
    (if t < tp_num_threads s then tp_process t c s
     else case tp_construct t s of Some r \<Rightarrow> Some r
       | None \<Rightarrow> (case tp_post t c s of Some r \<Rightarrow> Some r | None \<Rightarrow> tp_join t c s))"

definition tp_new :: "nat \<Rightarrow> threadpool" where
  "tp_new num_threads = \<lparr>tp_num_threads = num_threads, tp_threads = True, tp_stop = False, tp_jobs = [], tp_lock = None,
     tp_pcs = (\<lambda>t. if t < num_threads then T_Unborn else if t = num_threads then T_Create num_threads else T_Idle),
     tp_posted = [], tp_performed = []\<rparr>"

fun tp_creating :: "tp_pc \<Rightarrow> bool" where
  "tp_creating (T_Create i) = True"
| "tp_creating _ = False"

fun tp_joining :: "tp_pc \<Rightarrow> bool" where
  "tp_joining T_Join_Test = True"
| "tp_joining T_Join_Stop = True"
| "tp_joining T_Join_Notify = True"
| "tp_joining (T_Join_Wait i) = True"
| "tp_joining T_Join_Delete = True"
| "tp_joining _ = False"

inductive tp_moves :: "threadpool \<Rightarrow> threadpool \<Rightarrow> bool" where
  run: "tp_step t c s = Some (Inr s') \<Longrightarrow> tp_moves s s'"
| spurious: "tp_pcs s t = T_Waiting \<Longrightarrow> tp_moves s (tgoto t T_Woken s)"
| call_post: "tp_pcs s t = T_Idle \<Longrightarrow> \<not> tp_creating (tp_pcs s (tp_num_threads s)) \<Longrightarrow> tp_moves s (tgoto t (T_Post_Lock f) s)"
| call_join: "tp_pcs s t = T_Idle \<Longrightarrow> \<not> tp_creating (tp_pcs s (tp_num_threads s)) \<Longrightarrow>
    \<forall>u. \<not> tp_joining (tp_pcs s u) \<Longrightarrow> tp_moves s (tgoto t T_Join_Test s)"

section \<open>The steps\<close>

lemma tgoto_simps [simp]:
  "tp_num_threads (tgoto t p s) = tp_num_threads s" "tp_threads (tgoto t p s) = tp_threads s" "tp_stop (tgoto t p s) = tp_stop s"
  "tp_jobs (tgoto t p s) = tp_jobs s" "tp_lock (tgoto t p s) = tp_lock s" "tp_posted (tgoto t p s) = tp_posted s"
  "tp_performed (tgoto t p s) = tp_performed s" "tp_pcs (tgoto t p s) = (tp_pcs s)(t := p)"
  by (simp_all add: tgoto_def)

text \<open>What a step does: a move changes nothing but the thread; the other steps are those of the lock, of the
  notification, and those that change the pool.\<close>

fun tp_next :: "threadpool \<Rightarrow> tp_pc \<Rightarrow> tp_pc \<Rightarrow> bool" where
  "tp_next s T_Head p \<longleftrightarrow> p = T_Lock \<or> p = T_Head_Stop"
| "tp_next s T_Head_Stop p \<longleftrightarrow> p = T_Lock \<or> p = T_Exited"
| "tp_next s T_Test p \<longleftrightarrow> p = T_Wait \<or> p = T_Check \<and> (tp_jobs s \<noteq> [] \<or> tp_stop s)"
| "tp_next s T_Check p \<longleftrightarrow> (if tp_jobs s = [] \<and> tp_stop s then p = T_Break_Unlock else p = T_Front)"
| "tp_next s T_Waiting p \<longleftrightarrow> p = T_Woken"
| "tp_next s (T_Create i) p \<longleftrightarrow> i = 0 \<and> p = T_Idle"
| "tp_next s T_Join_Test p \<longleftrightarrow> (if tp_stop s then p = T_Idle else p = T_Join_Stop)"
| "tp_next s (T_Join_Wait i) p \<longleftrightarrow>
     (if i < tp_num_threads s then tp_pcs s i = T_Exited \<and> p = T_Join_Wait (i + 1) else p = T_Join_Delete)"
| "tp_next s T_Idle p \<longleftrightarrow> (\<exists>f. p = T_Post_Lock f) \<or> p = T_Join_Test \<and> (\<forall>u. \<not> tp_joining (tp_pcs s u))"
| "tp_next s _ p \<longleftrightarrow> False"

fun tp_locks :: "tp_pc \<Rightarrow> tp_pc option" where
  "tp_locks T_Lock = Some T_Test"
| "tp_locks T_Woken = Some T_Test"
| "tp_locks (T_Post_Lock f) = Some (T_Post_Push f)"
| "tp_locks _ = None"

fun tp_unlocks :: "tp_pc \<Rightarrow> tp_pc option" where
  "tp_unlocks T_Wait = Some T_Waiting"
| "tp_unlocks T_Break_Unlock = Some T_Break_Notify"
| "tp_unlocks (T_Unlock f) = Some (T_Notify f)"
| "tp_unlocks T_Post_Unlock = Some T_Idle"
| "tp_unlocks _ = None"

fun tp_notifies :: "tp_pc \<Rightarrow> tp_pc option" where
  "tp_notifies T_Break_Notify = Some T_Exited"
| "tp_notifies (T_Notify f) = Some (T_Call f)"
| "tp_notifies T_Post_Notify = Some T_Post_Unlock"
| "tp_notifies T_Join_Notify = Some (T_Join_Wait 0)"
| "tp_notifies _ = None"

inductive tp_effect :: "nat \<Rightarrow> threadpool \<Rightarrow> threadpool \<Rightarrow> bool" where
  move: "tp_next s (tp_pcs s t) p \<Longrightarrow> tp_effect t s (tgoto t p s)"
| lock: "tp_locks (tp_pcs s t) = Some p \<Longrightarrow> tp_lock s = None \<Longrightarrow> tp_effect t s (tgoto t p (s\<lparr>tp_lock := Some t\<rparr>))"
| unlock: "tp_unlocks (tp_pcs s t) = Some p \<Longrightarrow> tp_lock s = Some t \<Longrightarrow> tp_effect t s (tgoto t p (s\<lparr>tp_lock := None\<rparr>))"
| notify: "tp_notifies (tp_pcs s t) = Some p \<Longrightarrow> tp_effect t s (tgoto t p s)"
| wake: "tp_notifies (tp_pcs s t) = Some p \<Longrightarrow> tp_pcs s u = T_Waiting \<Longrightarrow> tp_effect t s (tgoto t p (tgoto u T_Woken s))"
| front: "tp_pcs s t = T_Front \<Longrightarrow> tp_jobs s = f # js \<Longrightarrow> tp_effect t s (tgoto t (T_Unlock f) (s\<lparr>tp_jobs := js\<rparr>))"
| call: "tp_pcs s t = T_Call f \<Longrightarrow> tp_effect t s (tgoto t T_Head (s\<lparr>tp_performed := tp_performed s @ [f]\<rparr>))"
| create: "tp_pcs s t = T_Create (Suc i) \<Longrightarrow> tp_effect t s (tgoto t (T_Create i) (tgoto i T_Head s))"
| push: "tp_pcs s t = T_Post_Push f \<Longrightarrow>
    tp_effect t s (tgoto t T_Post_Notify (s\<lparr>tp_jobs := tp_jobs s @ [f], tp_posted := tp_posted s @ [f]\<rparr>))"
| stop: "tp_pcs s t = T_Join_Stop \<Longrightarrow> tp_effect t s (tgoto t T_Join_Notify (s\<lparr>tp_stop := True\<rparr>))"
| delete: "tp_pcs s t = T_Join_Delete \<Longrightarrow> tp_effect t s (tgoto t T_Idle (s\<lparr>tp_threads := False\<rparr>))"

lemma acquire_effect: "tp_acquire t p s = Some (Inr s') \<Longrightarrow> tp_locks (tp_pcs s t) = Some p \<Longrightarrow> tp_effect t s s'"
  by (auto simp: tp_acquire_def split: if_splits intro: tp_effect.lock)

lemma release_effect: "tp_release t p s = Some (Inr s') \<Longrightarrow> tp_unlocks (tp_pcs s t) = Some p \<Longrightarrow> tp_effect t s s'"
  by (auto simp: tp_release_def split: if_splits intro: tp_effect.unlock)

lemma notify_effect: "notify_one c t p s = Some (Inr s') \<Longrightarrow> tp_notifies (tp_pcs s t) = Some p \<Longrightarrow> tp_effect t s s'"
  by (auto simp: notify_one_def split: if_splits option.splits intro: tp_effect.notify tp_effect.wake)

lemma process_effect: "tp_process t c s = Some (Inr s') \<Longrightarrow> tp_effect t s s'"
  by (cases "tp_pcs s t") (auto simp: tp_process_def split: if_splits list.splits
      intro: acquire_effect release_effect notify_effect tp_effect.move tp_effect.front tp_effect.call)

lemma construct_effect:
  assumes "tp_construct t s = Some (Inr s')"
  shows "tp_effect t s s'"
proof (cases "tp_pcs s t")
  case (T_Create i)
  then show ?thesis using assms tp_effect.create[of s t "i - 1"] tp_effect.move[of s t T_Idle]
    by (cases i) (simp_all add: tp_construct_def)
qed (use assms in \<open>simp_all add: tp_construct_def\<close>)

lemma post_effect: "tp_post t c s = Some (Inr s') \<Longrightarrow> tp_effect t s s'"
  by (cases "tp_pcs s t") (auto simp: tp_post_def intro: acquire_effect release_effect notify_effect tp_effect.push)

lemma join_effect: "tp_join t c s = Some (Inr s') \<Longrightarrow> tp_effect t s s'"
  by (cases "tp_pcs s t") (auto simp: tp_join_def split: if_splits
      intro: notify_effect tp_effect.move tp_effect.stop tp_effect.delete)

lemma tp_moves_effect:
  assumes "tp_moves s s'"
  shows "\<exists>t. tp_effect t s s'"
  using assms
proof (cases rule: tp_moves.cases)
  case (run t c)
  then show ?thesis unfolding tp_step_def
    by (auto split: if_splits option.splits intro: process_effect construct_effect post_effect join_effect)
next
  case (spurious t)
  then show ?thesis using tp_effect.move[of s t T_Woken] by auto
next
  case (call_post t f)
  then show ?thesis using tp_effect.move[of s t "T_Post_Lock f"] by auto
next
  case (call_join t)
  then show ?thesis using tp_effect.move[of s t T_Join_Test] by auto
qed

section \<open>The invariant\<close>

text \<open>The code of a worker, the code that runs under the lock, the code of \<open>join\<close> after the flag has been set,
  the job in hand, and how many workers a joiner has waited for.\<close>

fun tp_client :: "tp_pc \<Rightarrow> bool" where
  "tp_client T_Idle = True" | "tp_client (T_Create i) = True"
| "tp_client (T_Post_Lock f) = True" | "tp_client (T_Post_Push f) = True" | "tp_client T_Post_Notify = True"
| "tp_client T_Post_Unlock = True" | "tp_client T_Join_Test = True" | "tp_client T_Join_Stop = True"
| "tp_client T_Join_Notify = True" | "tp_client (T_Join_Wait i) = True" | "tp_client T_Join_Delete = True"
| "tp_client _ = False"

fun tp_locked :: "tp_pc \<Rightarrow> bool" where
  "tp_locked T_Test = True" | "tp_locked T_Wait = True" | "tp_locked T_Check = True" | "tp_locked T_Front = True"
| "tp_locked T_Break_Unlock = True" | "tp_locked (T_Unlock f) = True" | "tp_locked (T_Post_Push f) = True"
| "tp_locked T_Post_Notify = True" | "tp_locked T_Post_Unlock = True"
| "tp_locked _ = False"

fun tp_stopping :: "tp_pc \<Rightarrow> bool" where
  "tp_stopping T_Join_Notify = True" | "tp_stopping (T_Join_Wait i) = True" | "tp_stopping T_Join_Delete = True"
| "tp_stopping _ = False"

fun tp_hand :: "tp_pc \<Rightarrow> 64 word multiset" where
  "tp_hand (T_Unlock f) = {#f#}" | "tp_hand (T_Notify f) = {#f#}" | "tp_hand (T_Call f) = {#f#}"
| "tp_hand _ = {#}"

fun tp_waited :: "nat \<Rightarrow> tp_pc \<Rightarrow> nat" where
  "tp_waited n (T_Join_Wait i) = i" | "tp_waited n T_Join_Delete = n"
| "tp_waited n _ = 0"

definition tp_roles :: "threadpool \<Rightarrow> bool" where
  "tp_roles s \<longleftrightarrow> (\<forall>t. tp_client (tp_pcs s t) \<longleftrightarrow> tp_num_threads s \<le> t) \<and>
    (\<forall>t i. tp_pcs s t = T_Create i \<longrightarrow> t = tp_num_threads s \<and> i \<le> t \<and> (\<forall>u < i. tp_pcs s u = T_Unborn))"

definition tp_lock_inv :: "threadpool \<Rightarrow> bool" where
  "tp_lock_inv s \<longleftrightarrow> (\<forall>t. tp_locked (tp_pcs s t) \<longleftrightarrow> tp_lock s = Some t) \<and>
    (\<forall>t. tp_pcs s t = T_Front \<longrightarrow> tp_jobs s \<noteq> []) \<and> (\<forall>t. tp_pcs s t = T_Check \<longrightarrow> tp_jobs s \<noteq> [] \<or> tp_stop s)"

definition tp_join_inv :: "threadpool \<Rightarrow> bool" where
  "tp_join_inv s \<longleftrightarrow> (\<forall>t u. tp_joining (tp_pcs s t) \<and> tp_joining (tp_pcs s u) \<longrightarrow> t = u) \<and>
    (\<forall>t. tp_pcs s t = T_Join_Stop \<longrightarrow> \<not> tp_stop s) \<and> (\<forall>t. tp_stopping (tp_pcs s t) \<longrightarrow> tp_stop s \<and> tp_threads s) \<and>
    (tp_threads s \<or> tp_stop s)"

definition tp_exits :: "threadpool \<Rightarrow> bool" where
  "tp_exits s \<longleftrightarrow> (\<forall>t. \<forall>u < tp_waited (tp_num_threads s) (tp_pcs s t). tp_pcs s u = T_Exited) \<and>
    (\<not> tp_threads s \<longrightarrow> (\<forall>u < tp_num_threads s. tp_pcs s u = T_Exited))"

definition tp_inv :: "threadpool \<Rightarrow> bool" where
  "tp_inv s \<longleftrightarrow> tp_roles s \<and> tp_lock_inv s \<and> tp_join_inv s \<and> tp_exits s"

text \<open>What a step does not change.\<close>

definition tp_quiet :: "tp_pc \<Rightarrow> bool" where
  "tp_quiet p \<longleftrightarrow> p \<noteq> T_Front \<and> p \<noteq> T_Check \<and> \<not> tp_creating p"

lemma tp_kinds:
  "tp_next s p q \<Longrightarrow> tp_client q = tp_client p \<and> tp_hand q = {#} \<and> tp_hand p = {#} \<and> tp_locked q = tp_locked p \<and>
    p \<noteq> T_Exited \<and> p \<noteq> T_Unborn \<and> \<not> tp_creating q"
  "tp_locks p = Some q \<Longrightarrow> tp_client q = tp_client p \<and> tp_hand q = {#} \<and> tp_hand p = {#} \<and> tp_locked q \<and> \<not> tp_locked p \<and>
    p \<noteq> T_Exited \<and> p \<noteq> T_Unborn \<and> tp_quiet q \<and> tp_waited n q = 0 \<and> \<not> tp_joining q \<and> \<not> tp_stopping q"
  "tp_unlocks p = Some q \<Longrightarrow> tp_client q = tp_client p \<and> tp_hand q = tp_hand p \<and> tp_locked p \<and> \<not> tp_locked q \<and>
    p \<noteq> T_Exited \<and> p \<noteq> T_Unborn \<and> tp_quiet q \<and> tp_waited n q = 0 \<and> \<not> tp_joining q \<and> \<not> tp_stopping q"
  "tp_notifies p = Some q \<Longrightarrow> tp_client q = tp_client p \<and> tp_hand q = tp_hand p \<and> tp_locked q = tp_locked p \<and>
    p \<noteq> T_Exited \<and> p \<noteq> T_Unborn \<and> p \<noteq> T_Waiting \<and> tp_quiet q \<and> tp_waited n q = 0 \<and> tp_joining q = tp_joining p \<and>
    tp_stopping q = tp_stopping p \<and> q \<noteq> T_Join_Stop"
  by (cases p; auto simp: tp_quiet_def split: if_splits)+


text \<open>The roles.\<close>

lemma tp_roles_upd [simp]:
  "tp_roles (s\<lparr>tp_lock := l\<rparr>) = tp_roles s" "tp_roles (s\<lparr>tp_jobs := js\<rparr>) = tp_roles s" "tp_roles (s\<lparr>tp_stop := b\<rparr>) = tp_roles s"
  "tp_roles (s\<lparr>tp_threads := b\<rparr>) = tp_roles s" "tp_roles (s\<lparr>tp_posted := js\<rparr>) = tp_roles s"
  "tp_roles (s\<lparr>tp_performed := js\<rparr>) = tp_roles s"
  by (simp_all add: tp_roles_def)

lemma tp_client_number: "tp_roles s \<Longrightarrow> tp_client (tp_pcs s t) \<longleftrightarrow> tp_num_threads s \<le> t"
  unfolding tp_roles_def by blast

lemma tp_roles_goto:
  assumes "tp_roles s" and "tp_client p = tp_client (tp_pcs s t)" and "tp_pcs s t \<noteq> T_Unborn" and "\<not> tp_creating p"
  shows "tp_roles (tgoto t p s)"
  unfolding tp_roles_def
proof (intro conjI allI impI)
  show "tp_client (tp_pcs (tgoto t p s) u) = (tp_num_threads (tgoto t p s) \<le> u)" for u
    using assms(2) tp_client_number[OF assms(1)] by simp
  fix u i
  assume "tp_pcs (tgoto t p s) u = T_Create i"
  then have "tp_pcs s u = T_Create i" using assms(4) by (auto split: if_splits)
  then have u: "u = tp_num_threads s" "i \<le> u" "\<forall>v < i. tp_pcs s v = T_Unborn" using assms(1) unfolding tp_roles_def by blast+
  then show "u = tp_num_threads (tgoto t p s)" "i \<le> u" by simp_all
  show "tp_pcs (tgoto t p s) v = T_Unborn" if "v < i" for v using u(3) that assms(3) by auto
qed

lemma tp_creator:
  assumes "tp_roles s" and "tp_pcs s t = T_Create (Suc i)"
  shows "t = tp_num_threads s" and "i < t" and "tp_pcs s i = T_Unborn"
  using assms unfolding tp_roles_def by fastforce+

lemma tp_roles_effect:
  assumes "tp_effect t s s'" and "tp_roles s"
  shows "tp_roles s'"
  using assms(1)
proof (cases rule: tp_effect.cases)
  case (move p)
  then show ?thesis using tp_roles_goto[OF assms(2)] tp_kinds(1)[OF move(2)] by blast
next
  case (lock p)
  then show ?thesis using tp_roles_goto[of "s\<lparr>tp_lock := Some t\<rparr>" p t] assms(2) tp_kinds(2)[OF lock(2)] by (simp add: tp_quiet_def)
next
  case (unlock p)
  then show ?thesis using tp_roles_goto[of "s\<lparr>tp_lock := None\<rparr>" p t] assms(2) tp_kinds(3)[OF unlock(2)] by (simp add: tp_quiet_def)
next
  case (notify p)
  then show ?thesis using tp_roles_goto[OF assms(2)] tp_kinds(4)[OF notify(2)] by (simp add: tp_quiet_def)
next
  case (wake p u)
  have "tp_roles (tgoto u T_Woken s)" using assms(2) wake(3) by (intro tp_roles_goto) simp_all
  then show ?thesis using wake tp_roles_goto[of "tgoto u T_Woken s" p t] tp_kinds(4)[OF wake(2)] by (auto simp: tp_quiet_def)
next
  case (create i)
  note c = tp_creator[OF assms(2) create(2)]
  have below: "\<forall>v < i. tp_pcs s v = T_Unborn" using assms(2) create(2) unfolding tp_roles_def by auto
  have alone: "u = t" if "tp_pcs s u = T_Create j" for u j using assms(2) c(1) that unfolding tp_roles_def by metis
  show ?thesis
    unfolding tp_roles_def
  proof (intro conjI allI impI)
    show "tp_client (tp_pcs s' u) = (tp_num_threads s' \<le> u)" for u
      using tp_client_number[OF assms(2), of u] c create(1) by (cases "u = t"; cases "u = i") simp_all
    fix u j
    assume "tp_pcs s' u = T_Create j"
    then have u: "u = t" "j = i" using alone c(2) create(1) by (auto split: if_splits)
    show "u = tp_num_threads s'" "j \<le> u" using u c(1,2) create(1) by simp_all
    show "tp_pcs s' v = T_Unborn" if "v < j" for v using that u below c(2) create(1) by simp
  qed
qed (use assms(2) in \<open>auto intro!: tp_roles_goto\<close>)

text \<open>The lock.\<close>

lemma tp_lock_goto:
  assumes "tp_lock_inv s" and "tp_locked p = tp_locked (tp_pcs s t)" and "p = T_Front \<longrightarrow> tp_jobs s \<noteq> []"
    and "p = T_Check \<longrightarrow> tp_jobs s \<noteq> [] \<or> tp_stop s"
  shows "tp_lock_inv (tgoto t p s)"
  using assms unfolding tp_lock_inv_def by auto

lemma tp_lock_owner: "tp_lock_inv s \<Longrightarrow> tp_locked (tp_pcs s t) \<Longrightarrow> u \<noteq> t \<Longrightarrow> \<not> tp_locked (tp_pcs s u)"
  unfolding tp_lock_inv_def by (metis option.inject)

lemma tp_lock_effect:
  assumes "tp_effect t s s'" and "tp_roles s" and "tp_lock_inv s"
  shows "tp_lock_inv s'"
  using assms(1)
proof (cases rule: tp_effect.cases)
  case (move p)
  have "p = T_Front \<longrightarrow> tp_jobs s \<noteq> []" "p = T_Check \<longrightarrow> tp_jobs s \<noteq> [] \<or> tp_stop s"
    using move(2) assms(3) by (cases "tp_pcs s t"; auto simp: tp_lock_inv_def split: if_splits)+
  then show ?thesis using move(1) tp_lock_goto[OF assms(3)] tp_kinds(1)[OF move(2)] by blast
next
  case (lock p)
  then show ?thesis using tp_kinds(2)[OF lock(2), of 0] assms(3) unfolding tp_lock_inv_def by (auto simp: tp_quiet_def)
next
  case (unlock p)
  then show ?thesis using tp_kinds(3)[OF unlock(2), of 0] assms(3) unfolding tp_lock_inv_def by (auto simp: tp_quiet_def)
next
  case (notify p)
  then show ?thesis using tp_lock_goto[OF assms(3)] tp_kinds(4)[OF notify(2), of 0] by (simp add: tp_quiet_def)
next
  case (wake p u)
  note k = tp_kinds(4)[OF wake(2), of 0]
  have "tp_lock_inv (tgoto u T_Woken s)" using assms(3) wake(3) by (intro tp_lock_goto) simp_all
  then show ?thesis unfolding wake(1) by (rule tp_lock_goto) (use k wake(3) in \<open>auto simp: tp_quiet_def\<close>)
next
  case (front f js)
  have "\<not> tp_locked (tp_pcs s u)" if "u \<noteq> t" for u using tp_lock_owner[OF assms(3) _ that] front(2) by simp
  then have "tp_pcs s u \<noteq> T_Front \<and> tp_pcs s u \<noteq> T_Check" if "u \<noteq> t" for u using that by force
  then show ?thesis using front assms(3) unfolding tp_lock_inv_def by auto
next
  case (call f)
  have "tp_lock_inv (s\<lparr>tp_performed := tp_performed s @ [f]\<rparr>)" using assms(3) by (simp add: tp_lock_inv_def)
  then show ?thesis unfolding call(1) by (rule tp_lock_goto) (use call(2) in simp_all)
next
  case (create i)
  note c = tp_creator[OF assms(2) create(2)]
  have "tp_lock_inv (tgoto i T_Head s)" using assms(3) c by (intro tp_lock_goto) simp_all
  then show ?thesis unfolding create(1) by (rule tp_lock_goto) (use create(2) c in simp_all)
next
  case (push f)
  have "tp_lock_inv (s\<lparr>tp_jobs := tp_jobs s @ [f], tp_posted := tp_posted s @ [f]\<rparr>)" using assms(3) by (simp add: tp_lock_inv_def)
  then show ?thesis unfolding push(1) by (rule tp_lock_goto) (use push(2) in simp_all)
next
  case stop
  have "tp_lock_inv (s\<lparr>tp_stop := True\<rparr>)" using assms(3) by (simp add: tp_lock_inv_def)
  then show ?thesis unfolding stop(1) by (rule tp_lock_goto) (use stop(2) in simp_all)
next
  case delete
  have "tp_lock_inv (s\<lparr>tp_threads := False\<rparr>)" using assms(3) by (simp add: tp_lock_inv_def)
  then show ?thesis unfolding delete(1) by (rule tp_lock_goto) (use delete(2) in simp_all)
qed


text \<open>The calls of \<open>join\<close>.\<close>

lemma tp_join_goto:
  assumes "tp_join_inv s" and "tp_joining p \<Longrightarrow> tp_joining (tp_pcs s t) \<or> (\<forall>u. \<not> tp_joining (tp_pcs s u))"
    and "p = T_Join_Stop \<Longrightarrow> \<not> tp_stop s" and "tp_stopping p \<Longrightarrow> tp_stop s \<and> tp_threads s"
  shows "tp_join_inv (tgoto t p s)"
  unfolding tp_join_inv_def
proof (intro conjI allI impI)
  fix u v
  assume "tp_joining (tp_pcs (tgoto t p s) u) \<and> tp_joining (tp_pcs (tgoto t p s) v)"
  then show "u = v" using assms(1,2) unfolding tp_join_inv_def by (cases "u = t"; cases "v = t") auto
qed (use assms in \<open>auto simp: tp_join_inv_def split: if_splits\<close>)

lemma tp_join_upd [simp]:
  "tp_join_inv (s\<lparr>tp_lock := l\<rparr>) = tp_join_inv s" "tp_join_inv (s\<lparr>tp_jobs := js\<rparr>) = tp_join_inv s"
  "tp_join_inv (s\<lparr>tp_posted := js\<rparr>) = tp_join_inv s" "tp_join_inv (s\<lparr>tp_performed := js\<rparr>) = tp_join_inv s"
  by (simp_all add: tp_join_inv_def)

lemma tp_stopping: "tp_join_inv s \<Longrightarrow> tp_stopping (tp_pcs s t) \<Longrightarrow> tp_stop s \<and> tp_threads s"
  unfolding tp_join_inv_def by blast

lemma tp_joiner: "tp_join_inv s \<Longrightarrow> tp_joining (tp_pcs s t) \<Longrightarrow> u \<noteq> t \<Longrightarrow> \<not> tp_joining (tp_pcs s u)"
  unfolding tp_join_inv_def by blast

lemma tp_stopping_joining: "tp_stopping p \<Longrightarrow> tp_joining p"
  by (cases p) simp_all

lemma tp_join_effect:
  assumes "tp_effect t s s'" and "tp_roles s" and "tp_join_inv s"
  shows "tp_join_inv s'"
  using assms(1)
proof (cases rule: tp_effect.cases)
  case (move p)
  show ?thesis
    unfolding move(1)
  proof (rule tp_join_goto[OF assms(3)])
    show "tp_joining (tp_pcs s t) \<or> (\<forall>u. \<not> tp_joining (tp_pcs s u))" if "tp_joining p"
      using move(2) that by (cases "tp_pcs s t") (auto split: if_splits)
    show "\<not> tp_stop s" if "p = T_Join_Stop" using move(2) that by (cases "tp_pcs s t") (auto split: if_splits)
    show "tp_stop s \<and> tp_threads s" if "tp_stopping p"
      using move(2) that tp_stopping[OF assms(3), of t] by (cases "tp_pcs s t") (auto split: if_splits)
  qed
next
  case (lock p)
  show ?thesis unfolding lock(1) by (rule tp_join_goto) (use assms(3) tp_kinds(2)[OF lock(2), of 0] in \<open>auto\<close>)
next
  case (unlock p)
  show ?thesis unfolding unlock(1) by (rule tp_join_goto) (use assms(3) tp_kinds(3)[OF unlock(2), of 0] in \<open>auto\<close>)
next
  case (notify p)
  show ?thesis unfolding notify(1)
    by (rule tp_join_goto[OF assms(3)]) (use tp_stopping[OF assms(3), of t] tp_kinds(4)[OF notify(2), of 0] in auto)
next
  case (wake p u)
  note k = tp_kinds(4)[OF wake(2), of 0]
  have "tp_join_inv (tgoto u T_Woken s)" using assms(3) by (intro tp_join_goto) simp_all
  then show ?thesis unfolding wake(1)
    by (rule tp_join_goto) (use tp_stopping[OF assms(3), of t] k wake(3) in auto)
next
  case (front f js)
  then show ?thesis using assms(3) by (auto intro!: tp_join_goto)
next
  case (call f)
  then show ?thesis using assms(3) by (auto intro!: tp_join_goto)
next
  case (create i)
  have "tp_join_inv (tgoto i T_Head s)" using assms(3) by (intro tp_join_goto) simp_all
  then show ?thesis unfolding create(1) by (rule tp_join_goto) simp_all
next
  case (push f)
  have "tp_join_inv (s\<lparr>tp_jobs := tp_jobs s @ [f], tp_posted := tp_posted s @ [f]\<rparr>)" using assms(3) by (simp add: tp_join_inv_def)
  then show ?thesis unfolding push(1) by (rule tp_join_goto) simp_all
next
  case stop
  have "\<not> tp_stop s" using assms(3) stop(2) unfolding tp_join_inv_def by blast
  then have th: "tp_threads s" using assms(3) unfolding tp_join_inv_def by blast
  have "u = t" if "tp_pcs s u = T_Join_Stop" for u using tp_joiner[OF assms(3), of t u] stop(2) that by auto
  moreover have "u = v" if "tp_joining (tp_pcs s u)" "tp_joining (tp_pcs s v)" for u v
    using assms(3) that unfolding tp_join_inv_def by blast
  ultimately show ?thesis using stop th unfolding tp_join_inv_def by (auto split: if_splits)
next
  case delete
  have "\<not> tp_joining (tp_pcs s u)" if "u \<noteq> t" for u using tp_joiner[OF assms(3) _ that] delete(2) by simp
  then have none: "\<not> tp_joining (tp_pcs s' u)" for u using delete(1) by simp
  have "tp_stop s'" using tp_stopping[OF assms(3), of t] delete by simp
  then show ?thesis using none tp_stopping_joining unfolding tp_join_inv_def by (metis tp_joining.simps(2))
qed

text \<open>The workers that have returned.\<close>

lemma tp_exits_goto:
  assumes "tp_exits s" and "tp_pcs s t \<noteq> T_Exited" and "\<And>u. u < tp_waited (tp_num_threads s) p \<Longrightarrow> tp_pcs s u = T_Exited"
  shows "tp_exits (tgoto t p s)"
  using assms unfolding tp_exits_def by (simp; metis)

lemma tp_exits_upd [simp]:
  "tp_exits (s\<lparr>tp_lock := l\<rparr>) = tp_exits s" "tp_exits (s\<lparr>tp_jobs := js\<rparr>) = tp_exits s" "tp_exits (s\<lparr>tp_stop := b\<rparr>) = tp_exits s"
  "tp_exits (s\<lparr>tp_posted := js\<rparr>) = tp_exits s" "tp_exits (s\<lparr>tp_performed := js\<rparr>) = tp_exits s"
  by (simp_all add: tp_exits_def)

lemma tp_exits_effect:
  assumes "tp_effect t s s'" and "tp_roles s" and "tp_exits s"
  shows "tp_exits s'"
  using assms(1)
proof (cases rule: tp_effect.cases)
  case (move p)
  have w: "\<forall>u < tp_waited (tp_num_threads s) (tp_pcs s t). tp_pcs s u = T_Exited" using assms(3) unfolding tp_exits_def by blast
  show ?thesis
    unfolding move(1)
  proof (rule tp_exits_goto[OF assms(3)])
    show "tp_pcs s u = T_Exited" if "u < tp_waited (tp_num_threads s) p" for u
      using move(2) w that by (cases "tp_pcs s t") (auto split: if_splits simp: less_Suc_eq)
  qed (use tp_kinds(1)[OF move(2)] in blast)
next
  case (lock p)
  show ?thesis unfolding lock(1) by (rule tp_exits_goto) (use assms(3) tp_kinds(2)[OF lock(2)] in \<open>simp_all\<close>)
next
  case (unlock p)
  show ?thesis unfolding unlock(1) by (rule tp_exits_goto) (use assms(3) tp_kinds(3)[OF unlock(2)] in \<open>simp_all\<close>)
next
  case (notify p)
  show ?thesis unfolding notify(1) by (rule tp_exits_goto[OF assms(3)]) (use tp_kinds(4)[OF notify(2)] in \<open>simp_all\<close>)
next
  case (wake p u)
  note k = tp_kinds(4)[OF wake(2)]
  have "tp_exits (tgoto u T_Woken s)" using assms(3) wake(3) by (intro tp_exits_goto) simp_all
  then show ?thesis unfolding wake(1) by (rule tp_exits_goto) (use k in simp_all)
next
  case (create i)
  note c = tp_creator[OF assms(2) create(2)]
  have "tp_exits (tgoto i T_Head s)" using assms(3) c by (intro tp_exits_goto) simp_all
  then show ?thesis unfolding create(1) by (rule tp_exits_goto) (use create(2) c in simp_all)
next
  case delete
  have "\<forall>u < tp_num_threads s. tp_pcs s u = T_Exited" using assms(3) delete(2) unfolding tp_exits_def by (metis tp_waited.simps(2))
  then have "tp_exits (s\<lparr>tp_threads := False\<rparr>)" using assms(3) unfolding tp_exits_def by simp
  then show ?thesis unfolding delete(1) by (rule tp_exits_goto) (use delete(2) in simp_all)
qed (use assms(3) in \<open>auto intro!: tp_exits_goto\<close>)

lemma tp_inv_moves:
  assumes "tp_moves s s'" and "tp_inv s"
  shows "tp_inv s' \<and> tp_num_threads s' = tp_num_threads s"
proof -
  obtain t where e: "tp_effect t s s'" using tp_moves_effect[OF assms(1)] by auto
  then have "tp_num_threads s' = tp_num_threads s" by (cases rule: tp_effect.cases) simp_all
  then show ?thesis
    using assms(2) tp_roles_effect[OF e] tp_lock_effect[OF e] tp_join_effect[OF e] tp_exits_effect[OF e] unfolding tp_inv_def by blast
qed

lemma tp_inv_new: "tp_inv (tp_new n)"
  by (auto simp: tp_new_def tp_inv_def tp_roles_def tp_lock_inv_def tp_join_inv_def tp_exits_def)


section \<open>The contract\<close>

text \<open>The jobs in hand, and the pool as the contract sees it.\<close>

definition tp_flight :: "threadpool \<Rightarrow> 64 word multiset" where
  "tp_flight s = (\<Sum>t < tp_num_threads s. tp_hand (tp_pcs s t))"

definition tp_view :: "threadpool \<Rightarrow> 64 word contract" where
  "tp_view s = \<lparr>ct_waiting = tp_jobs s, ct_hand = tp_flight s, ct_joined = (\<not> tp_threads s)\<rparr>"

definition tp_rel :: "64 word pool_act list \<Rightarrow> threadpool \<Rightarrow> 64 word contract \<Rightarrow> bool" where
  "tp_rel ps s c \<longleftrightarrow> c = tp_view s \<and> posts ps = tp_posted s \<and> performs ps = tp_performed s"

lemma tp_flight_upd [simp]:
  "tp_flight (s\<lparr>tp_lock := l\<rparr>) = tp_flight s" "tp_flight (s\<lparr>tp_jobs := js\<rparr>) = tp_flight s" "tp_flight (s\<lparr>tp_stop := b\<rparr>) = tp_flight s"
  "tp_flight (s\<lparr>tp_threads := b\<rparr>) = tp_flight s" "tp_flight (s\<lparr>tp_posted := js\<rparr>) = tp_flight s"
  "tp_flight (s\<lparr>tp_performed := js\<rparr>) = tp_flight s"
  by (simp_all add: tp_flight_def)

lemma tp_flight_same: "tp_hand p = tp_hand (tp_pcs s t) \<Longrightarrow> tp_flight (tgoto t p s) = tp_flight s"
  unfolding tp_flight_def by (auto intro!: sum.cong)

lemma tp_flight_goto:
  assumes "t < tp_num_threads s"
  shows "tp_flight (tgoto t p s) + tp_hand (tp_pcs s t) = tp_flight s + tp_hand p"
proof -
  let ?n = "{..<tp_num_threads s}"
  have t: "t \<in> ?n" using assms by simp
  have "(\<Sum>u \<in> ?n - {t}. tp_hand (if u = t then p else tp_pcs s u)) = (\<Sum>u \<in> ?n - {t}. tp_hand (tp_pcs s u))"
    by (intro sum.cong) auto
  then show ?thesis unfolding tp_flight_def by (simp add: sum.remove[OF finite_lessThan t])
qed

lemma tp_flight_none: "(\<And>u. u < tp_num_threads s \<Longrightarrow> tp_pcs s u = T_Exited) \<Longrightarrow> tp_flight s = {#}"
  unfolding tp_flight_def by (intro sum.neutral) auto

lemma tp_sim_same:
  assumes "tp_rel ps s c" and "tp_hand p = tp_hand (tp_pcs s t)"
  shows "tp_rel ps (tgoto t p s) c"
  using assms tp_flight_same[OF assms(2)] by (simp add: tp_rel_def tp_view_def)

lemma tp_rel_lock [simp]: "tp_rel ps (s\<lparr>tp_lock := l\<rparr>) c = tp_rel ps s c"
  by (simp add: tp_rel_def tp_view_def)

lemma tp_rel_stop [simp]: "tp_rel ps (s\<lparr>tp_stop := b\<rparr>) c = tp_rel ps s c"
  by (simp add: tp_rel_def tp_view_def)

lemma tp_not_joined:
  assumes "tp_inv s" and "\<not> tp_client (tp_pcs s t)" and "tp_pcs s t \<noteq> T_Exited"
  shows "t < tp_num_threads s" and "tp_threads s"
  using assms tp_client_number[of s t] unfolding tp_inv_def tp_exits_def by auto

lemma tp_hand_one: "size (tp_hand p) \<le> 1"
  by (cases p) simp_all

lemma tp_sim:
  assumes "tp_inv s" and "tp_num_threads s = n" and "tp_rel ps s c" and "tp_moves s s'"
  shows "tp_rel ps s' c \<or> (\<exists>p c'. contract_act n p c = Some c' \<and> tp_rel (ps @ [p]) s' c')"
proof -
  obtain t where e: "tp_effect t s s'" using tp_moves_effect[OF assms(4)] by auto
  have rel: "c = tp_view s" "posts ps = tp_posted s" "performs ps = tp_performed s" using assms(3) by (simp_all add: tp_rel_def)
  from e show ?thesis
  proof (cases rule: tp_effect.cases)
    case (move p)
    then show ?thesis using tp_sim_same[OF assms(3)] tp_kinds(1)[OF move(2)] by auto
  next
    case (lock p)
    then show ?thesis using tp_sim_same[of ps "s\<lparr>tp_lock := Some t\<rparr>" c p t] assms(3) tp_kinds(2)[OF lock(2)] by simp
  next
    case (unlock p)
    then show ?thesis using tp_sim_same[of ps "s\<lparr>tp_lock := None\<rparr>" c p t] assms(3) tp_kinds(3)[OF unlock(2)] by simp
  next
    case (notify p)
    then show ?thesis using tp_sim_same[OF assms(3)] tp_kinds(4)[OF notify(2)] by simp
  next
    case (wake p u)
    have "tp_rel ps (tgoto u T_Woken s) c" by (rule tp_sim_same[OF assms(3)]) (use wake(3) in simp)
    then have "tp_rel ps s' c" unfolding wake(1) by (rule tp_sim_same) (use wake(3) tp_kinds(4)[OF wake(2)] in auto)
    then show ?thesis ..
  next
    case (front f js)
    have t: "t < tp_num_threads s" "tp_threads s" using tp_not_joined[OF assms(1), of t] front(2) by simp_all
    have room: "size (tp_flight s) < n"
      unfolding tp_flight_def assms(2) by (rule hand_room[of t]) (use t assms(2) front(2) tp_hand_one in auto)
    have hand: "tp_flight s' = add_mset f (tp_flight s)"
      using tp_flight_goto[of t "s\<lparr>tp_jobs := js\<rparr>" "T_Unlock f"] t(1) front(1,2) by simp
    have "contract_act n Act_Take c = Some (tp_view s')"
      using rel(1) front room hand t(2) by (simp add: tp_view_def)
    then show ?thesis using rel front by (intro disjI2 exI[of _ Act_Take]) (simp add: tp_rel_def)
  next
    case (call f)
    have t: "t < tp_num_threads s" using tp_not_joined[OF assms(1), of t] call(2) by simp
    have hand: "tp_flight s = add_mset f (tp_flight s')"
      using tp_flight_goto[of t "s\<lparr>tp_performed := tp_performed s @ [f]\<rparr>" T_Head] t call by simp
    have "contract_act n (Act_Perform f) c = Some (tp_view s')"
      using rel(1) call hand by (simp add: tp_view_def)
    then show ?thesis using rel call by (intro disjI2 exI[of _ "Act_Perform f"]) (simp add: tp_rel_def)
  next
    case (create i)
    note c = tp_creator[OF _ create(2)]
    have roles: "tp_roles s" using assms(1) by (simp add: tp_inv_def)
    have "tp_rel ps (tgoto i T_Head s) c" by (rule tp_sim_same[OF assms(3)]) (use c[OF roles] in simp)
    then have "tp_rel ps s' c" unfolding create(1) by (rule tp_sim_same) (use c[OF roles] create(2) in auto)
    then show ?thesis ..
  next
    case (push f)
    have "tp_flight s' = tp_flight s" using push tp_flight_same[of T_Post_Notify "s\<lparr>tp_jobs := tp_jobs s @ [f], tp_posted := tp_posted s @ [f]\<rparr>" t]
      by (simp add: tp_flight_def)
    then have "contract_act n (Act_Post f) c = Some (tp_view s')" using rel(1) push by (simp add: tp_view_def)
    then show ?thesis using rel push by (intro disjI2 exI[of _ "Act_Post f"]) (simp add: tp_rel_def)
  next
    case stop
    then show ?thesis using tp_sim_same[of ps "s\<lparr>tp_stop := True\<rparr>" c T_Join_Notify t] assms(3) by simp
  next
    case delete
    have exits: "tp_exits s" and join: "tp_join_inv s" using assms(1) by (simp_all add: tp_inv_def)
    have none: "tp_flight s = {#}"
      by (rule tp_flight_none) (use exits delete(2) in \<open>metis tp_exits_def tp_waited.simps(2)\<close>)
    have th: "tp_threads s" using tp_stopping[OF join, of t] delete(2) by simp
    have "tp_flight s' = tp_flight s" using delete tp_flight_same[of T_Idle "s\<lparr>tp_threads := False\<rparr>" t] by simp
    then have "contract_act n Act_Join c = Some (tp_view s')" using rel(1) delete(1) none th by (simp add: tp_view_def)
    then show ?thesis using rel delete by (intro disjI2 exI[of _ Act_Join]) (simp add: tp_rel_def)
  qed
qed

interpretation cpp_pool: action_simulation "\<lambda>s. tp_inv s \<and> tp_num_threads s = n" tp_moves "contract_act n" tp_rel
  for n :: nat
proof
  show "tp_inv s' \<and> tp_num_threads s' = n" if "tp_inv s \<and> tp_num_threads s = n" "tp_moves s s'" for s s'
    using tp_inv_moves[OF that(2)] that(1) by simp
  show "tp_rel ps s' c \<or> (\<exists>p c'. contract_act n p c = Some c' \<and> tp_rel (ps @ [p]) s' c')"
    if "tp_inv s \<and> tp_num_threads s = n" "tp_rel ps s c" "tp_moves s s'" for ps s s' c
    using tp_sim that by blast
qed

lemma tp_reach_inv: "tp_moves\<^sup>*\<^sup>* (tp_new n) s \<Longrightarrow> tp_inv s \<and> tp_num_threads s = n"
proof (induction rule: rtranclp_induct)
  case base
  then show ?case using tp_inv_new by (simp add: tp_new_def)
next
  case (step s s')
  then show ?case using tp_inv_moves by auto
qed

lemma tp_reach_contract:
  assumes "tp_moves\<^sup>*\<^sup>* (tp_new n) s"
  shows "\<exists>ps. run_acts (contract_act n) ps new_contract = Some (tp_view s) \<and> posts ps = tp_posted s \<and> performs ps = tp_performed s"
proof -
  have "tp_flight (tp_new n) = {#}" unfolding tp_flight_def by (intro sum.neutral) (auto simp: tp_new_def)
  then have "tp_rel [] (tp_new n) new_contract" by (simp add: tp_rel_def tp_view_def new_contract_def tp_new_def)
  from cpp_pool.runs_simulated[OF assms _ this] show ?thesis
    using tp_inv_new[of n] by (auto simp: tp_rel_def tp_new_def)
qed

section \<open>Faults\<close>

text \<open>A worker is never without the job it takes, the lock is unlocked by the thread that holds it and the threads
  are deleted once.\<close>

lemma tp_release_ok: "tp_lock s = Some t \<Longrightarrow> tp_release t p s \<noteq> Some (Inl e)"
  by (simp add: tp_release_def)

lemma tp_holds: "tp_inv s \<Longrightarrow> tp_locked (tp_pcs s t) \<Longrightarrow> tp_lock s = Some t"
  unfolding tp_inv_def tp_lock_inv_def by blast

lemma notify_no_fault: "notify_one c t p s \<noteq> Some (Inl e)"
  by (simp add: notify_one_def split: option.splits)

lemma tp_process_faults:
  assumes "tp_inv s" and "tp_process t c s = Some (Inl e)"
  shows "e = Null_Deref \<and> tp_pcs s t = T_Call 0"
proof -
  have "tp_pcs s t = T_Front \<longrightarrow> tp_jobs s \<noteq> []" using assms(1) unfolding tp_inv_def tp_lock_inv_def by blast
  then show ?thesis using assms(2) tp_holds[OF assms(1), of t]
    by (cases "tp_pcs s t") (auto simp: tp_process_def tp_acquire_def tp_release_ok notify_no_fault split: if_splits list.splits)
qed

lemma tp_step_faults:
  assumes "tp_inv s" and "tp_step t c s = Some (Inl e)"
  shows "e = Null_Deref \<and> tp_pcs s t = T_Call 0"
proof -
  have "tp_post t c s \<noteq> Some (Inl e)" using tp_holds[OF assms(1), of t]
    by (cases "tp_pcs s t") (auto simp: tp_post_def tp_acquire_def tp_release_ok notify_no_fault split: if_splits)
  moreover have "tp_join t c s \<noteq> Some (Inl e)" using assms(1) tp_stopping[of s t]
    by (cases "tp_pcs s t") (auto simp: tp_join_def notify_no_fault tp_inv_def split: if_splits)
  moreover have "tp_construct t s \<noteq> Some (Inl e)" by (cases "tp_pcs s t") (auto simp: tp_construct_def)
  ultimately show ?thesis
    using assms tp_process_faults[OF assms(1)] by (auto simp: tp_step_def split: if_splits option.splits)
qed


section \<open>A pool of one worker\<close>

text \<open>Thread 0 is the worker, thread 1 runs the constructor and then calls \<open>post\<close> and \<open>join\<close>.\<close>

definition tp1 :: "bool \<Rightarrow> 64 word list \<Rightarrow> nat option \<Rightarrow> tp_pc \<Rightarrow> tp_pc \<Rightarrow> 64 word list \<Rightarrow> 64 word list \<Rightarrow> threadpool" where
  "tp1 stop jobs l worker client ps rs = \<lparr>tp_num_threads = 1, tp_threads = True, tp_stop = stop, tp_jobs = jobs, tp_lock = l,
     tp_pcs = (\<lambda>_. T_Idle)(0 := worker, Suc 0 := client), tp_posted = ps, tp_performed = rs\<rparr>"

fun tp_sched :: "(nat \<times> nat option) list \<Rightarrow> threadpool \<Rightarrow> threadpool option" where
  "tp_sched [] s = Some s"
| "tp_sched ((t, c) # ts) s = (case tp_step t c s of Some (Inr s') \<Rightarrow> tp_sched ts s' | _ \<Rightarrow> None)"

lemma tp_sched_moves: "tp_sched ts s = Some s' \<Longrightarrow> tp_moves\<^sup>*\<^sup>* s s'"
  by (induction ts s rule: tp_sched.induct)
    (auto split: option.splits sum.splits intro: converse_rtranclp_into_rtranclp[where r = tp_moves, OF tp_moves.run])

lemma tp1_simps [simp]:
  "tp_num_threads (tp1 b js l w c ps rs) = 1" "tp_threads (tp1 b js l w c ps rs) = True" "tp_stop (tp1 b js l w c ps rs) = b"
  "tp_jobs (tp1 b js l w c ps rs) = js" "tp_lock (tp1 b js l w c ps rs) = l"
  "tp_pcs (tp1 b js l w c ps rs) = (\<lambda>_. T_Idle)(0 := w, Suc 0 := c)" "tp_posted (tp1 b js l w c ps rs) = ps"
  "tp_performed (tp1 b js l w c ps rs) = rs"
  "tp1 b js l w c ps rs\<lparr>tp_lock := l'\<rparr> = tp1 b js l' w c ps rs" "tp1 b js l w c ps rs\<lparr>tp_jobs := js'\<rparr> = tp1 b js' l w c ps rs"
  "tp1 b js l w c ps rs\<lparr>tp_stop := b'\<rparr> = tp1 b' js l w c ps rs" "tp1 b js l w c ps rs\<lparr>tp_posted := ps'\<rparr> = tp1 b js l w c ps' rs"
  "tgoto 0 p (tp1 b js l w c ps rs) = tp1 b js l p c ps rs" "tgoto (Suc 0) p (tp1 b js l w c ps rs) = tp1 b js l w p ps rs"
  by (simp_all add: tp1_def tgoto_def fun_upd_twist)

lemmas tp_step_defs = tp_step_def tp_process_def tp_construct_def tp_post_def tp_join_def tp_acquire_def tp_release_def notify_one_def

lemma tp_new_1: "tp_new 1 = tp1 False [] None T_Unborn (T_Create 1) [] []"
  by (auto simp: tp_new_def tp1_def)

lemma tp1_created: "tp_moves\<^sup>*\<^sup>* (tp_new 1) (tp1 False [] None T_Head T_Idle [] [])"
  unfolding tp_new_1 by (rule tp_sched_moves[of "[(1, None), (1, None)]"]) (simp add: tp_step_defs)

lemma tp1_call_post:
  assumes "tp_moves\<^sup>*\<^sup>* (tp_new 1) (tp1 b js l w T_Idle ps rs)"
  shows "tp_moves\<^sup>*\<^sup>* (tp_new 1) (tp1 b js l w (T_Post_Lock f) ps rs)"
  using assms tp_moves.call_post[of "tp1 b js l w T_Idle ps rs" 1 f] by (simp add: rtranclp.rtrancl_into_rtrancl)

lemma tp1_call_join:
  assumes "tp_moves\<^sup>*\<^sup>* (tp_new 1) (tp1 b js l w T_Idle ps rs)" and "\<not> tp_joining w"
  shows "tp_moves\<^sup>*\<^sup>* (tp_new 1) (tp1 b js l w T_Join_Test ps rs)"
  using assms tp_moves.call_join[of "tp1 b js l w T_Idle ps rs" 1] by (simp add: rtranclp.rtrancl_into_rtrancl)

lemma tp1_run:
  assumes "tp_moves\<^sup>*\<^sup>* (tp_new 1) s" and "tp_sched ts s = Some s'"
  shows "tp_moves\<^sup>*\<^sup>* (tp_new 1) s'"
  using assms tp_sched_moves by (metis rtranclp_trans)

lemma tp1_stuck: "tp_step 0 c (tp1 b js l w p ps rs) = None \<Longrightarrow> tp_step 1 c (tp1 b js l w p ps rs) = None \<Longrightarrow>
    tp_step t c (tp1 b js l w p ps rs) = None"
  by (cases "t = 0"; cases "t = 1") (simp_all add: tp_step_def tp_construct_def tp_post_def tp_join_def)

text \<open>A worker that is about to call the posted function, by way of \<open>post\<close> and \<open>process\<close>.\<close>

lemma tp1_calling: "tp_moves\<^sup>*\<^sup>* (tp_new 1) (tp1 False [] None (T_Call f) T_Idle [f] [])"
  by (rule tp1_run[OF tp1_call_post[OF tp1_created],
        of "[(1, None), (1, None), (1, None), (1, None), (0, None), (0, None), (0, None), (0, None), (0, None), (0, None), (0, None)]"])
    (simp add: tp_step_defs)

text \<open>A posted job can be lost as in \<open>workers.c\<close>: the worker finds the queue empty, then the job is posted and
  \<open>join\<close> sets \<open>stop\<close>, and the worker returns.\<close>

lemma cpp_job_lost:
  "\<exists>s. tp_moves\<^sup>*\<^sup>* (tp_new 1) s \<and> tp_pcs s 0 = T_Exited \<and> tp_pcs s 1 = T_Join_Delete \<and> tp_jobs s = [f] \<and> tp_performed s = []"
proof -
  have "tp_moves\<^sup>*\<^sup>* (tp_new 1) (tp1 False [] None T_Head_Stop T_Idle [] [])"
    by (rule tp1_run[OF tp1_created, of "[(0, None)]"]) (simp add: tp_step_defs)
  from tp1_run[OF tp1_call_post[OF this, of f], of "[(1, None), (1, None), (1, None), (1, None)]"]
  have "tp_moves\<^sup>*\<^sup>* (tp_new 1) (tp1 False [f] None T_Head_Stop T_Idle [f] [])" by (simp add: tp_step_defs)
  from tp1_run[OF tp1_call_join[OF this], of "[(1, None), (1, None), (1, None), (0, None), (1, None), (1, None)]"]
  have "tp_moves\<^sup>*\<^sup>* (tp_new 1) (tp1 True [f] None T_Exited T_Join_Delete [f] [])" by (simp add: tp_step_defs)
  then show ?thesis by (intro exI[of _ "tp1 True [f] None T_Exited T_Join_Delete [f] []"]) simp
qed

text \<open>The notification of \<open>join\<close> can be lost as in \<open>workers.c\<close>: \<open>stop\<close> is set without the lock, after a worker has
  read it and before the worker waits.  No thread can take a step any more.\<close>

lemma cpp_join_deadlock:
  "\<exists>s. tp_moves\<^sup>*\<^sup>* (tp_new 1) s \<and> tp_pcs s 0 = T_Waiting \<and> tp_pcs s 1 = T_Join_Wait 0 \<and> (\<forall>t c. tp_step t c s = None)"
proof (intro exI conjI allI)
  let ?s = "tp1 True [] None T_Waiting (T_Join_Wait 0) [] []"
  have "tp_moves\<^sup>*\<^sup>* (tp_new 1) (tp1 False [] (Some 0) T_Wait T_Idle [] [])"
    by (rule tp1_run[OF tp1_created, of "[(0, None), (0, None), (0, None), (0, None)]"]) (simp add: tp_step_defs)
  from tp1_run[OF tp1_call_join[OF this], of "[(1, None), (1, None), (1, None), (0, None)]"]
  show "tp_moves\<^sup>*\<^sup>* (tp_new 1) ?s" by (simp add: tp_step_defs)
  show "tp_pcs ?s 0 = T_Waiting" "tp_pcs ?s 1 = T_Join_Wait 0" by simp_all
  show "tp_step t c ?s = None" for t c by (rule tp1_stuck) (simp_all add: tp_step_defs)
qed

section \<open>Properties\<close>

text \<open>C8: The C++ pool keeps the same contract as the pool of \<open>workers.c\<close>, for any number of workers and under
  every interleaving of the constructor, the workers and the clients: the jobs in its queue, those in the
  hands of the workers and whether the threads were joined and deleted are as in a run of the contract,
  whose posts and performances are those of the pool, in their order.\<close>

theorem cpp_pool_refines_contract:
  assumes "tp_moves\<^sup>*\<^sup>* (tp_new n) s"
  shows "\<exists>ps. run_acts (contract_act n) ps new_contract = Some (tp_view s) \<and> posts ps = tp_posted s \<and> performs ps = tp_performed s"
  by (rule tp_reach_contract[OF assms])

lemma cpp_pool_refines_contract_witness:
  "\<exists>ps. run_acts (contract_act 1) ps new_contract = Some \<lparr>ct_waiting = [], ct_hand = {#9 :: 64 word#}, ct_joined = False\<rparr> \<and>
    posts ps = [9] \<and> performs ps = []"
  using cpp_pool_refines_contract[OF tp1_calling[of 9]] by (simp add: tp_view_def tp_flight_def)

text \<open>C20: The only fault that the C++ pool can run into is the call of a null function that a client has posted:
  \<open>front\<close> and \<open>pop\<close> never see an empty queue, no thread unlocks a mutex that it does not hold, and the array of
  threads is deleted once.\<close>

theorem cpp_pool_faults:
  assumes "tp_moves\<^sup>*\<^sup>* (tp_new n) s" and "tp_step t c s = Some (Inl e)"
  shows "e = Null_Deref \<and> tp_pcs s t = T_Call 0 \<and> 0 \<in> set (tp_posted s)"
proof -
  have inv: "tp_inv s" using tp_reach_inv[OF assms(1)] by simp
  note call = tp_step_faults[OF inv assms(2)]
  have t: "t < tp_num_threads s" using tp_not_joined[OF inv, of t] call by simp
  have "0 \<in># tp_hand (tp_pcs s t)" using call by simp
  then have "0 \<in># tp_flight s" unfolding tp_flight_def using t by (auto simp: set_mset_sum)
  moreover obtain ps where "run_acts (contract_act n) ps new_contract = Some (tp_view s)" "posts ps = tp_posted s"
    using tp_reach_contract[OF assms(1)] by auto
  ultimately have "0 \<in># mset (tp_posted s)" using contract_conserves[of n ps new_contract "tp_view s"]
    by (simp add: new_contract_def tp_view_def del: set_mset_mset)
  then show ?thesis using call by simp
qed

lemma cpp_pool_faults_witness:
  "Null_Deref = Null_Deref \<and> tp_pcs (tp1 False [] None (T_Call 0) T_Idle [0] []) 0 = T_Call 0 \<and>
    (0 :: 64 word) \<in> set (tp_posted (tp1 False [] None (T_Call 0) T_Idle [0] []))"
  by (rule cpp_pool_faults[OF tp1_calling[of 0], of 0 None]) (simp add: tp_step_defs)

end
