(* ===== verification/Endpoint.thy ===== *)
theory Endpoint
  imports Boolset Node_Stack C_Strings
begin

text \<open>
  The socket endpoint of \<open>src/unix/endpoint.c\<close> (\<open>include/unix/endpoint.h\<close>): a server socket,
  two epoll instances, the set of connected clients and the queue of clients that hung up.
  The operating system is a parameter: a \<open>kernel\<close> answers a system call from the calls made before
  it, in any way at all, and every call is recorded in \<open>e_log\<close>.  A mutex is free, held by the
  calling thread or destroyed, and locking or unlocking it in the wrong state is a fault.  Each
  function runs without interference of other threads.
\<close>

section \<open>System calls\<close>

record epoll_event =
  ev_events :: "32 word"
  ev_fd :: int

record sockaddr_in =
  sin_family :: int
  sin_port :: "16 word"
  sin_addr :: "32 word"

datatype syscall =
    Socket int int int
  | Fcntl_Getfl int
  | Fcntl_Setfl int "32 word"
  | Bind int sockaddr_in
  | Listen int int
  | Epoll_Create int
  | Eventfd int int
  | Epoll_Ctl int int int "epoll_event option"
  | Epoll_Wait int int int
  | Accept int
  | Shutdown int int
  | Close int
  | Recv int int
  | Send int string
  | Recvfrom int int
  | Sendto int string

text \<open>The returned \<open>int\<close>, and the events that \<open>epoll_wait\<close> stores.\<close>

type_synonym kernel = "syscall list \<Rightarrow> syscall \<Rightarrow> int \<times> epoll_event list"

text \<open>The constants of the system headers (Linux, x86-64).\<close>

definition AF_INET :: int where "AF_INET = 2"
definition AF_INET6 :: int where "AF_INET6 = 10"
definition SOCK_STREAM :: int where "SOCK_STREAM = 1"
definition IPPROTO_TCP :: int where "IPPROTO_TCP = 6"
definition O_NONBLOCK :: "32 word" where "O_NONBLOCK = 0x800"
definition EPOLL_CTL_ADD :: int where "EPOLL_CTL_ADD = 1"
definition EPOLL_CTL_DEL :: int where "EPOLL_CTL_DEL = 2"
definition EPOLLIN :: "32 word" where "EPOLLIN = 0x1"
definition EPOLLHUP :: "32 word" where "EPOLLHUP = 0x10"
definition EPOLLRDHUP :: "32 word" where "EPOLLRDHUP = 0x2000"
definition EPOLLWAKEUP :: "32 word" where "EPOLLWAKEUP = 0x20000000"
definition EPOLLET :: "32 word" where "EPOLLET = 0x80000000"
definition SHUT_WR :: int where "SHUT_WR = 1"
definition SHUT_RDWR :: int where "SHUT_RDWR = 2"
definition EINTR :: int where "EINTR = 4"

text \<open>\<open>htons\<close> swaps the bytes of the low 16 bits of the port number.\<close>

definition htons :: "int \<Rightarrow> 16 word" where
  "htons port = (let w = word_of_int port in push_bit 8 w OR drop_bit 8 w)"

section \<open>State\<close>

datatype mutex = Free | Held | Destroyed

record endpoint =
  e_srv_fd :: int
  e_ep_listener :: int
  e_ep_selector :: int
  e_shutdown_fd :: int
  e_clients :: boolset_t
  e_clients_lock :: mutex
  e_queue_lock :: mutex
  e_queue :: stack

record ep = endpoint +
  e_heap :: heap
  e_log :: "syscall list"

definition sys :: "kernel \<Rightarrow> syscall \<Rightarrow> ep \<Rightarrow> (int \<times> epoll_event list) \<times> ep" where
  "sys kern c s = (kern (e_log s) c, s\<lparr>e_log := e_log s @ [c]\<rparr>)"

text \<open>A call whose result is ignored.\<close>

definition call :: "kernel \<Rightarrow> syscall \<Rightarrow> ep \<Rightarrow> ep" where
  "call kern c s = snd (sys kern c s)"

text \<open>The programs without an endpoint keep nothing but the calls made so far.\<close>

definition log_sys :: "kernel \<Rightarrow> syscall \<Rightarrow> syscall list \<Rightarrow> int \<times> syscall list" where
  "log_sys kern c log = (fst (kern log c), log @ [c])"

definition lock_clients :: "ep \<Rightarrow> ep result" where
  "lock_clients s = (if e_clients_lock s = Free then Inr (s\<lparr>e_clients_lock := Held\<rparr>) else Inl Lock_Misuse)"

definition unlock_clients :: "ep \<Rightarrow> ep result" where
  "unlock_clients s = (if e_clients_lock s = Held then Inr (s\<lparr>e_clients_lock := Free\<rparr>) else Inl Lock_Misuse)"

definition lock_queue :: "ep \<Rightarrow> ep result" where
  "lock_queue s = (if e_queue_lock s = Free then Inr (s\<lparr>e_queue_lock := Held\<rparr>) else Inl Lock_Misuse)"

definition unlock_queue :: "ep \<Rightarrow> ep result" where
  "unlock_queue s = (if e_queue_lock s = Held then Inr (s\<lparr>e_queue_lock := Free\<rparr>) else Inl Lock_Misuse)"

definition destroy_locks :: "ep \<Rightarrow> ep result" where
  "destroy_locks s =
    (if e_clients_lock s = Free \<and> e_queue_lock s = Free
     then Inr (s\<lparr>e_clients_lock := Destroyed, e_queue_lock := Destroyed\<rparr>) else Inl Lock_Misuse)"

section \<open>Helper functions\<close>

text \<open>\<open>boolset_set(&e->connected_clients_fds, index, val)\<close>\<close>

definition clients_set :: "64 word \<Rightarrow> int \<Rightarrow> ep \<Rightarrow> ep result" where
  "clients_set index val s =
    rbind (boolset_set (e_clients s) index val (e_heap s)) (\<lambda>(b, h).
    Inr (s\<lparr>e_clients := b, e_heap := h\<rparr>))"

definition endpoint_clear_disconnection_queue :: "ep \<Rightarrow> ep result" where
  "endpoint_clear_disconnection_queue s =
    rbind (lock_queue s) (\<lambda>s.
    rbind (stack_destroy (e_queue s) (e_heap s)) (\<lambda>(q, h).
    unlock_queue (s\<lparr>e_queue := q, e_heap := h\<rparr>)))"

definition endpoint_register_client :: "int \<Rightarrow> ep \<Rightarrow> ep result" where
  "endpoint_register_client socket_fd s =
    rbind (lock_clients s) (\<lambda>s. rbind (clients_set (word_of_int socket_fd) 1 s) unlock_clients)"

definition endpoint_deregister_client :: "int \<Rightarrow> ep \<Rightarrow> ep result" where
  "endpoint_deregister_client socket_fd s =
    rbind (lock_clients s) (\<lambda>s. rbind (clients_set (word_of_int socket_fd) 0 s) unlock_clients)"

definition endpoint_enqueue_client_for_disconnection :: "int \<Rightarrow> ep \<Rightarrow> ep result" where
  "endpoint_enqueue_client_for_disconnection socket_fd s =
    rbind (lock_queue s) (\<lambda>s.
    rbind (stack_push (e_queue s) (word_of_int socket_fd) (e_heap s)) (\<lambda>(q, h).
    unlock_queue (s\<lparr>e_queue := q, e_heap := h\<rparr>)))"

definition create_epoll_event :: "int \<Rightarrow> 32 word \<Rightarrow> epoll_event" where
  "create_epoll_event fd events = \<lparr>ev_events = events, ev_fd = fd\<rparr>"

definition create_server_socket :: "kernel \<Rightarrow> int \<Rightarrow> bool \<Rightarrow> ep \<Rightarrow> int \<times> ep" where
  "create_server_socket kern port IPv6 s =
    (let domain = (if IPv6 then AF_INET6 else AF_INET);
         ((srv_fd, _), s) = sys kern (Socket domain SOCK_STREAM IPPROTO_TCP) s;
         ((flags, _), s) = sys kern (Fcntl_Getfl srv_fd) s;
         s = call kern (Fcntl_Setfl srv_fd (word_of_int flags OR O_NONBLOCK)) s;
         address = \<lparr>sin_family = domain, sin_port = htons port, sin_addr = 0\<rparr>;
         s = call kern (Bind srv_fd address) s;
         s = call kern (Listen srv_fd 512) s
     in (srv_fd, s))"

section \<open>Creating an endpoint\<close>

definition endpoint_create :: "kernel \<Rightarrow> int \<Rightarrow> bool \<Rightarrow> ep \<Rightarrow> ep result" where
  "endpoint_create kern port_number IPv6 s =
    (let s = s\<lparr>e_clients_lock := Free, e_queue_lock := Free\<rparr>
     in rbind (boolset_create (e_heap s)) (\<lambda>(b, h).
    (let s = s\<lparr>e_clients := b, e_heap := h, e_queue := stack_create\<rparr>;
         (srv_fd, s) = create_server_socket kern port_number IPv6 s;
         s = s\<lparr>e_srv_fd := srv_fd\<rparr>;
         ((listener, _), s) = sys kern (Epoll_Create 0) s;
         s = s\<lparr>e_ep_listener := listener\<rparr>;
         ((selector, _), s) = sys kern (Epoll_Create 0) s;
         s = s\<lparr>e_ep_selector := selector\<rparr>;
         ((shutdown_fd, _), s) = sys kern (Eventfd 0 0) s;
         s = s\<lparr>e_shutdown_fd := shutdown_fd\<rparr>;
         srv_events = create_epoll_event (e_srv_fd s) (EPOLLIN OR EPOLLHUP);
         sht_events = create_epoll_event (e_shutdown_fd s) EPOLLIN;
         s = call kern (Epoll_Ctl (e_ep_listener s) EPOLL_CTL_ADD (e_srv_fd s) (Some srv_events)) s;
         s = call kern (Epoll_Ctl (e_ep_listener s) EPOLL_CTL_ADD (e_shutdown_fd s) (Some sht_events)) s;
         s = call kern (Epoll_Ctl (e_ep_selector s) EPOLL_CTL_ADD (e_shutdown_fd s) (Some sht_events)) s
     in Inr s)))"

section \<open>Accepting clients and waiting for their events\<close>

text \<open>The address of the client and its length, which \<open>accept\<close> stores, are never read and have no variable here.  The C
  code passes \<open>client_address_len\<close> to \<open>accept\<close> without giving it a value, although \<open>accept\<close> reads it as the size of the
  address; the answer of the kernel may depend on it, as it may depend on anything.\<close>

function accept_loop :: "kernel \<Rightarrow> 32 word \<Rightarrow> int list \<Rightarrow> int \<Rightarrow> int \<Rightarrow> ep \<Rightarrow> (int \<times> int list \<times> ep) result" where
  "accept_loop kern events_flags new_fds new_fds_size new_client_count s =
    (if new_client_count < new_fds_size
     then (let ((new_client_fd, _), s) = sys kern (Accept (e_srv_fd s)) s
           in if new_client_fd \<noteq> -1
              then
                rbind (endpoint_register_client new_client_fd s) (\<lambda>s.
                (let client_event = create_epoll_event new_client_fd (events_flags OR EPOLLRDHUP)
                 in if 0 \<le> new_client_count \<and> new_client_count < int (length new_fds)
                    then
                      accept_loop kern events_flags (new_fds[nat new_client_count := new_client_fd]) new_fds_size
                        (new_client_count + 1)
                        (call kern (Epoll_Ctl (e_ep_selector s) EPOLL_CTL_ADD new_client_fd (Some client_event)) s)
                    else Inl Out_Of_Bounds))
              else Inr (new_client_count, new_fds, s))
     else Inr (new_client_count, new_fds, s))"
  by pat_completeness auto
termination
  by (relation "measure (\<lambda>(k, f, fds, n, c, s). nat (n - c))") auto

declare accept_loop.simps [simp del, c_eval]

text \<open>\<open>ep_event\<close> is not initialised: it holds an event only when \<open>epoll_wait\<close> stored one.\<close>

definition endpoint_accept :: "kernel \<Rightarrow> int list \<Rightarrow> int \<Rightarrow> int \<Rightarrow> 32 word \<Rightarrow> ep \<Rightarrow> (int \<times> int list \<times> ep) result" where
  "endpoint_accept kern new_fds new_fds_size timeout events_flags s =
    (let ((_, evs), s) = sys kern (Epoll_Wait (e_ep_listener s) 1 timeout) s
     in case evs of
          [] \<Rightarrow> Inl Uninit_Read
        | ep_event # _ \<Rightarrow>
            if ev_events ep_event AND EPOLLHUP \<noteq> 0 then Inr (-1, new_fds, s)
            else accept_loop kern events_flags new_fds new_fds_size 0 s)"

text \<open>\<open>(1 << 9) / sizeof(struct epoll_event)\<close>, the structure being packed to 12 bytes.\<close>

definition EVENTS_EXTRACT_SIZE :: int where
  "EVENTS_EXTRACT_SIZE = 2 ^ 9 div 12"

function wait_loop :: "epoll_event list \<Rightarrow> int \<Rightarrow> int \<Rightarrow> int list \<Rightarrow> int list \<Rightarrow> ep \<Rightarrow> (int list \<times> int list \<times> ep) result" where
  "wait_loop ep_events event_count i socket_fds event_flags s =
    (if i < event_count
     then
       if 0 \<le> i \<and> i < int (length ep_events)
       then (let ev = ep_events ! nat i
             in if i < int (length socket_fds) \<and> i < int (length event_flags)
                then rbind (if ev_events ev AND EPOLLRDHUP \<noteq> 0
                            then endpoint_enqueue_client_for_disconnection (ev_fd ev) s else Inr s)
                       (wait_loop ep_events event_count (i + 1) (socket_fds[nat i := ev_fd ev])
                         (event_flags[nat i := sint (ev_events ev)]))
                else Inl Out_Of_Bounds)
       else Inl Uninit_Read
     else Inr (socket_fds, event_flags, s))"
  by pat_completeness auto
termination
  by (relation "measure (\<lambda>(evs, n, i, fds, fl, s). nat (n - i))") auto

declare wait_loop.simps [simp del, c_eval]

definition endpoint_wait_event :: "kernel \<Rightarrow> int list \<Rightarrow> int list \<Rightarrow> int \<Rightarrow> int \<Rightarrow> ep
    \<Rightarrow> (int \<times> int list \<times> int list \<times> ep) result" where
  "endpoint_wait_event kern socket_fds event_flags max_events timeout s =
    (let event_limit = (if max_events < EVENTS_EXTRACT_SIZE then max_events else EVENTS_EXTRACT_SIZE);
         ((event_count, evs), s) = sys kern (Epoll_Wait (e_ep_selector s) event_limit timeout) s
     in rbind (wait_loop evs event_count 0 socket_fds event_flags s) (\<lambda>(fds, flags, s).
        Inr (event_count, fds, flags, s)))"

section \<open>Disconnecting clients\<close>

definition endpoint_disconnect_client :: "kernel \<Rightarrow> int \<Rightarrow> ep \<Rightarrow> (int \<times> ep) result" where
  "endpoint_disconnect_client kern socket_fd s =
    rbind (endpoint_deregister_client socket_fd s) (\<lambda>s.
    (let s = call kern (Epoll_Ctl (e_ep_selector s) EPOLL_CTL_DEL socket_fd None) s;
         s = call kern (Shutdown socket_fd SHUT_RDWR) s;
         s = call kern (Close socket_fd) s
     in Inr (0, s)))"

text \<open>Setting a bit keeps the number of live blocks, also when the array is reallocated.\<close>

lemma store_dom: "store p i w h = Inr h' \<Longrightarrow> dom (mem h') = dom (mem h)"
  by (auto simp: store_def rbind_Inr_iff block_of_Inr_iff split: if_splits)

lemma memset0_dom: "memset0 p n h = Inr h' \<Longrightarrow> dom (mem h') = dom (mem h)"
  by (auto simp: memset0_def rbind_Inr_iff block_of_Inr_iff split: if_splits)

lemma memcpy_dom: "memcpy d p n h = Inr h' \<Longrightarrow> dom (mem h') = dom (mem h) \<and> p \<noteq> 0 \<and> p \<in> dom (mem h)"
  by (auto simp: memcpy_def rbind_Inr_iff block_of_Inr_iff split: if_splits)

lemma malloc_dom: "malloc n h = (p, h') \<Longrightarrow> p \<noteq> 0 \<Longrightarrow> p \<notin> dom (mem h) \<and> dom (mem h') = insert p (dom (mem h))"
  by (auto simp: malloc_def split: list.splits if_splits)

lemma boolset_expand_card:
  assumes "boolset_expand b n h = Inr (b', h')"
  shows "card (dom (mem h')) = card (dom (mem h))"
proof -
  obtain p h1 h2 h3 h4 where run: "malloc (n * SIZEOF_T) h = (p, h1)" "memset0 p (n * SIZEOF_T) h1 = Inr h2"
    "memcpy p (bs_data b) (bs_size b * SIZEOF_T) h2 = Inr h3" "free (bs_data b) h3 = Inr h4" "h' = h4"
    using assms by (auto simp: boolset_expand_def rbind_Inr_iff Let_def split: prod.splits)
  have "p \<noteq> 0" using run(2) by (auto simp: memset0_def rbind_Inr_iff block_of_Inr_iff)
  note m = malloc_dom[OF run(1) this]
  have d: "dom (mem h3) = insert p (dom (mem h))" "bs_data b \<noteq> 0" "bs_data b \<in> dom (mem h3)"
    using m memset0_dom[OF run(2)] memcpy_dom[OF run(3)] by auto
  have "h' = del_block (bs_data b) h3" using run(4,5) d(2) by (auto simp: free_def split: if_splits)
  then have "dom (mem h') = dom (mem h3) - {bs_data b}" by (auto simp: dom_def split: if_splits)
  then have "card (dom (mem h')) = card (dom (mem h3)) - 1"
    using d(3) by (simp only: card_Diff_singleton finite_mem)
  also have "\<dots> = card (dom (mem h))" using d(1) m by (simp only: card_insert_disjoint finite_mem) simp
  finally show ?thesis .
qed

lemma boolset_set_card:
  assumes "boolset_set b i v h = Inr (b', h')"
  shows "card (dom (mem h')) = card (dom (mem h))"
proof -
  have st: "store p j w h1 = Inr h2 \<Longrightarrow> card (dom (mem h2)) = card (dom (mem h1))" for p j w h1 h2
    using store_dom by metis
  show ?thesis
    using assms unfolding boolset_set_def Let_def
    by (auto simp: rbind_Inr_iff split: if_splits dest!: st boolset_expand_card)
qed

lemma disconnect_card:
  assumes "endpoint_disconnect_client kern fd s = Inr (r, s')"
  shows "card (dom (mem (e_heap s'))) = card (dom (mem (e_heap s)))"
  using assms
  by (auto simp: endpoint_disconnect_client_def endpoint_deregister_client_def lock_clients_def unlock_clients_def
      clients_set_def rbind_Inr_iff call_def sys_def Let_def split: if_splits dest!: boolset_set_card)

lemma stack_pop_shrinks:
  assumes "stack_pop q h = Inr (v, q', h')"
  shows "card (dom (mem h')) < card (dom (mem h))"
proof -
  have "s_top q \<noteq> 0" "free (s_top q) h = Inr h'"
    using assms by (auto simp: stack_pop_def rbind_Inr_iff load_def block_of_Inr_iff)
  then show ?thesis using free_shrinks by blast
qed

text \<open>Every round frees the node it pops, so the loop ends.\<close>

function hungups_loop :: "kernel \<Rightarrow> int \<Rightarrow> ep \<Rightarrow> (int \<times> ep) result" where
  "hungups_loop kern count s =
    (if \<not> stack_is_empty (e_queue s)
     then rbind (stack_pop (e_queue s) (e_heap s)) (\<lambda>(fd, q, h).
          rbind (endpoint_disconnect_client kern (to_int fd) (s\<lparr>e_queue := q, e_heap := h\<rparr>)) (\<lambda>(_, s).
          rbind (chk_int (count + 1)) (\<lambda>count. hungups_loop kern count s)))
     else Inr (count, s))"
  by pat_completeness auto
termination
  by (relation "measure (\<lambda>(k, c, s). card (dom (mem (e_heap s))))")
     (auto dest!: disconnect_card stack_pop_shrinks)

declare hungups_loop.simps [simp del, c_eval]

definition endpoint_close_hungups :: "kernel \<Rightarrow> ep \<Rightarrow> (int \<times> ep) result" where
  "endpoint_close_hungups kern s =
    rbind (lock_queue s) (\<lambda>s.
    rbind (hungups_loop kern 0 s) (\<lambda>(count, s).
    rbind (unlock_queue s) (\<lambda>s. Inr (count, s))))"

definition disconnect_all_foreach :: "kernel \<Rightarrow> 64 word \<Rightarrow> ep \<Rightarrow> ep result" where
  "disconnect_all_foreach kern socket_fd s =
    rbind (clients_set socket_fd 0 s) (\<lambda>s.
    (let s = call kern (Epoll_Ctl (e_ep_selector s) EPOLL_CTL_DEL (to_int socket_fd) None) s;
         s = call kern (Shutdown (to_int socket_fd) SHUT_RDWR) s;
         s = call kern (Close (to_int socket_fd)) s
     in Inr s))"

text \<open>The function has no \<open>return\<close>: it returns no value.\<close>

definition endpoint_disconnect_all_clients :: "kernel \<Rightarrow> ep \<Rightarrow> (int option \<times> ep) result" where
  "endpoint_disconnect_all_clients kern s =
    rbind (lock_clients s) (\<lambda>s.
    rbind (boolset_foreach e_clients e_heap (disconnect_all_foreach kern) 0 s) (\<lambda>s.
    rbind (unlock_clients s) (\<lambda>s.
    rbind (endpoint_clear_disconnection_queue s) (\<lambda>s. Inr (None, s)))))"

section \<open>Closing an endpoint\<close>

definition endpoint_close :: "kernel \<Rightarrow> ep \<Rightarrow> ep result" where
  "endpoint_close kern s =
    rbind (endpoint_disconnect_all_clients kern (call kern (Close (e_srv_fd s)) s)) (\<lambda>(_, s).
    (let s = call kern (Epoll_Ctl (e_ep_listener s) EPOLL_CTL_DEL (e_srv_fd s) None) s;
         s = call kern (Epoll_Ctl (e_ep_listener s) EPOLL_CTL_DEL (e_shutdown_fd s) None) s;
         s = call kern (Epoll_Ctl (e_ep_selector s) EPOLL_CTL_DEL (e_shutdown_fd s) None) s;
         s = call kern (Close (e_ep_listener s)) s;
         s = call kern (Close (e_ep_selector s)) s;
         s = call kern (Close (e_shutdown_fd s)) s
     in rbind (lock_clients s) (\<lambda>s.
        rbind (boolset_destroy (e_clients s) (e_heap s)) (\<lambda>h.
        rbind (unlock_clients (s\<lparr>e_heap := h\<rparr>)) (\<lambda>s.
        rbind (endpoint_clear_disconnection_queue s) destroy_locks)))))"

end
