(* ===== verification/Endpoint_Refinement.thy ===== *)
theory Endpoint_Refinement
  imports Endpoint
begin

text \<open>
  What the endpoint of \<open>src/unix/endpoint.c\<close> does, as the refinement of an abstract client book: the
  set of connected clients, the stack of hung up ones and the log of system calls.  \<open>ep_data\<close> says how
  the bit set and the linked stack share the heap, \<open>ep_rep\<close> that an endpoint represents a client book
  with a budget of allocations left; every operation is followed from there, and the locale
  \<open>stepwise_refinement\<close> is interpreted on them.
\<close>

section \<open>Representation\<close>

text \<open>
  The set and the queue of an endpoint live in disjoint blocks of the heap: \<open>ps\<close> are the nodes of
  the queue, \<open>xs\<close> its values, and every other block is as in the memory \<open>m\<close> of the rest of the
  program.
\<close>

definition ep_data :: "(ptr \<Rightarrow> cell list option) \<Rightarrow> ep \<Rightarrow> ptr list \<Rightarrow> 64 word list \<Rightarrow> bool" where
  "ep_data m s ps xs \<longleftrightarrow> bs_inv (e_clients s) (e_heap s) \<and> stack_at (e_queue s) (e_heap s) ps xs \<and>
    bs_data (e_clients s) \<notin> set ps \<and> built_on m (bs_data (e_clients s) # ps) (e_heap s)"

abbreviation members :: "ep \<Rightarrow> 64 word set" where
  "members s \<equiv> bs_members (e_clients s) (e_heap s)"

abbreviation words_of :: "ep \<Rightarrow> nat" where
  "words_of s \<equiv> unat (bs_size (e_clients s))"

lemma bs_live: "bs_inv b h \<Longrightarrow> mem h (bs_data b) \<noteq> None"
  by (auto simp: bs_inv_def bs_shape_def)

lemma bs_frame:
  assumes "mem h' (bs_data b) = mem h (bs_data b)"
  shows "bs_inv b h' = bs_inv b h" and "bs_members b h' = bs_members b h"
  using assms by (simp_all add: bs_inv_def bs_shape_def bs_members_def bs_words_def)

lemma call_simps [simp]:
  "e_heap (call kern c s) = e_heap s" "e_clients (call kern c s) = e_clients s"
  "e_queue (call kern c s) = e_queue s" "e_clients_lock (call kern c s) = e_clients_lock s"
  "e_queue_lock (call kern c s) = e_queue_lock s" "e_ep_selector (call kern c s) = e_ep_selector s"
  "e_ep_listener (call kern c s) = e_ep_listener s" "e_srv_fd (call kern c s) = e_srv_fd s"
  "e_shutdown_fd (call kern c s) = e_shutdown_fd s" "e_log (call kern c s) = e_log s @ [c]"
  by (simp_all add: call_def sys_def)

lemma ep_data_call [simp]: "ep_data m (call kern c s) ps xs = ep_data m s ps xs"
  by (simp add: ep_data_def)

lemma ep_data_upd [simp]:
  "ep_data m (s\<lparr>e_clients_lock := l\<rparr>) ps xs = ep_data m s ps xs"
  "ep_data m (s\<lparr>e_queue_lock := l\<rparr>) ps xs = ep_data m s ps xs"
  "ep_data m (s\<lparr>e_log := lg\<rparr>) ps xs = ep_data m s ps xs"
  by (simp_all add: ep_data_def)

lemma built_on_replaced:
  assumes "built_on m (p # ps) h" and "replaced p p' h h'" and "p \<notin> set ps"
    and "\<forall>a \<in> set ps. mem h a \<noteq> None"
  shows "built_on m (p' # ps) h'" and "p' \<notin> set ps" and "\<forall>a \<in> set ps. mem h' a = mem h a"
proof -
  have other: "\<And>a. a \<noteq> p \<Longrightarrow> a \<noteq> p' \<Longrightarrow> mem h' a = mem h a"
    and new: "p \<noteq> p' \<Longrightarrow> mem h p' = None \<and> mem h' p = None"
    using assms(2) by (auto simp: replaced_def)
  show p': "p' \<notin> set ps" using new assms(3,4) by (cases "p = p'") auto
  then show same: "\<forall>a \<in> set ps. mem h' a = mem h a" using other assms(3) by metis
  show "built_on m (p' # ps) h'"
    unfolding built_on_def
  proof (intro conjI allI impI ballI)
    fix a assume a: "a \<notin> set (p' # ps)"
    show "mem h' a = m a"
    proof (cases "a = p")
      case True
      then show ?thesis using a new assms(1) by (auto simp: built_on_def)
    next
      case False
      then show ?thesis using a other[of a] assms(1) by (auto simp: built_on_def)
    qed
  next
    fix a assume "a \<in> set (p' # ps)"
    then show "m a = None"
      using new p' assms(1) unfolding built_on_def by (metis set_ConsD list.set_intros)
  qed
qed

lemma clients_set_ok:
  assumes "ep_data m s ps xs" and "bs_grants i (e_clients s) (e_heap s)"
  obtains b h where "clients_set i v s = Inr (s\<lparr>e_clients := b, e_heap := h\<rparr>)"
    and "ep_data m (s\<lparr>e_clients := b, e_heap := h\<rparr>) ps xs"
    and "bs_members b h = (if v \<noteq> 0 then insert i (members s) else members s - {i})"
    and "unat (bs_size b) = max (words_of s) (major i + 1)"
    and "\<forall>n. ample (Suc n) (e_heap s) \<longrightarrow> ample n h"
    and "\<forall>n. major i < words_of s \<longrightarrow> ample n (e_heap s) \<longrightarrow> ample n h"
proof -
  have inv: "bs_inv (e_clients s) (e_heap s)" "stack_at (e_queue s) (e_heap s) ps xs"
    "bs_data (e_clients s) \<notin> set ps" "built_on m (bs_data (e_clients s) # ps) (e_heap s)"
    using assms(1) by (simp_all add: ep_data_def)
  obtain b h where r: "boolset_set (e_clients s) i v (e_heap s) = Inr (b, h)" "bs_inv b h"
    "bs_members b h = (if v \<noteq> 0 then insert i (members s) else members s - {i})"
    "replaced (bs_data (e_clients s)) (bs_data b) (e_heap s) h"
    "unat (bs_size b) = max (words_of s) (major i + 1)"
    "answers h = (if major i < words_of s then answers (e_heap s) else tl (answers (e_heap s)))"
    "bs_data b = (if major i < words_of s then bs_data (e_clients s) else hd (answers (e_heap s)))"
    by (rule boolset_set_ok[OF inv(1) assms(2), of v])
  have live: "\<forall>a \<in> set ps. mem (e_heap s) a \<noteq> None"
    using inv(2) chain_live by (auto simp: stack_at_def)
  note b = built_on_replaced[OF inv(4) r(4) inv(3) live]
  have st: "stack_at (e_queue s) h ps xs"
    using inv(2) b(3) chain_frame by (auto simp: stack_at_def)
  have same: "mem h a = None" if "mem (e_heap s) a = None" "a \<noteq> bs_data b" for a
    using r(4) that inv(1) bs_live[OF inv(1)] unfolding replaced_def by metis
  have gone: "mem h a = None" if "mem (e_heap s) a = None" "major i < words_of s" for a
    using same[OF that(1)] bs_live[OF inv(1)] that(1) by (cases "a = bs_data (e_clients s)") (auto simp: r(7) that(2))
  show thesis
  proof (rule that)
    show "clients_set i v s = Inr (s\<lparr>e_clients := b, e_heap := h\<rparr>)" by (simp add: clients_set_def r(1))
    show "ep_data m (s\<lparr>e_clients := b, e_heap := h\<rparr>) ps xs" using r(2) st b(1,2) by (simp add: ep_data_def)
    show "bs_members b h = (if v \<noteq> 0 then insert i (members s) else members s - {i})" by (rule r(3))
    show "unat (bs_size b) = max (words_of s) (major i + 1)" by (rule r(5))
    have w: "ample n h" if "major i < words_of s" "ample n (e_heap s)" for n
      by (rule ample_same[OF that(2)]) (use r(6) that(1) gone in auto)
    then show "\<forall>n. major i < words_of s \<longrightarrow> ample n (e_heap s) \<longrightarrow> ample n h" by blast
    have "ample n h" if am: "ample (Suc n) (e_heap s)" for n
    proof (cases "major i < words_of s")
      case True
      then show ?thesis using w ample_mono[OF am, of n] by simp
    next
      case False
      then show ?thesis using am same r(6,7) by (intro ample_step[OF am]) auto
    qed
    then show "\<forall>n. ample (Suc n) (e_heap s) \<longrightarrow> ample n h" by blast
  qed
qed

lemma to_int_fd:
  assumes "0 \<le> fd" and "fd < 2 ^ 31"
  shows "to_int (word_of_int fd) = fd"
  using to_int_of_nat[of "nat fd"] assms by simp

lemma major_fd:
  assumes "0 \<le> fd" and "fd < 2 ^ 31"
  shows "unat (word_of_int fd :: 64 word) = nat fd"
  using unat_word_of_nat[of "nat fd"] assms by simp

section \<open>The operations\<close>

text \<open>A file descriptor that the kernel hands out.\<close>

definition fd_ok :: "int \<Rightarrow> bool" where
  "fd_ok fd \<longleftrightarrow> 0 \<le> fd \<and> fd < 2 ^ 31"

definition disc_calls :: "int \<Rightarrow> int \<Rightarrow> syscall list" where
  "disc_calls selector fd =
    [Epoll_Ctl selector EPOLL_CTL_DEL fd None, Shutdown fd SHUT_RDWR, Close fd]"

lemma lock_same [simp]:
  "e_clients_lock s = l \<Longrightarrow> s\<lparr>e_clients_lock := l\<rparr> = s" "e_queue_lock s = l \<Longrightarrow> s\<lparr>e_queue_lock := l\<rparr> = s"
  by auto

lemmas locking = lock_clients_def unlock_clients_def lock_queue_def unlock_queue_def

lemma to_int_word: "fd_ok fd \<Longrightarrow> to_int (word_of_int fd) = fd"
  by (simp add: fd_ok_def to_int_fd)

lemma fd_word_inj: "fd_ok a \<Longrightarrow> fd_ok b \<Longrightarrow> (word_of_int a :: 64 word) = word_of_int b \<longleftrightarrow> a = b"
  using to_int_word by metis

lemma clients_set_shape:
  "clients_set i v (s\<lparr>e_clients_lock := l\<rparr>) =
    rbind (clients_set i v s) (\<lambda>s'. Inr (s'\<lparr>e_clients_lock := l\<rparr>))"
  by (cases "boolset_set (e_clients s) i v (e_heap s)") (auto simp: clients_set_def)

lemma clients_set_keeps:
  "clients_set i v s = Inr s' \<Longrightarrow>
    e_clients_lock s' = e_clients_lock s \<and> e_ep_selector s' = e_ep_selector s \<and> e_log s' = e_log s"
  by (auto simp: clients_set_def rbind_Inr_iff)

lemma deregister_eq:
  assumes "e_clients_lock s = Free"
  shows "endpoint_deregister_client fd s = clients_set (word_of_int fd) 0 s"
    and "endpoint_register_client fd s = clients_set (word_of_int fd) 1 s"
  using assms clients_set_keeps[of "word_of_int fd" _ s]
  by (cases "clients_set (word_of_int fd) 0 s"; cases "clients_set (word_of_int fd) 1 s";
      simp add: endpoint_deregister_client_def endpoint_register_client_def locking clients_set_shape)+

lemma disconnect_eq:
  assumes "e_clients_lock s = Free"
  shows "endpoint_disconnect_client kern fd s = rbind (clients_set (word_of_int fd) 0 s) (\<lambda>s.
    Inr (0, s\<lparr>e_log := e_log s @ disc_calls (e_ep_selector s) fd\<rparr>))"
  by (simp add: endpoint_disconnect_client_def deregister_eq[OF assms] call_def sys_def disc_calls_def)

lemma disconnect_ok:
  assumes "ep_data m s ps xs" and "e_clients_lock s = Free" and "fd_ok fd" and "ample (Suc n) (e_heap s)"
  obtains b h where "endpoint_disconnect_client kern fd s =
      Inr (0, s\<lparr>e_clients := b, e_heap := h, e_log := e_log s @ disc_calls (e_ep_selector s) fd\<rparr>)"
    and "ep_data m (s\<lparr>e_clients := b, e_heap := h\<rparr>) ps xs"
    and "bs_members b h = members s - {word_of_int fd}" and "ample n h"
proof -
  obtain b h where "clients_set (word_of_int fd) 0 s = Inr (s\<lparr>e_clients := b, e_heap := h\<rparr>)"
    "ep_data m (s\<lparr>e_clients := b, e_heap := h\<rparr>) ps xs"
    "bs_members b h = (if (0::int) \<noteq> 0 then insert (word_of_int fd) (members s) else members s - {word_of_int fd})"
    "\<forall>n. ample (Suc n) (e_heap s) \<longrightarrow> ample n h"
    by (rule clients_set_ok[OF assms(1) ample_grants[OF assms(4), of "word_of_int fd"], where v = 0])
  then show thesis using that assms(4) by (simp add: disconnect_eq[OF assms(2)])
qed

lemma ep_data_pop:
  assumes "ep_data m s ps (x # xs)"
  obtains n p ps' where "ps = p # ps'"
    and "stack_pop (e_queue s) (e_heap s) = Inr (x, \<lparr>s_top = n\<rparr>, del_block p (e_heap s))"
    and "ep_data m (s\<lparr>e_queue := \<lparr>s_top = n\<rparr>, e_heap := del_block p (e_heap s)\<rparr>) ps' xs"
    and "bs_members (e_clients s) (del_block p (e_heap s)) = members s"
proof -
  have d: "bs_inv (e_clients s) (e_heap s)" "stack_at (e_queue s) (e_heap s) ps (x # xs)"
    "bs_data (e_clients s) \<notin> set ps" "built_on m (bs_data (e_clients s) # ps) (e_heap s)"
    using assms by (simp_all add: ep_data_def)
  then obtain p ps' where ps: "ps = p # ps'" by (cases ps) (auto simp: stack_at_def)
  from stack_pop_ok[OF d(2)[unfolded ps]] obtain n where
    n: "stack_pop (e_queue s) (e_heap s) = Inr (x, \<lparr>s_top = n\<rparr>, del_block p (e_heap s))"
      "stack_at \<lparr>s_top = n\<rparr> (del_block p (e_heap s)) ps' xs" by blast
  have same: "mem (del_block p (e_heap s)) (bs_data (e_clients s)) = mem (e_heap s) (bs_data (e_clients s))"
    using d(3) ps by auto
  have "built_on m (bs_data (e_clients s) # ps') (del_block p (e_heap s))"
    using d(2,3,4) ps by (auto simp: built_on_def stack_at_def)
  then show thesis using that[OF ps n(1)] d(1,3) ps n(2) bs_frame[OF same] by (simp add: ep_data_def)
qed

lemma ample_del: "ample n h \<Longrightarrow> ample n (del_block p h)"
  by (rule ample_same) auto

lemma hungups_ok:
  assumes "ep_data m s ps (map word_of_int q)" and "list_all fd_ok q" and "e_clients_lock s = Free"
    and "ample (length q + n) (e_heap s)" and "0 \<le> c" and "c + int (length q) < 2 ^ 31"
  shows "\<exists>b h. hungups_loop kern c s = Inr (c + int (length q), s\<lparr>e_clients := b, e_heap := h,
      e_queue := stack_create, e_log := e_log s @ concat (map (disc_calls (e_ep_selector s)) q)\<rparr>) \<and>
    ep_data m (s\<lparr>e_clients := b, e_heap := h, e_queue := stack_create\<rparr>) [] [] \<and>
    bs_members b h = members s - word_of_int ` set q \<and> ample n h"
  using assms
proof (induction q arbitrary: s ps c)
  case Nil
  then have e: "stack_is_empty (e_queue s)" "ps = []" by (auto simp: ep_data_def stack_at_def stack_is_empty_def elim: chain.elims)
  then have "e_queue s = stack_create" by (cases "e_queue s") (simp add: stack_is_empty_def stack_create_def)
  then show ?case using Nil e
    by (intro exI[of _ "e_clients s"] exI[of _ "e_heap s"]) (simp add: hungups_loop.simps ep_data_def)
next
  case (Cons fd q)
  obtain n1 p ps' where pop: "ps = p # ps'"
    "stack_pop (e_queue s) (e_heap s) = Inr (word_of_int fd, \<lparr>s_top = n1\<rparr>, del_block p (e_heap s))"
    "ep_data m (s\<lparr>e_queue := \<lparr>s_top = n1\<rparr>, e_heap := del_block p (e_heap s)\<rparr>) ps' (map word_of_int q)"
    "bs_members (e_clients s) (del_block p (e_heap s)) = members s"
    by (rule ep_data_pop) (use Cons.prems(1) in simp)
  let ?s1 = "s\<lparr>e_queue := \<lparr>s_top = n1\<rparr>, e_heap := del_block p (e_heap s)\<rparr>"
  obtain b h where disc: "endpoint_disconnect_client kern fd ?s1 =
      Inr (0, ?s1\<lparr>e_clients := b, e_heap := h, e_log := e_log ?s1 @ disc_calls (e_ep_selector ?s1) fd\<rparr>)"
    "ep_data m (?s1\<lparr>e_clients := b, e_heap := h\<rparr>) ps' (map word_of_int q)"
    "bs_members b h = members ?s1 - {word_of_int fd}" "ample (length q + n) h"
    by (rule disconnect_ok[OF pop(3), of fd "length q + n"]) (use Cons.prems(2,3,4) ample_del in auto)
  let ?s2 = "?s1\<lparr>e_clients := b, e_heap := h, e_log := e_log ?s1 @ disc_calls (e_ep_selector ?s1) fd\<rparr>"
  have d2: "ep_data m ?s2 ps' (map word_of_int q)" using disc(2) by (simp add: ep_data_def)
  have ne: "\<not> stack_is_empty (e_queue s)"
    using Cons.prems(1) stack_is_empty_iff by (fastforce simp: ep_data_def)
  have step: "hungups_loop kern c s = hungups_loop kern (c + 1) ?s2"
    using ne pop(2) disc(1) to_int_word[of fd] Cons.prems(2,5,6) by (subst hungups_loop.simps) simp
  from Cons.IH[OF d2, of "c + 1"] Cons.prems obtain b' h' where r:
    "hungups_loop kern (c + 1) ?s2 = Inr (c + 1 + int (length q), ?s2\<lparr>e_clients := b', e_heap := h',
      e_queue := stack_create, e_log := e_log ?s2 @ concat (map (disc_calls (e_ep_selector ?s2)) q)\<rparr>)"
    "ep_data m (?s2\<lparr>e_clients := b', e_heap := h', e_queue := stack_create\<rparr>) [] []"
    "bs_members b' h' = members ?s2 - word_of_int ` set q" "ample n h'"
    using disc(4) by auto
  show ?case
  proof (intro exI conjI)
    show "hungups_loop kern c s = Inr (c + int (length (fd # q)), s\<lparr>e_clients := b', e_heap := h',
      e_queue := stack_create, e_log := e_log s @ concat (map (disc_calls (e_ep_selector s)) (fd # q))\<rparr>)"
      using step r(1) by simp
    show "ep_data m (s\<lparr>e_clients := b', e_heap := h', e_queue := stack_create\<rparr>) [] []"
      using r(2) by (simp add: ep_data_def)
    show "bs_members b' h' = members s - word_of_int ` set (fd # q)"
      using r(3) disc(3) pop(4) by auto
  qed (rule r(4))
qed

text \<open>Under the lock, the callback does what \<open>endpoint_disconnect_client\<close> does for its caller.\<close>

lemma callback_eq:
  assumes "e_clients_lock s = Free" and "fd_ok fd"
  shows "disconnect_all_foreach kern (word_of_int fd) (s\<lparr>e_clients_lock := Held\<rparr>) =
    rbind (endpoint_disconnect_client kern fd s) (\<lambda>(_, s'). Inr (s'\<lparr>e_clients_lock := Held\<rparr>))"
  unfolding disconnect_eq[OF assms(1)] disconnect_all_foreach_def clients_set_shape
  using clients_set_keeps[of "word_of_int fd" 0 s]
  by (cases "clients_set (word_of_int fd) 0 s")
     (simp_all add: call_def sys_def disc_calls_def to_int_word[OF assms(2)])

definition disconnect_each :: "kernel \<Rightarrow> int list \<Rightarrow> ep \<Rightarrow> ep result" where
  "disconnect_each kern fds s =
    rfold (\<lambda>fd s. rbind (endpoint_disconnect_client kern fd s) (\<lambda>(_, s). Inr s)) fds s"

lemma disconnect_each_simps:
  "disconnect_each kern [] s = Inr s"
  "disconnect_each kern (fd # fds) s =
    rbind (endpoint_disconnect_client kern fd s) (\<lambda>(_, s). disconnect_each kern fds s)"
  by (cases "endpoint_disconnect_client kern fd s"; simp add: disconnect_each_def split_beta)+

lemma disconnect_unlocks:
  "endpoint_disconnect_client kern fd s = Inr (r, s') \<Longrightarrow> e_clients_lock s' = Free"
  by (auto simp: endpoint_disconnect_client_def endpoint_deregister_client_def locking rbind_Inr_iff Let_def
      split: if_splits)

lemma callbacks_eq:
  assumes "e_clients_lock s = Free" and "list_all fd_ok fds"
  shows "rfold (disconnect_all_foreach kern) (map word_of_int fds) (s\<lparr>e_clients_lock := Held\<rparr>) =
    rbind (disconnect_each kern fds s) (\<lambda>s'. Inr (s'\<lparr>e_clients_lock := Held\<rparr>))"
  using assms
proof (induction fds arbitrary: s)
  case (Cons fd fds)
  show ?case
  proof (cases "endpoint_disconnect_client kern fd s")
    case (Inr r)
    with Cons disconnect_unlocks[of kern fd s "fst r" "snd r"] show ?thesis
      by (simp add: callback_eq disconnect_each_simps split_beta)
  qed (use Cons in \<open>simp add: callback_eq disconnect_each_simps\<close>)
qed (simp add: disconnect_each_simps)

text \<open>The callback clears a bit of the current word: the loop over the set tolerates that.\<close>

lemma callback_calm:
  assumes "bs_inv (e_clients s) (e_heap s)" and "major i < words_of s" and "disconnect_all_foreach kern i s = Inr s'"
  shows "calm e_clients e_heap (major i) s s'"
  using assms boolset_set_calm[OF assms(1,2)]
  by (auto simp: calm_def disconnect_all_foreach_def clients_set_def rbind_Inr_iff Let_def)

lemma elems_are_clients:
  assumes "bs_inv b h" and "bs_members b h = word_of_int ` A" and "\<forall>fd \<in> A. fd_ok fd"
  shows "bs_elems b h = map word_of_int (sorted_list_of_set A)" and "finite A"
proof -
  have inj: "inj_on (word_of_int :: int \<Rightarrow> 64 word) A" using assms(3) fd_word_inj by (auto simp: inj_on_def)
  show fin: "finite A" using inj assms(2) finite_imageD[of "word_of_int :: int \<Rightarrow> 64 word" A] by simp
  note el = bs_elems_sorted[OF assms(1)]
  have ws: "sorted_wrt (<) (map (word_of_int :: int \<Rightarrow> 64 word) (sorted_list_of_set A))"
  proof -
    have "sorted_wrt (<) (sorted_list_of_set A)" by (rule strict_sorted_list_of_set)
    moreover have "(word_of_int a :: 64 word) < word_of_int b"
      if "a \<in> set (sorted_list_of_set A)" "b \<in> set (sorted_list_of_set A)" "a < b" for a b
      using that fin assms(3) by (subst word_of_int_less_iff(1)) (auto simp: fd_ok_def uint_word_of_int)
    ultimately show ?thesis by (simp add: sorted_wrt_map sorted_wrt_mono_rel[of _ "(<)"])
  qed
  have "set (bs_elems b h) = set (map word_of_int (sorted_list_of_set A))"
    using el(1) assms(2) fin by simp
  then show "bs_elems b h = map word_of_int (sorted_list_of_set A)"
    using strict_sorted_equal[OF el(2) ws] by simp
qed

lemma foreach_is_each:
  assumes "bs_inv (e_clients s) (e_heap s)" and "members s = word_of_int ` A" and "\<forall>fd \<in> A. fd_ok fd"
    and "e_clients_lock s = Free"
  shows "boolset_foreach e_clients e_heap (disconnect_all_foreach kern) 0 (s\<lparr>e_clients_lock := Held\<rparr>) =
    rbind (disconnect_each kern (sorted_list_of_set A) s) (\<lambda>s'. Inr (s'\<lparr>e_clients_lock := Held\<rparr>))"
proof -
  note el = elems_are_clients[OF assms(1-3)]
  have "boolset_foreach e_clients e_heap (disconnect_all_foreach kern) (word_of_nat 0) (s\<lparr>e_clients_lock := Held\<rparr>) =
      rfold (disconnect_all_foreach kern) (elems_from 0 (bs_words (e_clients s) (e_heap s))) (s\<lparr>e_clients_lock := Held\<rparr>)"
    using boolset_foreach_rfold[of e_clients "s\<lparr>e_clients_lock := Held\<rparr>" e_heap 0 "disconnect_all_foreach kern"]
      assms(1) callback_calm by simp
  then show ?thesis
    using el assms(3,4) callbacks_eq[of s "sorted_list_of_set A" kern]
    by (simp add: bs_elems_def list_all_iff)
qed

lemma disconnect_all_eq:
  assumes "bs_inv (e_clients s) (e_heap s)" and "members s = word_of_int ` A" and "\<forall>fd \<in> A. fd_ok fd"
    and "e_clients_lock s = Free"
  shows "endpoint_disconnect_all_clients kern s =
    rbind (disconnect_each kern (sorted_list_of_set A) s) (\<lambda>s.
    rbind (endpoint_clear_disconnection_queue s) (\<lambda>s. Inr (None, s)))"
proof -
  have free: "e_clients_lock s' = Free" if "disconnect_each kern fds s = Inr s'" for fds s'
    using that assms(4)
  proof (induction fds arbitrary: s)
    case (Cons fd fds)
    then show ?case by (auto simp: disconnect_each_simps rbind_Inr_iff dest: disconnect_unlocks)
  qed (simp add: disconnect_each_simps)
  show ?thesis
    unfolding endpoint_disconnect_all_clients_def lock_clients_def
    using assms(4) foreach_is_each[OF assms, of kern] free[of "sorted_list_of_set A"]
    by (cases "disconnect_each kern (sorted_list_of_set A) s") (simp_all add: unlock_clients_def)
qed

text \<open>Disconnecting clients whose bits lie in the array takes no allocation.\<close>

lemma disconnect_each_ok:
  assumes "ep_data m s ps xs" and "list_all fd_ok fds" and "e_clients_lock s = Free"
    and "\<forall>fd \<in> set fds. major (word_of_int fd) < words_of s" and "ample n (e_heap s)"
  shows "\<exists>b h. disconnect_each kern fds s = Inr (s\<lparr>e_clients := b, e_heap := h,
      e_log := e_log s @ concat (map (disc_calls (e_ep_selector s)) fds)\<rparr>) \<and>
    ep_data m (s\<lparr>e_clients := b, e_heap := h\<rparr>) ps xs \<and>
    bs_members b h = members s - word_of_int ` set fds \<and> ample n h"
  using assms
proof (induction fds arbitrary: s)
  case Nil
  then show ?case by (intro exI[of _ "e_clients s"] exI[of _ "e_heap s"]) (simp add: disconnect_each_simps)
next
  case (Cons fd fds)
  have gr: "bs_grants (word_of_int fd) (e_clients s) (e_heap s)" using Cons.prems(4) by (simp add: bs_grants_def)
  obtain b h where c: "clients_set (word_of_int fd) 0 s = Inr (s\<lparr>e_clients := b, e_heap := h\<rparr>)"
    "ep_data m (s\<lparr>e_clients := b, e_heap := h\<rparr>) ps xs"
    "bs_members b h = (if (0::int) \<noteq> 0 then insert (word_of_int fd) (members s) else members s - {word_of_int fd})"
    "unat (bs_size b) = max (words_of s) (major (word_of_int fd) + 1)"
    "\<forall>n. major (word_of_int fd) < words_of s \<longrightarrow> ample n (e_heap s) \<longrightarrow> ample n h"
    by (rule clients_set_ok[OF Cons.prems(1) gr, where v = 0])
  let ?s = "s\<lparr>e_clients := b, e_heap := h, e_log := e_log s @ disc_calls (e_ep_selector s) fd\<rparr>"
  have "ep_data m ?s ps xs" using c(2) by (simp add: ep_data_def)
  moreover have "words_of ?s = words_of s" "ample n h" using c(4,5) Cons.prems(4,5) by auto
  ultimately obtain b' h' where "disconnect_each kern fds ?s = Inr (?s\<lparr>e_clients := b', e_heap := h',
      e_log := e_log ?s @ concat (map (disc_calls (e_ep_selector ?s)) fds)\<rparr>)"
    "ep_data m (?s\<lparr>e_clients := b', e_heap := h'\<rparr>) ps xs"
    "bs_members b' h' = members ?s - word_of_int ` set fds" "ample n h'"
    using Cons.IH[of ?s] Cons.prems by auto
  then show ?case using c(1,3) Cons.prems(3)
    by (intro exI[of _ b'] exI[of _ h']) (auto simp: disconnect_each_simps disconnect_eq ep_data_def)
qed

lemma clear_ok:
  assumes "ep_data m s ps xs" and "e_queue_lock s = Free"
  shows "endpoint_clear_disconnection_queue s =
      Inr (s\<lparr>e_queue := stack_create, e_heap := del_blocks ps (e_heap s)\<rparr>)"
    and "ep_data m (s\<lparr>e_queue := stack_create, e_heap := del_blocks ps (e_heap s)\<rparr>) [] []"
    and "bs_members (e_clients s) (del_blocks ps (e_heap s)) = members s"
    and "ample n (e_heap s) \<Longrightarrow> ample n (del_blocks ps (e_heap s))"
proof -
  have d: "bs_inv (e_clients s) (e_heap s)" "stack_at (e_queue s) (e_heap s) ps xs"
    "bs_data (e_clients s) \<notin> set ps" "built_on m (bs_data (e_clients s) # ps) (e_heap s)"
    using assms by (simp_all add: ep_data_def)
  show "endpoint_clear_disconnection_queue s =
      Inr (s\<lparr>e_queue := stack_create, e_heap := del_blocks ps (e_heap s)\<rparr>)"
    using assms(2) stack_empty_ok[OF d(2)]
    by (simp add: endpoint_clear_disconnection_queue_def locking stack_destroy_def stack_create_def)
  have same: "mem (del_blocks ps (e_heap s)) (bs_data (e_clients s)) = mem (e_heap s) (bs_data (e_clients s))"
    using d(3) by (simp add: mem_del_blocks)
  show "bs_members (e_clients s) (del_blocks ps (e_heap s)) = members s" by (rule bs_frame(2)[OF same])
  show "ep_data m (s\<lparr>e_queue := stack_create, e_heap := del_blocks ps (e_heap s)\<rparr>) [] []"
    using d(1,4) bs_frame(1)[OF same] by (auto simp: ep_data_def stack_create_at built_on_def mem_del_blocks)
  have ans: "answers (del_blocks ps h) = answers h" for h by (induction ps arbitrary: h) simp_all
  show "ample n (e_heap s) \<Longrightarrow> ample n (del_blocks ps (e_heap s))"
    by (erule ample_same) (simp_all add: ans mem_del_blocks)
qed

section \<open>The abstract client book\<close>

text \<open>
  What an endpoint promises: a set of connected clients, a stack of clients that hung up, and the
  calls it made to the operating system so far.
\<close>

record client_book =
  a_clients :: "int set"
  a_queue :: "int list"
  a_log :: "syscall list"

datatype ep_op = Register int | Enqueue int | Disconnect int | Close_Hungups | Disconnect_All

fun ep_step :: "kernel \<Rightarrow> ep_op \<Rightarrow> ep \<Rightarrow> (int option \<times> ep) result" where
  "ep_step kern (Register fd) s = rbind (endpoint_register_client fd s) (\<lambda>s. Inr (None, s))"
| "ep_step kern (Enqueue fd) s = rbind (endpoint_enqueue_client_for_disconnection fd s) (\<lambda>s. Inr (None, s))"
| "ep_step kern (Disconnect fd) s = rbind (endpoint_disconnect_client kern fd s) (\<lambda>(r, s). Inr (Some r, s))"
| "ep_step kern Close_Hungups s = rbind (endpoint_close_hungups kern s) (\<lambda>(n, s). Inr (Some n, s))"
| "ep_step kern Disconnect_All s = endpoint_disconnect_all_clients kern s"

fun book_step :: "int \<Rightarrow> ep_op \<Rightarrow> client_book \<Rightarrow> int option \<times> client_book" where
  "book_step sel (Register fd) a = (None, a\<lparr>a_clients := insert fd (a_clients a)\<rparr>)"
| "book_step sel (Enqueue fd) a = (None, a\<lparr>a_queue := fd # a_queue a\<rparr>)"
| "book_step sel (Disconnect fd) a =
     (Some 0, a\<lparr>a_clients := a_clients a - {fd}, a_log := a_log a @ disc_calls sel fd\<rparr>)"
| "book_step sel Close_Hungups a =
     (Some (int (length (a_queue a))), a\<lparr>a_clients := a_clients a - set (a_queue a), a_queue := [],
        a_log := a_log a @ concat (map (disc_calls sel) (a_queue a))\<rparr>)"
| "book_step sel Disconnect_All a =
     (None, a\<lparr>a_clients := {}, a_queue := [],
        a_log := a_log a @ concat (map (disc_calls sel) (sorted_list_of_set (a_clients a)))\<rparr>)"

fun op_legal :: "ep_op \<Rightarrow> bool" where
  "op_legal (Register fd) = fd_ok fd"
| "op_legal (Enqueue fd) = fd_ok fd"
| "op_legal (Disconnect fd) = fd_ok fd"
| "op_legal _ = True"

text \<open>The allocations an operation may need; a queued client pays for its disconnection.\<close>

fun op_cost :: "ep_op \<Rightarrow> nat" where
  "op_cost (Register fd) = 1"
| "op_cost (Enqueue fd) = 2"
| "op_cost (Disconnect fd) = 1"
| "op_cost _ = 0"

text \<open>The four descriptors of an endpoint.\<close>

definition ep_fds :: "ep \<Rightarrow> int \<times> int \<times> int \<times> int" where
  "ep_fds s = (e_srv_fd s, e_ep_listener s, e_ep_selector s, e_shutdown_fd s)"

definition ep_rep :: "(ptr \<Rightarrow> cell list option) \<Rightarrow> int \<times> int \<times> int \<times> int \<Rightarrow> nat \<Rightarrow> ep \<Rightarrow> client_book \<Rightarrow> bool" where
  "ep_rep m F n s a \<longleftrightarrow> (\<exists>ps. ep_data m s ps (map word_of_int (a_queue a))) \<and>
    members s = word_of_int ` a_clients a \<and> (\<forall>fd \<in> a_clients a. fd_ok fd) \<and> list_all fd_ok (a_queue a) \<and>
    e_log s = a_log a \<and> e_clients_lock s = Free \<and> e_queue_lock s = Free \<and> ep_fds s = F \<and>
    ample (length (a_queue a) + n) (e_heap s) \<and> length (a_queue a) + n < 2 ^ 31"

lemma members_minus:
  assumes "\<forall>fd \<in> A \<union> B. fd_ok fd"
  shows "word_of_int ` A - word_of_int ` B = (word_of_int ` (A - B) :: 64 word set)"
  using assms fd_word_inj by blast

lemma rep_register:
  assumes "ep_rep m F (Suc n) s a" and "fd_ok fd"
  shows "\<exists>s'. endpoint_register_client fd s = Inr s' \<and> ep_rep m F n s' (a\<lparr>a_clients := insert fd (a_clients a)\<rparr>)"
proof -
  from assms(1) obtain ps where d: "ep_data m s ps (map word_of_int (a_queue a))" by (auto simp: ep_rep_def)
  have am: "ample (Suc (length (a_queue a) + n)) (e_heap s)" using assms(1) by (simp add: ep_rep_def)
  obtain b h where c: "clients_set (word_of_int fd) 1 s = Inr (s\<lparr>e_clients := b, e_heap := h\<rparr>)"
    "ep_data m (s\<lparr>e_clients := b, e_heap := h\<rparr>) ps (map word_of_int (a_queue a))"
    "bs_members b h = (if (1::int) \<noteq> 0 then insert (word_of_int fd) (members s) else members s - {word_of_int fd})"
    "\<forall>n. ample (Suc n) (e_heap s) \<longrightarrow> ample n h"
    by (rule clients_set_ok[OF d ample_grants[OF am, of "word_of_int fd"], where v = 1])
  show ?thesis using assms c am by (auto simp: ep_rep_def deregister_eq ep_fds_def)
qed

lemma rep_enqueue:
  assumes "ep_rep m F (Suc (Suc n)) s a" and "fd_ok fd"
  shows "\<exists>s'. endpoint_enqueue_client_for_disconnection fd s = Inr s' \<and> ep_rep m F n s' (a\<lparr>a_queue := fd # a_queue a\<rparr>)"
proof -
  from assms(1) obtain ps where d: "ep_data m s ps (map word_of_int (a_queue a))" by (auto simp: ep_rep_def)
  then have parts: "bs_inv (e_clients s) (e_heap s)" "stack_at (e_queue s) (e_heap s) ps (map word_of_int (a_queue a))"
    "bs_data (e_clients s) \<notin> set ps" "built_on m (bs_data (e_clients s) # ps) (e_heap s)"
    by (simp_all add: ep_data_def)
  have am: "ample (Suc (length (fd # a_queue a) + n)) (e_heap s)" using assms(1) by (simp add: ep_rep_def)
  from stack_push_ok[OF parts(2) ample_can_alloc[OF am], of "word_of_int fd"] obtain p h where
    p: "stack_push (e_queue s) (word_of_int fd) (e_heap s) = Inr (\<lparr>s_top = p\<rparr>, h)"
      "stack_at \<lparr>s_top = p\<rparr> h (p # ps) (map word_of_int (fd # a_queue a))"
      "p = hd (answers (e_heap s))" "mem (e_heap s) p = None" "\<forall>a. a \<noteq> p \<longrightarrow> mem h a = mem (e_heap s) a"
      "answers h = tl (answers (e_heap s))" by auto
  have ne: "bs_data (e_clients s) \<noteq> p" using bs_live[OF parts(1)] p(4) by auto
  then have same: "mem h (bs_data (e_clients s)) = mem (e_heap s) (bs_data (e_clients s))" using p(5) by blast
  have "m p = None" using parts(4) p(4) by (cases "p \<in> set (bs_data (e_clients s) # ps)") (auto simp: built_on_def)
  then have "built_on m (bs_data (e_clients s) # p # ps) h" using parts(4) p(5) by (auto simp: built_on_def)
  then have "ep_data m (s\<lparr>e_queue := \<lparr>s_top = p\<rparr>, e_heap := h\<rparr>) (p # ps) (map word_of_int (fd # a_queue a))"
    using parts(1,3) p(2) ne bs_frame(1)[OF same] by (simp add: ep_data_def)
  moreover have "ample (length (fd # a_queue a) + n) h" by (rule ample_step[OF am p(6)]) (use p(3,5) in auto)
  ultimately show ?thesis
    using assms bs_frame(2)[OF same] p(1)
    by (auto simp: ep_rep_def ep_fds_def endpoint_enqueue_client_for_disconnection_def locking)
qed

lemma rep_disconnect:
  assumes "ep_rep m F (Suc n) s a" and "fd_ok fd"
  shows "\<exists>s'. endpoint_disconnect_client kern fd s = Inr (0, s') \<and> ep_rep m F n s' (a\<lparr>a_clients := a_clients a - {fd},
    a_log := a_log a @ disc_calls (fst (snd (snd F))) fd\<rparr>)"
proof -
  from assms(1) obtain ps where d: "ep_data m s ps (map word_of_int (a_queue a))" by (auto simp: ep_rep_def)
  have am: "ample (Suc (length (a_queue a) + n)) (e_heap s)" "e_clients_lock s = Free"
    using assms(1) by (simp_all add: ep_rep_def)
  obtain b h where c: "endpoint_disconnect_client kern fd s =
      Inr (0, s\<lparr>e_clients := b, e_heap := h, e_log := e_log s @ disc_calls (e_ep_selector s) fd\<rparr>)"
    "ep_data m (s\<lparr>e_clients := b, e_heap := h\<rparr>) ps (map word_of_int (a_queue a))"
    "bs_members b h = members s - {word_of_int fd}" "ample (length (a_queue a) + n) h"
    by (rule disconnect_ok[OF d am(2) assms(2) am(1)])
  have "members s - {word_of_int fd} = word_of_int ` (a_clients a - {fd})"
    using members_minus[of "a_clients a" "{fd}"] assms by (simp add: ep_rep_def)
  then show ?thesis using assms c by (auto simp: ep_rep_def ep_fds_def ep_data_def)
qed

lemma rep_hungups:
  assumes "ep_rep m F n s a"
  shows "\<exists>s'. endpoint_close_hungups kern s = Inr (int (length (a_queue a)), s') \<and>
    ep_rep m F n s' (a\<lparr>a_clients := a_clients a - set (a_queue a), a_queue := [],
      a_log := a_log a @ concat (map (disc_calls (fst (snd (snd F)))) (a_queue a))\<rparr>)"
proof -
  from assms obtain ps where d: "ep_data m s ps (map word_of_int (a_queue a))" by (auto simp: ep_rep_def)
  let ?s = "s\<lparr>e_queue_lock := Held\<rparr>"
  have "\<exists>b h. hungups_loop kern 0 ?s = Inr (0 + int (length (a_queue a)), ?s\<lparr>e_clients := b, e_heap := h,
      e_queue := stack_create, e_log := e_log ?s @ concat (map (disc_calls (e_ep_selector ?s)) (a_queue a))\<rparr>) \<and>
    ep_data m (?s\<lparr>e_clients := b, e_heap := h, e_queue := stack_create\<rparr>) [] [] \<and>
    bs_members b h = members ?s - word_of_int ` set (a_queue a) \<and> ample n h"
    by (rule hungups_ok) (use assms d in \<open>auto simp: ep_rep_def\<close>)
  then obtain b h where r: "hungups_loop kern 0 ?s = Inr (0 + int (length (a_queue a)), ?s\<lparr>e_clients := b, e_heap := h,
      e_queue := stack_create, e_log := e_log ?s @ concat (map (disc_calls (e_ep_selector ?s)) (a_queue a))\<rparr>)"
    "ep_data m (?s\<lparr>e_clients := b, e_heap := h, e_queue := stack_create\<rparr>) [] []"
    "bs_members b h = members ?s - word_of_int ` set (a_queue a)" "ample n h" by blast
  have "members s - word_of_int ` set (a_queue a) = word_of_int ` (a_clients a - set (a_queue a))"
    using members_minus[of "a_clients a" "set (a_queue a)"] assms by (auto simp: ep_rep_def list_all_iff)
  then show ?thesis using assms r by (auto simp: ep_rep_def ep_fds_def ep_data_def endpoint_close_hungups_def locking)
qed

lemma rep_disconnect_all:
  assumes "ep_rep m F n s a"
  shows "\<exists>s'. endpoint_disconnect_all_clients kern s = Inr (None, s') \<and>
    ep_rep m F n s' (a\<lparr>a_clients := {}, a_queue := [],
      a_log := a_log a @ concat (map (disc_calls (fst (snd (snd F)))) (sorted_list_of_set (a_clients a)))\<rparr>)"
proof -
  from assms obtain ps where d: "ep_data m s ps (map word_of_int (a_queue a))" by (auto simp: ep_rep_def)
  have inv: "bs_inv (e_clients s) (e_heap s)" using d by (simp add: ep_data_def)
  have r: "members s = word_of_int ` a_clients a" "\<forall>fd \<in> a_clients a. fd_ok fd" "e_clients_lock s = Free"
    "e_queue_lock s = Free" "ample (length (a_queue a) + n) (e_heap s)" using assms by (simp_all add: ep_rep_def)
  have fin: "finite (a_clients a)" by (rule elems_are_clients(2)[OF inv r(1,2)])
  let ?l = "sorted_list_of_set (a_clients a)"
  have within: "major (word_of_int fd) < words_of s" if "fd \<in> a_clients a" for fd
  proof -
    have "word_of_int fd \<in> members s" using r(1) that by simp
    then show ?thesis using length_bs_words[OF inv] by (simp add: bs_members_def bits_of_def)
  qed
  have "\<exists>b h. disconnect_each kern ?l s = Inr (s\<lparr>e_clients := b, e_heap := h,
      e_log := e_log s @ concat (map (disc_calls (e_ep_selector s)) ?l)\<rparr>) \<and>
    ep_data m (s\<lparr>e_clients := b, e_heap := h\<rparr>) ps (map word_of_int (a_queue a)) \<and>
    bs_members b h = members s - word_of_int ` set ?l \<and> ample (length (a_queue a) + n) h"
    by (rule disconnect_each_ok[OF d]) (use r fin within in \<open>auto simp: list_all_iff\<close>)
  then obtain b h where e: "disconnect_each kern ?l s = Inr (s\<lparr>e_clients := b, e_heap := h,
      e_log := e_log s @ concat (map (disc_calls (e_ep_selector s)) ?l)\<rparr>)"
    "ep_data m (s\<lparr>e_clients := b, e_heap := h\<rparr>) ps (map word_of_int (a_queue a))"
    "bs_members b h = {}" "ample (length (a_queue a) + n) h" using r(1) fin by auto
  let ?s = "s\<lparr>e_clients := b, e_heap := h, e_log := e_log s @ concat (map (disc_calls (e_ep_selector s)) ?l)\<rparr>"
  have d': "ep_data m ?s ps (map word_of_int (a_queue a))" using e(2) by (simp add: ep_data_def)
  note c = clear_ok[OF d']
  have "ample n h" by (rule ample_mono[OF e(4)]) simp
  then show ?thesis
    using disconnect_all_eq[OF inv r(1,2,3), of kern] e(1,3) c assms
    by (auto simp: ep_rep_def ep_fds_def)
qed

interpretation endpoint_ops: stepwise_refinement "ep_rep m F" "ep_step kern" "book_step (fst (snd (snd F)))" op_cost op_legal
  for m F kern
proof
  fix p n s a
  assume rep: "ep_rep m F (op_cost p + n) s a" and ok: "op_legal p"
  show "\<exists>s'. ep_step kern p s = Inr (fst (book_step (fst (snd (snd F))) p a), s') \<and>
    ep_rep m F n s' (snd (book_step (fst (snd (snd F))) p a))"
  proof (cases p)
    case (Register fd)
    then show ?thesis using rep_register[of m F n s a fd] rep ok by auto
  next
    case (Enqueue fd)
    then show ?thesis using rep_enqueue[of m F n s a fd] rep ok by auto
  next
    case (Disconnect fd)
    then show ?thesis using rep_disconnect[of m F n s a fd kern] rep ok by auto
  next
    case Close_Hungups
    then show ?thesis using rep_hungups[of m F n s a kern] rep by auto
  next
    case Disconnect_All
    then show ?thesis using rep_disconnect_all[of m F n s a kern] rep by auto
  qed
qed

section \<open>Creation, acceptance and events\<close>

lemma rep_mono: "ep_rep m F n s a \<Longrightarrow> k \<le> n \<Longrightarrow> ep_rep m F k s a"
  by (auto simp: ep_rep_def elim: ample_mono)

lemma rep_call:
  "ep_rep m F n s a \<Longrightarrow> ep_rep m F n (s\<lparr>e_log := e_log s @ cs\<rparr>) (a\<lparr>a_log := a_log a @ cs\<rparr>)"
  by (auto simp: ep_rep_def ep_fds_def)

lemma rep_fds:
  assumes "ep_rep m (srv, lis, sel, sht) n s a"
  shows "e_srv_fd s = srv" "e_ep_listener s = lis" "e_ep_selector s = sel" "e_shutdown_fd s = sht" "e_log s = a_log a"
  using assms by (simp_all add: ep_rep_def ep_fds_def)

text \<open>The calls of \<open>endpoint_create\<close>, from the first to the last.\<close>

definition inet_domain :: "bool \<Rightarrow> int" where
  "inet_domain v6 = (if v6 then AF_INET6 else AF_INET)"

definition server_calls :: "int \<Rightarrow> bool \<Rightarrow> int \<Rightarrow> 32 word \<Rightarrow> syscall list" where
  "server_calls port v6 srv flags =
    [Socket (inet_domain v6) SOCK_STREAM IPPROTO_TCP, Fcntl_Getfl srv,
     Fcntl_Setfl srv (flags OR O_NONBLOCK),
     Bind srv \<lparr>sin_family = inet_domain v6, sin_port = htons port, sin_addr = 0\<rparr>, Listen srv 512]"

definition create_calls :: "int \<Rightarrow> bool \<Rightarrow> int \<times> int \<times> int \<times> int \<Rightarrow> 32 word \<Rightarrow> syscall list" where
  "create_calls port v6 F flags = (case F of (srv, lis, sel, sht) \<Rightarrow>
    server_calls port v6 srv flags @ [Epoll_Create 0, Epoll_Create 0, Eventfd 0 0,
     Epoll_Ctl lis EPOLL_CTL_ADD srv (Some \<lparr>ev_events = EPOLLIN OR EPOLLHUP, ev_fd = srv\<rparr>),
     Epoll_Ctl lis EPOLL_CTL_ADD sht (Some \<lparr>ev_events = EPOLLIN, ev_fd = sht\<rparr>),
     Epoll_Ctl sel EPOLL_CTL_ADD sht (Some \<lparr>ev_events = EPOLLIN, ev_fd = sht\<rparr>)])"

lemma create_server_socket_eq:
  "\<exists>flags. create_server_socket kern port v6 s =
    (fst (kern (e_log s) (Socket (inet_domain v6) SOCK_STREAM IPPROTO_TCP)),
     s\<lparr>e_log := e_log s @ server_calls port v6
        (fst (kern (e_log s) (Socket (inet_domain v6) SOCK_STREAM IPPROTO_TCP))) flags\<rparr>)"
proof -
  let ?srv = "fst (kern (e_log s) (Socket (inet_domain v6) SOCK_STREAM IPPROTO_TCP))"
  let ?log = "e_log s @ [Socket (inet_domain v6) SOCK_STREAM IPPROTO_TCP]"
  show ?thesis
    by (rule exI[of _ "word_of_int (fst (kern ?log (Fcntl_Getfl ?srv)))"])
       (simp add: create_server_socket_def server_calls_def inet_domain_def sys_def call_def Let_def split_beta)
qed

lemma rep_create:
  assumes "ample (Suc n) (e_heap s0)" and "n < 2 ^ 31"
  shows "\<exists>s flags. endpoint_create kern port v6 s0 = Inr s \<and>
    e_log s = e_log s0 @ create_calls port v6 (ep_fds s) flags \<and>
    ep_rep (mem (e_heap s0)) (ep_fds s) n s \<lparr>a_clients = {}, a_queue = [], a_log = e_log s\<rparr>"
proof -
  obtain b h where c: "boolset_create (e_heap s0) = Inr (b, h)" "bs_inv b h" "bs_members b h = {}"
    "mem (e_heap s0) (bs_data b) = None" "\<forall>a. a \<noteq> bs_data b \<longrightarrow> mem h a = mem (e_heap s0) a"
    "answers h = tl (answers (e_heap s0))" "bs_size b = 1" "bs_data b = hd (answers (e_heap s0))"
    by (rule boolset_create_ok[OF ample_can_alloc[OF assms(1)]])
  have am: "ample n h" by (rule ample_step[OF assms(1) c(6)]) (use c(5,8) in auto)
  let ?s = "s0\<lparr>e_clients_lock := Free, e_queue_lock := Free, e_clients := b, e_heap := h, e_queue := stack_create\<rparr>"
  obtain flags where f: "create_server_socket kern port v6 ?s =
    (fst (kern (e_log ?s) (Socket (inet_domain v6) SOCK_STREAM IPPROTO_TCP)),
     ?s\<lparr>e_log := e_log ?s @ server_calls port v6
        (fst (kern (e_log ?s) (Socket (inet_domain v6) SOCK_STREAM IPPROTO_TCP))) flags\<rparr>)"
    using create_server_socket_eq[of kern port v6 ?s] by blast
  have data: "ep_data (mem (e_heap s0)) ?s [] []"
    using c(2,4,5) stack_create_at by (simp add: ep_data_def built_on_def)
  note run_defs = endpoint_create_def sys_def call_def Let_def split_beta create_epoll_event_def
  obtain s where run: "endpoint_create kern port v6 s0 = Inr s"
    by (cases "endpoint_create kern port v6 s0") (use c(1) in \<open>simp_all add: run_defs\<close>)
  have "e_log s = e_log s0 @ create_calls port v6 (ep_fds s) flags"
    using run c(1) f by (auto simp: run_defs create_calls_def ep_fds_def)
  moreover have "e_clients s = b" "e_heap s = h" "e_queue s = stack_create" "e_clients_lock s = Free" "e_queue_lock s = Free"
    using run c(1) f by (auto simp: run_defs)
  ultimately show ?thesis
    using run c(3) am assms(2) data by (auto simp: ep_rep_def ep_data_def)
qed

text \<open>What \<open>accept\<close> answers when called up to \<open>k\<close> times, and the log afterwards.\<close>

fun accepted :: "kernel \<Rightarrow> int \<Rightarrow> int \<Rightarrow> 32 word \<Rightarrow> nat \<Rightarrow> syscall list \<Rightarrow> int list \<times> syscall list" where
  "accepted kern srv sel flags 0 log = ([], log)"
| "accepted kern srv sel flags (Suc k) log =
    (let fd = fst (kern log (Accept srv)) in
     if fd = -1 then ([], log @ [Accept srv])
     else let (fds, log') = accepted kern srv sel flags k (log @ [Accept srv,
            Epoll_Ctl sel EPOLL_CTL_ADD fd (Some \<lparr>ev_events = flags OR EPOLLRDHUP, ev_fd = fd\<rparr>)])
          in (fd # fds, log'))"

text \<open>The documented behaviour of \<open>accept\<close> and \<open>epoll_wait\<close>: an error is -1, a descriptor is a
  non-negative \<open>int\<close>, and as many events are stored as the result says, at most \<open>maxevents\<close>.\<close>

definition accept_documented :: "kernel \<Rightarrow> bool" where
  "accept_documented kern \<longleftrightarrow>
    (\<forall>log fd. fst (kern log (Accept fd)) = -1 \<or> fd_ok (fst (kern log (Accept fd))))"

definition epoll_documented :: "kernel \<Rightarrow> bool" where
  "epoll_documented kern \<longleftrightarrow> (\<forall>log fd n t. case kern log (Epoll_Wait fd n t) of
    (r, evs) \<Rightarrow> length evs = nat r \<and> (r = -1 \<or> 0 \<le> r \<and> r \<le> n) \<and> (\<forall>ev \<in> set evs. fd_ok (ev_fd ev)))"

lemma rep_accept_loop:
  assumes "ep_rep m (srv, lis, sel, sht) (k + n) s a" and "accept_documented kern" and "k = nat (lim - c)"
    and "0 \<le> c" and "lim \<le> int (length fds)"
  shows "\<exists>s'. accept_loop kern flags fds lim c s = Inr (c + int (length (fst (accepted kern srv sel flags k (a_log a)))),
      take (nat c) fds @ fst (accepted kern srv sel flags k (a_log a)) @
        drop (nat c + length (fst (accepted kern srv sel flags k (a_log a)))) fds, s') \<and>
    ep_rep m (srv, lis, sel, sht) n s' (a\<lparr>a_clients := a_clients a \<union> set (fst (accepted kern srv sel flags k (a_log a))),
      a_log := snd (accepted kern srv sel flags k (a_log a))\<rparr>)"
  using assms
proof (induction k arbitrary: c fds s a)
  case 0
  then show ?case by (subst accept_loop.simps) simp
next
  case (Suc k)
  note fds = rep_fds[OF Suc.prems(1)]
  let ?fd = "fst (kern (a_log a) (Accept srv))"
  let ?s = "s\<lparr>e_log := e_log s @ [Accept srv]\<rparr>" and ?a = "a\<lparr>a_log := a_log a @ [Accept srv]\<rparr>"
  have rep: "ep_rep m (srv, lis, sel, sht) (Suc k + n) ?s ?a" by (rule rep_call[OF Suc.prems(1)])
  have c: "c < lim" "0 \<le> c" "c < int (length fds)" using Suc.prems(3-5) by linarith+
  show ?case
  proof (cases "?fd = -1")
    case True
    have "accept_loop kern flags fds lim c s = Inr (c, fds, ?s)"
      using c True fds by (subst accept_loop.simps) (simp add: sys_def split_beta)
    then show ?thesis using True rep_mono[OF rep, of n] by simp
  next
    case False
    then have ok: "fd_ok ?fd" using Suc.prems(2) by (auto simp: accept_documented_def)
    from rep_register[of m "(srv, lis, sel, sht)" "k + n" ?s ?a, OF _ ok] rep obtain s1 where
      reg: "endpoint_register_client ?fd ?s = Inr s1"
      and rep1: "ep_rep m (srv, lis, sel, sht) (k + n) s1 (?a\<lparr>a_clients := insert ?fd (a_clients ?a)\<rparr>)" by auto
    let ?e = "Epoll_Ctl sel EPOLL_CTL_ADD ?fd (Some \<lparr>ev_events = flags OR EPOLLRDHUP, ev_fd = ?fd\<rparr>)"
    let ?s2 = "s1\<lparr>e_log := e_log s1 @ [?e]\<rparr>"
    let ?a2 = "a\<lparr>a_clients := insert ?fd (a_clients a), a_log := a_log a @ [Accept srv, ?e]\<rparr>"
    have rep2: "ep_rep m (srv, lis, sel, sht) (k + n) ?s2 ?a2" using rep_call[OF rep1, of "[?e]"] by simp
    have step: "accept_loop kern flags fds lim c s =
        accept_loop kern flags (fds[nat c := ?fd]) lim (c + 1) ?s2"
      using c False fds reg rep_fds[OF rep1]
      by (subst accept_loop.simps) (simp add: sys_def call_def split_beta create_epoll_event_def)
    have k: "k = nat (lim - (c + 1))" and c1: "0 \<le> c + 1" and len: "lim \<le> int (length (fds[nat c := ?fd]))"
      using Suc.prems(3-5) by auto
    let ?acc = "accepted kern srv sel flags k (a_log ?a2)"
    obtain s' where r: "accept_loop kern flags (fds[nat c := ?fd]) lim (c + 1) ?s2 =
        Inr (c + 1 + int (length (fst ?acc)), take (nat (c + 1)) (fds[nat c := ?fd]) @ fst ?acc @
          drop (nat (c + 1) + length (fst ?acc)) (fds[nat c := ?fd]), s')"
      "ep_rep m (srv, lis, sel, sht) n s' (?a2\<lparr>a_clients := a_clients ?a2 \<union> set (fst ?acc), a_log := snd ?acc\<rparr>)"
      using Suc.IH[OF rep2 Suc.prems(2) k c1 len] by blast
    have nc: "nat (c + 1) = Suc (nat c)" "nat c < length fds" using c by auto
    have acc: "accepted kern srv sel flags (Suc k) (a_log a) = (?fd # fst ?acc, snd ?acc)"
      using False by (simp add: Let_def split_beta)
    have un: "insert ?fd (a_clients a) \<union> set (fst ?acc) = a_clients a \<union> insert ?fd (set (fst ?acc))" by blast
    show ?thesis
      unfolding acc step using r nc un by (auto simp: take_Suc_conv_app_nth take_update_cancel drop_update_cancel)
  qed
qed

text \<open>The clients that hung up among the events, in the order of the events.\<close>

definition hangups :: "epoll_event list \<Rightarrow> int list" where
  "hangups evs = map ev_fd (filter (\<lambda>ev. ev_events ev AND EPOLLRDHUP \<noteq> 0) evs)"

lemma rep_wait_loop:
  assumes "ep_rep m F (2 * length rest + n) s a" and "\<forall>ev \<in> set rest. fd_ok (ev_fd ev)"
    and "evs = pre @ rest" and "length evs \<le> length fds" and "length evs \<le> length flags"
  shows "\<exists>s'. wait_loop evs (int (length evs)) (int (length pre)) fds flags s =
      Inr (take (length pre) fds @ map ev_fd rest @ drop (length evs) fds,
        take (length pre) flags @ map (\<lambda>ev. sint (ev_events ev)) rest @ drop (length evs) flags, s') \<and>
    ep_rep m F n s' (a\<lparr>a_queue := rev (hangups rest) @ a_queue a\<rparr>)"
  using assms
proof (induction rest arbitrary: pre fds flags s a)
  case Nil
  then show ?case by (subst wait_loop.simps) (simp add: hangups_def)
next
  case (Cons ev rest)
  have ok: "fd_ok (ev_fd ev)" using Cons.prems(2) by simp
  have rep2: "ep_rep m F (Suc (Suc (2 * length rest + n))) s a" using Cons.prems(1) by simp
  let ?a = "if ev_events ev AND EPOLLRDHUP \<noteq> 0 then a\<lparr>a_queue := ev_fd ev # a_queue a\<rparr> else a"
  obtain s1 where s1: "(if ev_events ev AND EPOLLRDHUP \<noteq> 0
      then endpoint_enqueue_client_for_disconnection (ev_fd ev) s else Inr s) = Inr s1"
    and rep1: "ep_rep m F (2 * length rest + n) s1 ?a"
  proof (cases "ev_events ev AND EPOLLRDHUP \<noteq> 0")
    case True
    then show thesis using rep_enqueue[OF rep2 ok] that by auto
  next
    case False
    then show thesis using rep_mono[OF rep2, of "2 * length rest + n"] that by simp
  qed
  let ?i = "length pre"
  let ?fds = "fds[?i := ev_fd ev]" and ?fl = "flags[?i := sint (ev_events ev)]"
  have at: "evs ! ?i = ev" "?i < length evs" using Cons.prems(3) by simp_all
  have step: "wait_loop evs (int (length evs)) (int ?i) fds flags s =
      wait_loop evs (int (length evs)) (int (length (pre @ [ev]))) ?fds ?fl s1"
    using at Cons.prems(4,5) s1 by (subst wait_loop.simps) (simp add: Let_def add.commute)
  obtain s' where r: "wait_loop evs (int (length evs)) (int (length (pre @ [ev]))) ?fds ?fl s1 =
      Inr (take (length (pre @ [ev])) ?fds @ map ev_fd rest @ drop (length evs) ?fds,
        take (length (pre @ [ev])) ?fl @ map (\<lambda>ev. sint (ev_events ev)) rest @ drop (length evs) ?fl, s')"
    "ep_rep m F n s' (?a\<lparr>a_queue := rev (hangups rest) @ a_queue ?a\<rparr>)"
    using Cons.IH[OF rep1, of "pre @ [ev]" ?fds ?fl] Cons.prems(2-5) by auto
  have q: "?a\<lparr>a_queue := rev (hangups rest) @ a_queue ?a\<rparr> = a\<lparr>a_queue := rev (hangups (ev # rest)) @ a_queue a\<rparr>"
    by (simp add: hangups_def)
  have tk: "take (length (pre @ [ev])) (xs[?i := x]) = take ?i xs @ [x]" "drop (length evs) (xs[?i := x]) = drop (length evs) xs"
    if "length evs \<le> length xs" for xs :: "int list" and x
    using that at(2) by (simp_all add: take_Suc_conv_app_nth)
  show ?case
    unfolding step using r(1) r(2)[unfolded q] tk[OF Cons.prems(4)] tk[OF Cons.prems(5)] by auto
qed

lemma epoll_documentedD:
  assumes "epoll_documented kern" and "kern log (Epoll_Wait fd n t) = (r, evs)"
  shows "length evs = nat r" and "r = -1 \<or> 0 \<le> r \<and> r \<le> n" and "\<forall>ev \<in> set evs. fd_ok (ev_fd ev)"
proof -
  have "case kern log (Epoll_Wait fd n t) of
    (r, evs) \<Rightarrow> length evs = nat r \<and> (r = -1 \<or> 0 \<le> r \<and> r \<le> n) \<and> (\<forall>ev \<in> set evs. fd_ok (ev_fd ev))"
    using spec[OF spec[OF spec[OF spec[OF assms(1)[unfolded epoll_documented_def], of log], of fd], of n], of t] .
  then show "length evs = nat r" and "r = -1 \<or> 0 \<le> r \<and> r \<le> n" and "\<forall>ev \<in> set evs. fd_ok (ev_fd ev)"
    using assms(2) by simp_all
qed

lemma rep_wait_event:
  assumes "ep_rep m (srv, lis, sel, sht) (2 * length evs + n) s a" and "epoll_documented kern"
    and "kern (a_log a) (Epoll_Wait sel (min max_events 42) timeout) = (r, evs)"
    and "max_events \<le> int (length fds)" and "max_events \<le> int (length flags)"
  shows "\<exists>s'. endpoint_wait_event kern fds flags max_events timeout s =
      Inr (r, map ev_fd evs @ drop (length evs) fds, map (\<lambda>ev. sint (ev_events ev)) evs @ drop (length evs) flags, s') \<and>
    length evs = nat r \<and> (r = -1 \<or> 0 \<le> r \<and> r \<le> max_events \<and> r \<le> 42) \<and>
    ep_rep m (srv, lis, sel, sht) n s' (a\<lparr>a_queue := rev (hangups evs) @ a_queue a,
      a_log := a_log a @ [Epoll_Wait sel (min max_events 42) timeout]\<rparr>)"
proof -
  note f = rep_fds[OF assms(1)]
  let ?w = "[Epoll_Wait sel (min max_events 42) timeout]"
  note k = epoll_documentedD[OF assms(2,3)]
  have len: "length evs \<le> length fds" "length evs \<le> length flags" using k(1,2) assms(4,5) by auto
  have ext: "(if max_events < EVENTS_EXTRACT_SIZE then max_events else EVENTS_EXTRACT_SIZE) = min max_events 42"
    by (simp add: EVENTS_EXTRACT_SIZE_def min_def)
  have rep: "ep_rep m (srv, lis, sel, sht) (2 * length evs + n) (s\<lparr>e_log := e_log s @ ?w\<rparr>) (a\<lparr>a_log := a_log a @ ?w\<rparr>)"
    by (rule rep_call[OF assms(1)])
  have swap: "a\<lparr>a_log := l, a_queue := q\<rparr> = a\<lparr>a_queue := q, a_log := l\<rparr>" for l q by simp
  from rep_wait_loop[OF rep k(3) _ len, of "[]"] obtain s' where
    l: "wait_loop evs (int (length evs)) 0 fds flags (s\<lparr>e_log := e_log s @ ?w\<rparr>) =
      Inr (map ev_fd evs @ drop (length evs) fds, map (\<lambda>ev. sint (ev_events ev)) evs @ drop (length evs) flags, s')"
    "ep_rep m (srv, lis, sel, sht) n s' (a\<lparr>a_queue := rev (hangups evs) @ a_queue a, a_log := a_log a @ ?w\<rparr>)"
    by (auto simp: swap)
  have "wait_loop evs r 0 fds flags s1 = wait_loop evs (int (length evs)) 0 fds flags s1" for s1
    using k(1,2) by (cases "r = -1") (auto simp: wait_loop.simps[of "[]"])
  then have "endpoint_wait_event kern fds flags max_events timeout s =
      Inr (r, map ev_fd evs @ drop (length evs) fds, map (\<lambda>ev. sint (ev_events ev)) evs @ drop (length evs) flags, s')"
    using l(1) f assms(3) ext by (simp add: endpoint_wait_event_def sys_def)
  then show ?thesis using l(2) k(1,2) by auto
qed

section \<open>Closing\<close>

definition close_calls :: "int \<times> int \<times> int \<times> int \<Rightarrow> int list \<Rightarrow> syscall list" where
  "close_calls F clients = (case F of (srv, lis, sel, sht) \<Rightarrow>
    Close srv # concat (map (disc_calls sel) clients) @
    [Epoll_Ctl lis EPOLL_CTL_DEL srv None, Epoll_Ctl lis EPOLL_CTL_DEL sht None, Epoll_Ctl sel EPOLL_CTL_DEL sht None,
     Close lis, Close sel, Close sht])"

lemma rep_close:
  assumes "ep_rep m F n s a"
  shows "\<exists>s'. endpoint_close kern s = Inr s' \<and> mem (e_heap s') = m \<and>
    e_log s' = a_log a @ close_calls F (sorted_list_of_set (a_clients a)) \<and>
    e_clients_lock s' = Destroyed \<and> e_queue_lock s' = Destroyed"
proof -
  obtain srv lis sel sht where F: "F = (srv, lis, sel, sht)" by (cases F)
  let ?s = "s\<lparr>e_log := e_log s @ [Close srv]\<rparr>" and ?a = "a\<lparr>a_log := a_log a @ [Close srv]\<rparr>"
  have rep: "ep_rep m F n ?s ?a" by (rule rep_call[OF assms])
  from rep_disconnect_all[OF rep, of kern] F obtain s1 where d: "endpoint_disconnect_all_clients kern ?s = Inr (None, s1)"
    "ep_rep m F n s1 (?a\<lparr>a_clients := {}, a_queue := [],
      a_log := a_log ?a @ concat (map (disc_calls sel) (sorted_list_of_set (a_clients a)))\<rparr>)" by auto
  have r1: "ep_rep m (srv, lis, sel, sht) n s1 (?a\<lparr>a_clients := {}, a_queue := [],
      a_log := a_log ?a @ concat (map (disc_calls sel) (sorted_list_of_set (a_clients a)))\<rparr>)" using d(2) F by simp
  note f = rep_fds[OF assms[unfolded F]] rep_fds[OF r1]
  have locks: "e_clients_lock s1 = Free" "e_queue_lock s1 = Free" using r1 by (simp_all add: ep_rep_def)
  obtain ps where dat: "ep_data m s1 ps []" using r1 by (auto simp: ep_rep_def)
  then have parts: "bs_inv (e_clients s1) (e_heap s1)" "stack_at (e_queue s1) (e_heap s1) ps []"
    "built_on m (bs_data (e_clients s1) # ps) (e_heap s1)" by (simp_all add: ep_data_def)
  then have ps: "ps = []" by (cases ps) (simp_all add: stack_at_def)
  let ?h = "del_block (bs_data (e_clients s1)) (e_heap s1)"
  have st: "stack_at (e_queue s1) h [] []" for h using parts(2) ps by (auto simp: stack_at_def)
  have mem: "mem ?h = m" using parts(3) ps by (auto simp: built_on_def)
  show ?thesis
    using d(1) f locks boolset_destroy_ok[OF parts(1)] stack_empty_ok[OF st] mem F
    by (simp add: endpoint_close_def call_def sys_def Let_def lock_clients_def unlock_clients_def close_calls_def
      endpoint_clear_disconnection_queue_def lock_queue_def unlock_queue_def stack_destroy_def destroy_locks_def)
qed

end
