(* ===== verification/Endpoint_Properties.thy ===== *)
theory Endpoint_Properties
  imports Endpoint_Refinement
begin

text \<open>
  The properties of the endpoint, for every kernel, with a concrete kernel and a concrete heap that
  their witnesses run on.
\<close>

section \<open>A concrete run\<close>

text \<open>A kernel that hands out the descriptors 3, 4, 5 and 6, lets two clients in (7 and 8) and
  reports the second one as hung up.\<close>

definition calls_of :: "(syscall \<Rightarrow> bool) \<Rightarrow> syscall list \<Rightarrow> nat" where
  "calls_of P log = length (filter P log)"

fun demo_kernel :: kernel where
  "demo_kernel log (Socket d t p) = (3, [])"
| "demo_kernel log (Epoll_Create fl) = (if Epoll_Create 0 \<in> set log then 5 else 4, [])"
| "demo_kernel log (Eventfd v fl) = (6, [])"
| "demo_kernel log (Accept fd) = (if calls_of (\<lambda>c. c = Accept fd) log < 2 then 7 + int (calls_of (\<lambda>c. c = Accept fd) log) else -1, [])"
| "demo_kernel log (Epoll_Wait fd n t) =
     (if fd = 4 \<and> 1 \<le> n \<and> t \<noteq> 0 then (1, [\<lparr>ev_events = EPOLLIN, ev_fd = 3\<rparr>])
      else if fd = 5 \<and> 2 \<le> n then (2, [\<lparr>ev_events = EPOLLIN, ev_fd = 7\<rparr>, \<lparr>ev_events = EPOLLIN OR EPOLLRDHUP, ev_fd = 8\<rparr>])
      else (-1, []))"
| "demo_kernel log _ = (0, [])"

definition ep0 :: ep where
  "ep0 = \<lparr>e_srv_fd = 0, e_ep_listener = 0, e_ep_selector = 0, e_shutdown_fd = 0,
     e_clients = \<lparr>bs_size = 0, bs_data = 0\<rparr>, e_clients_lock = Destroyed, e_queue_lock = Destroyed,
     e_queue = \<lparr>s_top = 0\<rparr>, e_heap = heap8, e_log = []\<rparr>"

text \<open>The same with forty blocks to allocate.\<close>

definition ep40 :: ep where
  "ep40 = ep0\<lparr>e_heap := \<lparr>mem = (\<lambda>_. None), answers = map word_of_nat [10..<50]\<rparr>\<rparr>"

lemma demo_ample: "ample 40 (e_heap ep40)" by code_simp

lemma demo_accept_documented: "accept_documented demo_kernel"
  by (simp add: accept_documented_def fd_ok_def)

lemma demo_epoll_documented: "epoll_documented demo_kernel"
  by (simp add: epoll_documented_def fd_ok_def)

definition book0 :: "client_book \<Rightarrow> bool" where
  "book0 a \<longleftrightarrow> a_clients a = {} \<and> a_queue a = []"

lemma demo_create:
  obtains s a where "endpoint_create demo_kernel 8080 False ep0 = Inr s" and "book0 a" and "a_log a = e_log s"
    and "ep_rep (\<lambda>_. None) (3, 4, 5, 6) 7 s a" and "calls_of (\<lambda>c. c = Accept 3) (a_log a) = 0"
proof -
  have am: "ample (Suc 7) (e_heap ep0)" using ample_heap8 by (simp add: ep0_def)
  from rep_create[OF am, of demo_kernel 8080 False] obtain s flags where
    s: "endpoint_create demo_kernel 8080 False ep0 = Inr s"
      "e_log s = e_log ep0 @ create_calls 8080 False (ep_fds s) flags"
      "ep_rep (mem (e_heap ep0)) (ep_fds s) 7 s \<lparr>a_clients = {}, a_queue = [], a_log = e_log s\<rparr>" by auto
  have fds: "ep_fds s = (3, 4, 5, 6)"
    using s(1) by (auto simp: endpoint_create_def create_server_socket_def sys_def call_def Let_def split_beta
      rbind_Inr_iff ep_fds_def ep0_def)
  have m: "mem (e_heap ep0) = (\<lambda>_. None)" by (simp add: ep0_def heap8_def)
  have "calls_of (\<lambda>c. c = Accept 3) (e_log s) = 0"
    using s(2) by (simp add: calls_of_def ep0_def create_calls_def server_calls_def fds)
  then show thesis using that[OF s(1), of "\<lparr>a_clients = {}, a_queue = [], a_log = e_log s\<rparr>"] s(3) fds m by (simp add: book0_def)
qed

section \<open>Properties\<close>

text \<open>C21: Refinement.  Whatever the kernel answers, every sequence of registrations, queued hangups,
  disconnections, \<open>endpoint_close_hungups\<close> and \<open>endpoint_disconnect_all_clients\<close> on a new endpoint
  returns, keeps exactly the connected clients and the hangup queue of the abstract client book,
  leaves both locks free and makes exactly the book's system calls in the book's order, while the
  allocator grants what the operations may need.\<close>

theorem endpoint_refines:
  assumes "ample (Suc (sum_list (map op_cost ops))) (e_heap s0)" and "sum_list (map op_cost ops) < 2 ^ 31"
    and "\<forall>p \<in> set ops. op_legal p"
  shows "\<exists>s s1 rs a. endpoint_create kern port v6 s0 = Inr s \<and>
    spec_steps (book_step (e_ep_selector s)) ops \<lparr>a_clients = {}, a_queue = [], a_log = e_log s\<rparr> = (rs, a) \<and>
    run_steps (ep_step kern) ops s = Inr (rs, s1) \<and> ep_rep (mem (e_heap s0)) (ep_fds s) 0 s1 a"
proof -
  from rep_create[OF assms(1,2), of kern port v6] obtain s where s: "endpoint_create kern port v6 s0 = Inr s"
    "ep_rep (mem (e_heap s0)) (ep_fds s) (sum_list (map op_cost ops) + 0) s \<lparr>a_clients = {}, a_queue = [], a_log = e_log s\<rparr>"
    by auto
  have "fst (snd (snd (ep_fds s))) = e_ep_selector s" by (simp add: ep_fds_def)
  with endpoint_ops.steps_ok[OF s(2) assms(3), of kern] s(1) show ?thesis by (metis prod.collapse)
qed

lemma endpoint_refines_witness:
  "\<exists>s s1. endpoint_create demo_kernel 8080 False ep0 = Inr s \<and>
     run_steps (ep_step demo_kernel) [Register 7, Register 9, Enqueue 9, Close_Hungups] s = Inr ([None, None, None, Some 1], s1) \<and>
     e_log s1 = e_log s @ disc_calls (e_ep_selector s) 9 \<and> members s1 = {7}"
proof -
  let ?ops = "[Register 7, Register 9, Enqueue 9, Close_Hungups]"
  have "ample (Suc (sum_list (map op_cost ?ops))) (e_heap ep0)"
    by (rule ample_mono[of 8]) (simp_all add: ep0_def ample_heap8)
  from endpoint_refines[OF this, of demo_kernel 8080 False] show ?thesis
    by (auto simp: fd_ok_def ep_rep_def insert_Diff_if)
qed

text \<open>\<open>endpoint_create\<close> returns with no client, an empty queue and free locks, after exactly these
  system calls: the socket is created, made non-blocking, bound and listened on, then the two epoll
  instances and the event descriptor are created and the server socket is watched.  The address is a
  \<open>sockaddr_in\<close> for both families, so an IPv6 socket is bound to an address of the wrong type.\<close>

theorem endpoint_create_calls:
  assumes "can_alloc (e_heap s0)"
  shows "\<exists>s flags. endpoint_create kern port v6 s0 = Inr s \<and>
    e_log s = e_log s0 @ create_calls port v6 (ep_fds s) flags \<and> members s = {} \<and>
    stack_is_empty (e_queue s) \<and> e_clients_lock s = Free \<and> e_queue_lock s = Free \<and>
    Bind (e_srv_fd s) \<lparr>sin_family = (if v6 then 10 else 2), sin_port = htons port, sin_addr = 0\<rparr> \<in> set (e_log s)"
proof -
  have am: "ample (Suc 0) (e_heap s0)"
    using assms by (cases "answers (e_heap s0)") (auto simp: can_alloc_def ample_def)
  from rep_create[OF am, of kern port v6] obtain s flags where s: "endpoint_create kern port v6 s0 = Inr s"
    "e_log s = e_log s0 @ create_calls port v6 (ep_fds s) flags"
    "ep_rep (mem (e_heap s0)) (ep_fds s) 0 s \<lparr>a_clients = {}, a_queue = [], a_log = e_log s\<rparr>" by auto
  from s(3) obtain ps where "stack_at (e_queue s) (e_heap s) ps []" by (auto simp: ep_rep_def ep_data_def)
  then have "stack_is_empty (e_queue s)" using stack_is_empty_iff by blast
  moreover have "Bind (e_srv_fd s) \<lparr>sin_family = (if v6 then 10 else 2), sin_port = htons port, sin_addr = 0\<rparr> \<in> set (e_log s)"
    by (simp add: s(2) create_calls_def server_calls_def ep_fds_def inet_domain_def AF_INET_def AF_INET6_def)
  ultimately show ?thesis using s by (auto simp: ep_rep_def)
qed

lemma endpoint_create_calls_witness:
  "\<exists>s flags. endpoint_create demo_kernel 8080 True ep0 = Inr s \<and>
    e_log s = create_calls 8080 True (ep_fds s) flags \<and> members s = {}"
proof -
  have "can_alloc (e_heap ep0)" by (simp add: ep0_def heap8_def can_alloc_def)
  from endpoint_create_calls[OF this, of demo_kernel 8080 True] show ?thesis by (auto simp: ep0_def)
qed

text \<open>C24: When the listener reports an event other than a hangup, \<open>endpoint_accept\<close> accepts clients until
  \<open>accept\<close> answers -1 or the array is full; it returns how many it accepted, stores exactly their
  descriptors at the front of the array and leaves its rest, registers each of them as connected and adds
  it to the selector with \<open>EPOLLRDHUP\<close>, whatever the caller's flags.\<close>

theorem endpoint_accept_registers:
  assumes "ep_rep m (srv, lis, sel, sht) (nat lim + n) s a" and "accept_documented kern"
    and "0 \<le> lim" and "lim \<le> int (length new_fds)"
    and "kern (a_log a) (Epoll_Wait lis 1 timeout) = (r, ev # evs)" and "ev_events ev AND EPOLLHUP = 0"
    and "accepted kern srv sel flags (nat lim) (a_log a @ [Epoll_Wait lis 1 timeout]) = (acc, log)"
  shows "\<exists>s'. endpoint_accept kern new_fds lim timeout flags s =
      Inr (int (length acc), acc @ drop (length acc) new_fds, s') \<and>
    ep_rep m (srv, lis, sel, sht) n s' (a\<lparr>a_clients := a_clients a \<union> set acc, a_log := log\<rparr>) \<and>
    int (length acc) \<le> lim \<and>
    (\<forall>fd \<in> set acc. Epoll_Ctl sel EPOLL_CTL_ADD fd (Some \<lparr>ev_events = flags OR EPOLLRDHUP, ev_fd = fd\<rparr>) \<in> set log)"
proof -
  note f = rep_fds[OF assms(1)]
  let ?w = "[Epoll_Wait lis 1 timeout]"
  have acc_len: "length (fst (accepted kern srv sel flags k l)) \<le> k" for k l
    by (induction k arbitrary: l) (auto simp: Let_def split_beta)
  have grows: "set l \<subseteq> set (snd (accepted kern srv sel flags k l))" for k l
    by (induction k arbitrary: l) (fastforce simp: Let_def split_beta)+
  have adds: "\<forall>fd \<in> set (fst (accepted kern srv sel flags k l)).
      Epoll_Ctl sel EPOLL_CTL_ADD fd (Some \<lparr>ev_events = flags OR EPOLLRDHUP, ev_fd = fd\<rparr>) \<in> set (snd (accepted kern srv sel flags k l))"
    for k l
  proof (induction k arbitrary: l)
    case (Suc k)
    let ?l = "l @ [Accept srv, Epoll_Ctl sel EPOLL_CTL_ADD (fst (kern l (Accept srv)))
      (Some \<lparr>ev_events = flags OR EPOLLRDHUP, ev_fd = fst (kern l (Accept srv))\<rparr>)]"
    show ?case using Suc[of ?l] grows[of ?l k] by (auto simp: Let_def split_beta)
  qed simp
  have "ep_rep m (srv, lis, sel, sht) (nat lim + n) (s\<lparr>e_log := e_log s @ ?w\<rparr>) (a\<lparr>a_log := a_log a @ ?w\<rparr>)"
    by (rule rep_call[OF assms(1)])
  from rep_accept_loop[OF this assms(2), of lim 0 new_fds flags] assms(3,4,7) obtain s' where
    "accept_loop kern flags new_fds lim 0 (s\<lparr>e_log := e_log s @ ?w\<rparr>) =
       Inr (int (length acc), acc @ drop (length acc) new_fds, s')"
    "ep_rep m (srv, lis, sel, sht) n s' (a\<lparr>a_clients := a_clients a \<union> set acc, a_log := log\<rparr>)" by auto
  then show ?thesis
    using assms(3,5,6,7) f acc_len[of "nat lim" "a_log a @ ?w"] adds[of "nat lim" "a_log a @ ?w"]
    by (auto simp: endpoint_accept_def sys_def)
qed

lemma endpoint_accept_registers_witness:
  "\<exists>s s'. endpoint_create demo_kernel 8080 False ep0 = Inr s \<and>
     endpoint_accept demo_kernel [0, 0, 0] 3 10 EPOLLIN s = Inr (2, [7, 8, 0], s') \<and> members s' = {7, 8}"
proof -
  obtain s a where s: "endpoint_create demo_kernel 8080 False ep0 = Inr s" "book0 a" "a_log a = e_log s"
    "ep_rep (\<lambda>_. None) (3, 4, 5, 6) 7 s a" "calls_of (\<lambda>c. c = Accept 3) (a_log a) = 0" by (rule demo_create)
  have rep: "ep_rep (\<lambda>_. None) (3, 4, 5, 6) (nat 3 + 4) s a" using s(4) by simp
  obtain log where "accepted demo_kernel 3 5 EPOLLIN (nat 3) (a_log a @ [Epoll_Wait 4 1 10]) = ([7, 8], log)"
    using s(5) by (simp add: eval_nat_numeral calls_of_def)
  from endpoint_accept_registers[OF rep demo_accept_documented _ _ _ _ this, of "[0, 0, 0]" 1 "\<lparr>ev_events = EPOLLIN, ev_fd = 3\<rparr>" "[]"]
    s(1,2) show ?thesis by (auto simp: ep_rep_def book0_def EPOLLIN_def EPOLLHUP_def)
qed

text \<open>\<open>endpoint_accept\<close> ignores the result of \<open>epoll_wait\<close>: when that reports no event, because the
  time ran out, a signal came or the descriptor is bad, the function reads the event structure that
  nothing has written.\<close>

theorem endpoint_accept_no_event:
  assumes "epoll_documented kern" and "fst (kern (e_log s) (Epoll_Wait (e_ep_listener s) 1 timeout)) \<le> 0"
  shows "endpoint_accept kern new_fds lim timeout flags s = Inl Uninit_Read"
proof -
  obtain r evs where k: "kern (e_log s) (Epoll_Wait (e_ep_listener s) 1 timeout) = (r, evs)" by fastforce
  then have "length evs = nat r" by (rule epoll_documentedD[OF assms(1)])
  then have "evs = []" using assms(2) k by simp
  then show ?thesis using k by (simp add: endpoint_accept_def sys_def)
qed

lemma endpoint_accept_no_event_witness:
  "endpoint_accept demo_kernel [0] 1 0 EPOLLIN (ep0\<lparr>e_ep_listener := 4\<rparr>) = Inl Uninit_Read"
  by (rule endpoint_accept_no_event[OF demo_epoll_documented]) simp

text \<open>C25: \<open>endpoint_wait_event\<close> reports exactly the events the selector returns, never more than
  \<open>max_events\<close> nor than the 42 its buffer holds, writes them to the front of both arrays and leaves the
  rest of the arrays, and queues exactly the clients that hung up; when the selector fails it returns -1
  and writes nothing.\<close>

theorem endpoint_wait_event_reports:
  assumes "ep_rep m (srv, lis, sel, sht) (2 * length evs + n) s a" and "epoll_documented kern"
    and "kern (a_log a) (Epoll_Wait sel (min max_events 42) timeout) = (r, evs)"
    and "max_events \<le> int (length fds)" and "max_events \<le> int (length flags)"
  shows "\<exists>s'. endpoint_wait_event kern fds flags max_events timeout s =
      Inr (r, map ev_fd evs @ drop (length evs) fds, map (\<lambda>ev. sint (ev_events ev)) evs @ drop (length evs) flags, s') \<and>
    length evs = nat r \<and> (r = -1 \<or> 0 \<le> r \<and> r \<le> max_events \<and> r \<le> 42) \<and>
    ep_rep m (srv, lis, sel, sht) n s' (a\<lparr>a_queue := rev (hangups evs) @ a_queue a,
      a_log := a_log a @ [Epoll_Wait sel (min max_events 42) timeout]\<rparr>)"
  by (rule rep_wait_event[OF assms])

lemma endpoint_wait_event_reports_witness:
  "\<exists>s s'. endpoint_create demo_kernel 8080 False ep0 = Inr s \<and>
     endpoint_wait_event demo_kernel [0, 0, 0] [0, 0, 0] 3 10 s = Inr (2, [7, 8, 0], [1, 8193, 0], s') \<and>
     \<not> stack_is_empty (e_queue s')"
proof -
  obtain s a where s: "endpoint_create demo_kernel 8080 False ep0 = Inr s" "book0 a" "a_log a = e_log s"
    "ep_rep (\<lambda>_. None) (3, 4, 5, 6) 7 s a" by (rule demo_create)
  let ?evs = "[\<lparr>ev_events = EPOLLIN, ev_fd = 7\<rparr>, \<lparr>ev_events = EPOLLIN OR EPOLLRDHUP, ev_fd = 8\<rparr>]"
  have rep: "ep_rep (\<lambda>_. None) (3, 4, 5, 6) (2 * length ?evs + 3) s a" using s(4) by simp
  have k: "demo_kernel (a_log a) (Epoll_Wait 5 (min 3 42) 10) = (2, ?evs)" by simp
  have hang: "hangups ?evs = [8]" by (simp add: hangups_def EPOLLIN_def EPOLLRDHUP_def)
  from endpoint_wait_event_reports[OF rep demo_epoll_documented k, of "[0, 0, 0]" "[0, 0, 0]"] obtain s' where
    s': "endpoint_wait_event demo_kernel [0, 0, 0] [0, 0, 0] 3 10 s =
      Inr (2, map ev_fd ?evs @ [0], map (\<lambda>ev. sint (ev_events ev)) ?evs @ [0], s')"
    "ep_rep (\<lambda>_. None) (3, 4, 5, 6) 3 s' (a\<lparr>a_queue := rev (hangups ?evs) @ a_queue a,
      a_log := a_log a @ [Epoll_Wait 5 (min 3 42) 10]\<rparr>)" by auto
  have "\<not> stack_is_empty (e_queue s')"
    using s'(2) hang stack_is_empty_iff by (fastforce simp: ep_rep_def ep_data_def)
  then show ?thesis using s(1) s'(1) by (auto simp: EPOLLIN_def EPOLLRDHUP_def)
qed

text \<open>C23: Closing releases everything.  After any legal sequence of operations on a new endpoint,
  \<open>endpoint_close\<close> returns, both locks are destroyed, exactly the blocks that were live before
  \<open>endpoint_create\<close> are live, and its system calls are: the server socket is closed, every client still
  connected is removed from the selector, shut down and closed once, in ascending order, and both epoll
  instances and the event descriptor are closed.\<close>

theorem endpoint_close_releases:
  assumes "ample (Suc (sum_list (map op_cost ops))) (e_heap s0)" and "sum_list (map op_cost ops) < 2 ^ 31"
    and "\<forall>p \<in> set ops. op_legal p"
  shows "\<exists>s s1 s2 rs. endpoint_create kern port v6 s0 = Inr s \<and> run_steps (ep_step kern) ops s = Inr (rs, s1) \<and>
    endpoint_close kern s1 = Inr s2 \<and> mem (e_heap s2) = mem (e_heap s0) \<and>
    e_clients_lock s2 = Destroyed \<and> e_queue_lock s2 = Destroyed \<and>
    e_log s2 = e_log s1 @ close_calls (ep_fds s) (sorted_list_of_set (a_clients
      (snd (spec_steps (book_step (e_ep_selector s)) ops \<lparr>a_clients = {}, a_queue = [], a_log = e_log s\<rparr>))))"
proof -
  from rep_create[OF assms(1,2), of kern port v6] obtain s where s: "endpoint_create kern port v6 s0 = Inr s"
    "ep_rep (mem (e_heap s0)) (ep_fds s) (sum_list (map op_cost ops) + 0) s \<lparr>a_clients = {}, a_queue = [], a_log = e_log s\<rparr>"
    by auto
  have sel: "fst (snd (snd (ep_fds s))) = e_ep_selector s" by (simp add: ep_fds_def)
  let ?a = "snd (spec_steps (book_step (e_ep_selector s)) ops \<lparr>a_clients = {}, a_queue = [], a_log = e_log s\<rparr>)"
  obtain rs s1 where s1: "run_steps (ep_step kern) ops s = Inr (rs, s1)" "ep_rep (mem (e_heap s0)) (ep_fds s) 0 s1 ?a"
    using endpoint_ops.steps_ok[OF s(2) assms(3), of kern] sel by auto
  have "a_log ?a = e_log s1" using s1(2) by (simp add: ep_rep_def)
  with rep_close[OF s1(2), of kern] s(1) s1(1) show ?thesis by auto
qed

lemma endpoint_close_releases_witness:
  "\<exists>s s1 s2 rs. endpoint_create demo_kernel 8080 False ep0 = Inr s \<and>
     run_steps (ep_step demo_kernel) [Register 9, Register 7, Enqueue 9] s = Inr (rs, s1) \<and>
     endpoint_close demo_kernel s1 = Inr s2 \<and> mem (e_heap s2) = (\<lambda>_. None) \<and>
     e_log s2 = e_log s1 @ close_calls (ep_fds s) [7, 9]"
proof -
  let ?ops = "[Register 9, Register 7, Enqueue 9]"
  have "ample (Suc (sum_list (map op_cost ?ops))) (e_heap ep0)"
    by (rule ample_mono[of 8]) (simp_all add: ep0_def ample_heap8)
  from endpoint_close_releases[OF this, of demo_kernel 8080 False] show ?thesis
    by (auto simp: fd_ok_def ep0_def heap8_def sorted_list_of_set_nonempty)
qed

text \<open>A queued hangup names a descriptor, not a connection: when the client is disconnected otherwise
  and the kernel gives its number to a new client before \<open>endpoint_close_hungups\<close> runs, the new client is
  removed from the connected ones and its socket is closed.\<close>

theorem stale_hangup_closes_new_client:
  assumes "ep_rep m (srv, lis, sel, sht) (5 + n) s a" and "fd_ok fd" and "a_queue a = []"
  shows "\<exists>s'. run_steps (ep_step kern) [Enqueue fd, Disconnect fd, Register fd, Close_Hungups] s =
      Inr ([None, Some 0, None, Some 1], s') \<and> word_of_int fd \<notin> members s' \<and>
    e_log s' = e_log s @ disc_calls sel fd @ disc_calls sel fd"
proof -
  have rep: "ep_rep m (srv, lis, sel, sht) (sum_list (map op_cost [Enqueue fd, Disconnect fd, Register fd, Close_Hungups]) + (1 + n)) s a"
    using assms(1) by simp
  have spec: "spec_steps (book_step sel) [Enqueue fd, Disconnect fd, Register fd, Close_Hungups] a =
      ([None, Some 0, None, Some 1], a\<lparr>a_queue := [], a_clients := a_clients a - {fd},
        a_log := a_log a @ disc_calls sel fd @ disc_calls sel fd\<rparr>)"
    using assms(3) by simp
  have legal: "\<forall>p \<in> set [Enqueue fd, Disconnect fd, Register fd, Close_Hungups]. op_legal p" using assms(2) by simp
  obtain s' where s': "run_steps (ep_step kern) [Enqueue fd, Disconnect fd, Register fd, Close_Hungups] s =
      Inr ([None, Some 0, None, Some 1], s')"
    "ep_rep m (srv, lis, sel, sht) (1 + n) s' (a\<lparr>a_queue := [], a_clients := a_clients a - {fd},
      a_log := a_log a @ disc_calls sel fd @ disc_calls sel fd\<rparr>)"
    using endpoint_ops.steps_ok[OF rep legal, of kern, unfolded fst_conv snd_conv spec] by blast
  have "word_of_int fd \<notin> members s'" using s'(2) assms(2) fd_word_inj by (fastforce simp: ep_rep_def)
  then show ?thesis using s' rep_fds(5)[OF assms(1)] by (auto simp: ep_rep_def)
qed

lemma stale_hangup_closes_new_client_witness:
  "\<exists>s s'. endpoint_create demo_kernel 8080 False ep0 = Inr s \<and>
     run_steps (ep_step demo_kernel) [Enqueue 7, Disconnect 7, Register 7, Close_Hungups] s = Inr ([None, Some 0, None, Some 1], s') \<and>
     7 \<notin> members s' \<and> e_log s' = e_log s @ disc_calls 5 7 @ disc_calls 5 7"
proof -
  obtain s a where s: "endpoint_create demo_kernel 8080 False ep0 = Inr s" "book0 a" "a_log a = e_log s"
    "ep_rep (\<lambda>_. None) (3, 4, 5, 6) 7 s a" by (rule demo_create)
  have rep: "ep_rep (\<lambda>_. None) (3, 4, 5, 6) (5 + 2) s a" using s(4) by simp
  have ok: "fd_ok 7" by (simp add: fd_ok_def)
  have q: "a_queue a = []" using s(2) by (simp add: book0_def)
  from stale_hangup_closes_new_client[OF rep ok q, of demo_kernel] s(1) show ?thesis by auto
qed

text \<open>C29: \<open>endpoint_disconnect_all_clients\<close>, which clears each client's bit while it loops over the set, does
  exactly what disconnecting the connected clients one by one, in ascending order, and then clearing
  the hangup queue would do: the same faults and the same final state, heap and system calls included.\<close>

theorem disconnect_all_is_disconnect_each:
  assumes "ep_rep m F n s a"
  shows "endpoint_disconnect_all_clients kern s =
    rbind (rfold (\<lambda>fd s. rbind (endpoint_disconnect_client kern fd s) (\<lambda>(_, s). Inr s))
      (sorted_list_of_set (a_clients a)) s) (\<lambda>s.
    rbind (endpoint_clear_disconnection_queue s) (\<lambda>s. Inr (None, s)))"
proof -
  have "bs_inv (e_clients s) (e_heap s)" using assms by (auto simp: ep_rep_def ep_data_def)
  with disconnect_all_eq[of s "a_clients a" kern] assms show ?thesis
    by (simp add: ep_rep_def disconnect_each_def)
qed

lemma disconnect_all_is_disconnect_each_witness:
  "\<exists>s s1. endpoint_create demo_kernel 8080 False ep0 = Inr s \<and> endpoint_register_client 7 s = Inr s1 \<and>
     endpoint_disconnect_all_clients demo_kernel s1 =
       rbind (endpoint_disconnect_client demo_kernel 7 s1) (\<lambda>(_, s).
       rbind (endpoint_clear_disconnection_queue s) (\<lambda>s. Inr (None, s)))"
proof -
  obtain s a where s: "endpoint_create demo_kernel 8080 False ep0 = Inr s" "book0 a" "a_log a = e_log s"
    "ep_rep (\<lambda>_. None) (3, 4, 5, 6) 7 s a" by (rule demo_create)
  have rep: "ep_rep (\<lambda>_. None) (3, 4, 5, 6) (Suc 6) s a" using s(4) by simp
  from rep_register[OF rep, of 7] obtain s1 where s1: "endpoint_register_client 7 s = Inr s1"
    "ep_rep (\<lambda>_. None) (3, 4, 5, 6) 6 s1 (a\<lparr>a_clients := insert 7 (a_clients a)\<rparr>)" by (auto simp: fd_ok_def)
  from disconnect_all_is_disconnect_each[OF s1(2), of demo_kernel] s(1,2) s1(1) show ?thesis
    by (cases "endpoint_disconnect_client demo_kernel 7 s1") (auto simp: book0_def split_beta)
qed

end
