(* ===== verification/Endpoint2.thy ===== *)
theory Endpoint2
  imports Endpoint_Properties
begin

text \<open>
  The second endpoint, \<open>src/unix/endpoint2.c\<close>, as far as it is written: its descriptors are in one epoll
  instance, and \<open>endpoint2_step\<close> disconnects the clients that hung up, waits for events and queues the
  new hangups.  The file is not part of the build; the loop at the end of \<open>endpoint2_step\<close> that should
  accept clients is not a C statement, and two functions use names that are declared nowhere, so they
  have no model.  What there is does, on the fields that the two structures share, the same as the functions of
  \<open>endpoint.c\<close>, and refines the same client book.
\<close>

section \<open>The model\<close>

text \<open>The closing queue is \<open>None\<close> while its memory is indeterminate.\<close>

record endpoint2 =
  e2_server_fd :: int
  e2_epoll_instance :: int
  e2_epoll_event_whitelist :: "32 word"
  e2_connections_waiting :: bool
  e2_clients :: boolset_t
  e2_clients_lock :: mutex
  e2_closing_queue :: "stack option"

record ep2 = endpoint2 +
  e2_heap :: heap
  e2_log :: "syscall list"

definition sys2 :: "kernel \<Rightarrow> syscall \<Rightarrow> ep2 \<Rightarrow> (int \<times> epoll_event list) \<times> ep2" where
  "sys2 kern c s = (kern (e2_log s) c, s\<lparr>e2_log := e2_log s @ [c]\<rparr>)"

definition call2 :: "kernel \<Rightarrow> syscall \<Rightarrow> ep2 \<Rightarrow> ep2" where
  "call2 kern c s = snd (sys2 kern c s)"

text \<open>Reading the closing queue, and pushing a descriptor on it.\<close>

definition closing_queue2 :: "ep2 \<Rightarrow> stack result" where
  "closing_queue2 s = (case e2_closing_queue s of None \<Rightarrow> Inl Uninit_Read | Some q \<Rightarrow> Inr q)"

definition push_closing2 :: "int \<Rightarrow> ep2 \<Rightarrow> ep2 result" where
  "push_closing2 socket_fd s =
    rbind (closing_queue2 s) (\<lambda>q.
    rbind (stack_push q (word_of_int socket_fd) (e2_heap s)) (\<lambda>(q, h).
    Inr (s\<lparr>e2_closing_queue := Some q, e2_heap := h\<rparr>)))"

definition lock_clients2 :: "ep2 \<Rightarrow> ep2 result" where
  "lock_clients2 s = (if e2_clients_lock s = Free then Inr (s\<lparr>e2_clients_lock := Held\<rparr>) else Inl Lock_Misuse)"

definition unlock_clients2 :: "ep2 \<Rightarrow> ep2 result" where
  "unlock_clients2 s = (if e2_clients_lock s = Held then Inr (s\<lparr>e2_clients_lock := Free\<rparr>) else Inl Lock_Misuse)"

definition clients_set2 :: "64 word \<Rightarrow> int \<Rightarrow> ep2 \<Rightarrow> ep2 result" where
  "clients_set2 index val s =
    rbind (boolset_set (e2_clients s) index val (e2_heap s)) (\<lambda>(b, h).
    Inr (s\<lparr>e2_clients := b, e2_heap := h\<rparr>))"

definition endpoint2_register_client :: "int \<Rightarrow> ep2 \<Rightarrow> ep2 result" where
  "endpoint2_register_client socket_fd s =
    rbind (lock_clients2 s) (\<lambda>s. rbind (clients_set2 (word_of_int socket_fd) 1 s) unlock_clients2)"

definition endpoint2_deregister_client :: "int \<Rightarrow> ep2 \<Rightarrow> ep2 result" where
  "endpoint2_deregister_client socket_fd s =
    rbind (lock_clients2 s) (\<lambda>s. rbind (clients_set2 (word_of_int socket_fd) 0 s) unlock_clients2)"

definition endpoint2_disconnect_client :: "kernel \<Rightarrow> int \<Rightarrow> ep2 \<Rightarrow> (int \<times> ep2) result" where
  "endpoint2_disconnect_client kern socket_fd s =
    rbind (endpoint2_deregister_client socket_fd s) (\<lambda>s.
    (let s = call2 kern (Epoll_Ctl (e2_epoll_instance s) EPOLL_CTL_DEL socket_fd None) s;
         s = call2 kern (Shutdown socket_fd SHUT_RDWR) s;
         s = call2 kern (Close socket_fd) s
     in Inr (0, s)))"

definition disconnect_all_foreach2 :: "kernel \<Rightarrow> 64 word \<Rightarrow> ep2 \<Rightarrow> ep2 result" where
  "disconnect_all_foreach2 kern socket_fd s =
    rbind (clients_set2 socket_fd 0 s) (\<lambda>s.
    (let s = call2 kern (Epoll_Ctl (e2_epoll_instance s) EPOLL_CTL_DEL (to_int socket_fd) None) s;
         s = call2 kern (Shutdown (to_int socket_fd) SHUT_RDWR) s;
         s = call2 kern (Close (to_int socket_fd)) s
     in Inr s))"

definition ept_own :: "int \<Rightarrow> ep2 \<Rightarrow> bool result" where
  "ept_own socket_fd s = boolset_get (e2_clients s) (word_of_int socket_fd) (e2_heap s)"

definition create_server_socket2 :: "kernel \<Rightarrow> int \<Rightarrow> bool \<Rightarrow> ep2 \<Rightarrow> int \<times> ep2" where
  "create_server_socket2 kern PORT_NUMBER IPv6 s =
    (let domain = (if IPv6 then AF_INET6 else AF_INET);
         ((srv_fd, _), s) = sys2 kern (Socket domain SOCK_STREAM IPPROTO_TCP) s;
         ((flags, _), s) = sys2 kern (Fcntl_Getfl srv_fd) s;
         s = call2 kern (Fcntl_Setfl srv_fd (word_of_int flags OR O_NONBLOCK)) s;
         server_address = \<lparr>sin_family = domain, sin_port = htons PORT_NUMBER, sin_addr = 0\<rparr>;
         s = call2 kern (Bind srv_fd server_address) s;
         s = call2 kern (Listen srv_fd 512) s
     in (srv_fd, s))"

text \<open>\<open>_closing_queue\<close> is not initialised: it holds what the memory held, which is the empty stack when the
  structure is a static object, and indeterminate when it is an automatic one.\<close>

definition endpoint2_create :: "kernel \<Rightarrow> int \<Rightarrow> bool \<Rightarrow> ep2 \<Rightarrow> ep2 result" where
  "endpoint2_create kern port_number IPv6 s =
    (let s = s\<lparr>e2_connections_waiting := False, e2_epoll_event_whitelist := EPOLLIN\<rparr>
     in rbind (boolset_create (e2_heap s)) (\<lambda>(b, h).
    (let s = s\<lparr>e2_clients := b, e2_heap := h, e2_clients_lock := Free\<rparr>;
         ((instance_fd, _), s) = sys2 kern (Epoll_Create 0) s;
         s = s\<lparr>e2_epoll_instance := instance_fd\<rparr>;
         (server_fd, s) = create_server_socket2 kern port_number IPv6 s;
         s = s\<lparr>e2_server_fd := server_fd\<rparr>;
         srv_events = \<lparr>ev_events = EPOLLIN OR EPOLLHUP OR EPOLLET, ev_fd = e2_server_fd s\<rparr>;
         s = call2 kern (Epoll_Ctl (e2_epoll_instance s) EPOLL_CTL_ADD (e2_server_fd s) (Some srv_events)) s
     in Inr s)))"

section \<open>The same as the endpoint\<close>

text \<open>The endpoint that has the shared fields; it has one instance for its two.\<close>

definition ep_of :: "mutex \<Rightarrow> ep2 \<Rightarrow> ep" where
  "ep_of l s = \<lparr>e_srv_fd = e2_server_fd s, e_ep_listener = e2_epoll_instance s, e_ep_selector = e2_epoll_instance s,
     e_shutdown_fd = 0, e_clients = e2_clients s, e_clients_lock = e2_clients_lock s, e_queue_lock = l,
     e_queue = (case e2_closing_queue s of None \<Rightarrow> stack_create | Some q \<Rightarrow> q), e_heap = e2_heap s, e_log = e2_log s\<rparr>"

lemma ep_of_simps [simp]:
  "e_srv_fd (ep_of l s) = e2_server_fd s" "e_ep_selector (ep_of l s) = e2_epoll_instance s"
  "e_clients (ep_of l s) = e2_clients s" "e_clients_lock (ep_of l s) = e2_clients_lock s" "e_queue_lock (ep_of l s) = l"
  "e2_closing_queue s = Some q \<Longrightarrow> e_queue (ep_of l s) = q" "e_heap (ep_of l s) = e2_heap s" "e_log (ep_of l s) = e2_log s"
  "ep_fds (ep_of l s) = (e2_server_fd s, e2_epoll_instance s, e2_epoll_instance s, 0)"
  "(ep_of l s)\<lparr>e_clients := b, e_heap := h\<rparr> = ep_of l (s\<lparr>e2_clients := b, e2_heap := h\<rparr>)"
  "(ep_of l s)\<lparr>e_queue := q, e_heap := h\<rparr> = ep_of l (s\<lparr>e2_closing_queue := Some q, e2_heap := h\<rparr>)"
  "(ep_of l s)\<lparr>e_clients_lock := m\<rparr> = ep_of l (s\<lparr>e2_clients_lock := m\<rparr>)"
  "(ep_of l s)\<lparr>e_log := log\<rparr> = ep_of l (s\<lparr>e2_log := log\<rparr>)"
  "(ep_of l s)\<lparr>e_queue_lock := l'\<rparr> = ep_of l' s"
  by (simp_all add: ep_of_def ep_fds_def)

lemma call_ep_of: "call kern c (ep_of l s) = ep_of l (call2 kern c s)"
  by (simp add: call_def sys_def call2_def sys2_def)

lemma clients_set_ep_of: "clients_set i v (ep_of l s) = rbind (clients_set2 i v s) (\<lambda>s. Inr (ep_of l s))"
  by (cases "boolset_set (e2_clients s) i v (e2_heap s)") (auto simp: clients_set_def clients_set2_def)

lemma lock_ep_of:
  "lock_clients (ep_of l s) = rbind (lock_clients2 s) (\<lambda>s. Inr (ep_of l s))"
  "unlock_clients (ep_of l s) = rbind (unlock_clients2 s) (\<lambda>s. Inr (ep_of l s))"
  by (simp_all add: lock_clients_def lock_clients2_def unlock_clients_def unlock_clients2_def)

lemma register_ep_of:
  "endpoint_register_client fd (ep_of l s) = rbind (endpoint2_register_client fd s) (\<lambda>s. Inr (ep_of l s))"
  "endpoint_deregister_client fd (ep_of l s) = rbind (endpoint2_deregister_client fd s) (\<lambda>s. Inr (ep_of l s))"
  by (simp_all add: endpoint_register_client_def endpoint2_register_client_def endpoint_deregister_client_def
      endpoint2_deregister_client_def lock_ep_of clients_set_ep_of rbind_assoc)

lemma disconnect_ep_of:
  "endpoint_disconnect_client kern fd (ep_of l s) = rbind (endpoint2_disconnect_client kern fd s) (\<lambda>(r, s). Inr (r, ep_of l s))"
  by (simp add: endpoint_disconnect_client_def endpoint2_disconnect_client_def register_ep_of rbind_assoc call_ep_of Let_def
      call2_def sys2_def)

lemma foreach_ep_of:
  "disconnect_all_foreach kern i (ep_of l s) = rbind (disconnect_all_foreach2 kern i s) (\<lambda>s. Inr (ep_of l s))"
  by (simp add: disconnect_all_foreach_def disconnect_all_foreach2_def clients_set_ep_of rbind_assoc call_ep_of Let_def
      call2_def sys2_def)


section \<open>Hangups and events\<close>

lemma disconnect2_card:
  assumes "endpoint2_disconnect_client kern fd s = Inr (r, s')"
  shows "card (dom (mem (e2_heap s'))) = card (dom (mem (e2_heap s)))"
  using disconnect_card[of kern fd "ep_of Free s" r "ep_of Free s'"] assms by (simp add: disconnect_ep_of)

function close_hungups2 :: "kernel \<Rightarrow> int \<Rightarrow> ep2 \<Rightarrow> (int \<times> ep2) result" where
  "close_hungups2 kern count s =
    rbind (closing_queue2 s) (\<lambda>q.
    if \<not> stack_is_empty q
    then rbind (stack_pop q (e2_heap s)) (\<lambda>(fd, q, h).
         rbind (endpoint2_disconnect_client kern (to_int fd) (s\<lparr>e2_closing_queue := Some q, e2_heap := h\<rparr>)) (\<lambda>(_, s).
         rbind (chk_int (count + 1)) (\<lambda>count. close_hungups2 kern count s)))
    else Inr (count, s))"
  by pat_completeness auto
termination
  by (relation "measure (\<lambda>(k, c, s). card (dom (mem (e2_heap s))))")
     (auto dest!: disconnect2_card stack_pop_shrinks)

declare close_hungups2.simps [simp del, c_eval]

text \<open>The loop over the events; the increment is the one at the end of the body, and adding a \<open>bool\<close> to
  \<open>_connections_waiting\<close> makes it true or leaves it.\<close>

function step_loop :: "epoll_event list \<Rightarrow> int \<Rightarrow> int \<Rightarrow> ep2 \<Rightarrow> (int \<times> ep2) result" where
  "step_loop events event_count event_index s =
    (if event_index < event_count
     then
       if 0 \<le> event_index \<and> event_index < int (length events)
       then (let is_server_socket = (ev_fd (events ! nat event_index) = e2_server_fd s);
                 s = s\<lparr>e2_connections_waiting := (e2_connections_waiting s \<or> is_server_socket)\<rparr>;
                 event_index = event_index + (if is_server_socket then 1 else 0)
             in if event_index \<ge> event_count then Inr (event_index, s)
                else if event_index < int (length events)
                then rbind (if ev_events (events ! nat event_index) AND EPOLLRDHUP \<noteq> 0
                            then push_closing2 (ev_fd (events ! nat event_index)) s
                            else Inr s) (step_loop events event_count (event_index + 1))
                else Inl Uninit_Read)
       else Inl Uninit_Read
     else Inr (event_index, s))"
  by pat_completeness auto
termination
  by (relation "measure (\<lambda>(evs, n, i, s). nat (n - i))") auto

declare step_loop.simps [simp del, c_eval]

text \<open>\<open>endpoint2_step\<close> up to the acceptance of clients: \<open>None\<close> when \<open>epoll_wait\<close> failed, otherwise \<open>event_index\<close>.\<close>

definition endpoint2_step_events :: "kernel \<Rightarrow> int \<Rightarrow> int \<Rightarrow> ep2 \<Rightarrow> (int option \<times> ep2) result" where
  "endpoint2_step_events kern max_events timeout s =
    rbind (close_hungups2 kern 0 s) (\<lambda>(_, s).
    (let ((event_count, events), s) = sys2 kern (Epoll_Wait (e2_epoll_instance s) max_events timeout) s
     in if event_count = -1 then Inr (None, s)
        else rbind (step_loop events event_count 0 s) (\<lambda>(event_index, s). Inr (Some event_index, s))))"

lemma queue_kept:
  "endpoint2_register_client fd s = Inr s' \<Longrightarrow> e2_closing_queue s' = e2_closing_queue s"
  "endpoint2_disconnect_client kern fd s = Inr (r, s') \<Longrightarrow> e2_closing_queue s' = e2_closing_queue s"
  by (auto simp: endpoint2_register_client_def endpoint2_disconnect_client_def endpoint2_deregister_client_def lock_clients2_def
      unlock_clients2_def clients_set2_def call2_def sys2_def Let_def rbind_Inr_iff split: if_splits)

lemma closing_queue2_Some [simp]: "e2_closing_queue s = Some q \<Longrightarrow> closing_queue2 s = Inr q"
  by (simp add: closing_queue2_def)

lemma hungups_ep_of:
  "e2_closing_queue s = Some q \<Longrightarrow> hungups_loop kern c (ep_of l s) = rbind (close_hungups2 kern c s) (\<lambda>(n, s). Inr (n, ep_of l s))"
proof (induction kern c s arbitrary: q rule: close_hungups2.induct)
  case (1 kern c s)
  note q = "1.prems"
  show ?case
  proof (cases "stack_is_empty q")
    case True
    then show ?thesis using q by (simp add: hungups_loop.simps[of kern c "ep_of l s"] close_hungups2.simps[of kern c s])
  next
    case False
    have "hungups_loop kern c1 (ep_of l s1) = rbind (close_hungups2 kern c1 s1) (\<lambda>(n, s). Inr (n, ep_of l s))"
      if "stack_pop q (e2_heap s) = Inr (fd, q1, h)"
        "endpoint2_disconnect_client kern (to_int fd) (s\<lparr>e2_closing_queue := Some q1, e2_heap := h\<rparr>) = Inr (r, s1)"
        "chk_int (c + 1) = Inr c1" for fd q1 h r s1 c1
      using "1.IH"[OF closing_queue2_Some[OF q] False that(1) refl refl that(2) refl that(3), of q1] queue_kept(2)[OF that(2)] by simp
    then show ?thesis
      using q
      by (subst hungups_loop.simps, subst close_hungups2.simps)
        (auto simp: False rbind_assoc split_beta disconnect_ep_of intro!: rbind_cong)
  qed
qed


section \<open>Refinement of the client book\<close>

lemma ep_of_waiting [simp]: "ep_of l (s\<lparr>e2_connections_waiting := b\<rparr>) = ep_of l s"
  by (simp add: ep_of_def)

lemma enqueue_ep_of:
  "e2_closing_queue s = Some q \<Longrightarrow> endpoint_enqueue_client_for_disconnection fd (ep_of Free s) =
    rbind (push_closing2 fd s) (\<lambda>s. Inr (ep_of Free s))"
  by (simp add: endpoint_enqueue_client_for_disconnection_def push_closing2_def locking case_prod_unfold rbind_assoc)

lemma waiting_kept:
  "endpoint2_register_client fd s = Inr s' \<Longrightarrow> e2_connections_waiting s' = e2_connections_waiting s"
  "endpoint2_disconnect_client kern fd s = Inr (r, s') \<Longrightarrow> e2_connections_waiting s' = e2_connections_waiting s"
  by (auto simp: endpoint2_register_client_def endpoint2_disconnect_client_def endpoint2_deregister_client_def lock_clients2_def
      unlock_clients2_def clients_set2_def call2_def sys2_def Let_def rbind_Inr_iff split: if_splits)

lemma hungups_waiting:
  "close_hungups2 kern c s = Inr (r, s') \<Longrightarrow> e2_connections_waiting s' = e2_connections_waiting s \<and> e2_closing_queue s' \<noteq> None"
proof (induction kern c s rule: close_hungups2.induct)
  case (1 kern c s)
  obtain q where q: "e2_closing_queue s = Some q"
    using "1.prems" unfolding close_hungups2.simps[of kern c s] by (auto simp: closing_queue2_def rbind_Inr_iff split: option.splits)
  show ?case
  proof (cases "stack_is_empty q")
    case False
    then obtain fd q1 h x s1 c1 where r: "stack_pop q (e2_heap s) = Inr (fd, q1, h)"
      "endpoint2_disconnect_client kern (to_int fd) (s\<lparr>e2_closing_queue := Some q1, e2_heap := h\<rparr>) = Inr (x, s1)"
      "chk_int (c + 1) = Inr c1" "close_hungups2 kern c1 s1 = Inr (r, s')"
      using "1.prems"[unfolded close_hungups2.simps[of kern c s]] q by (auto simp: rbind_Inr_iff)
    show ?thesis using "1.IH"[OF closing_queue2_Some[OF q] False r(1) refl refl r(2) refl r(3,4)] waiting_kept(2)[OF r(2)] by simp
  qed (use "1.prems" q in \<open>simp add: close_hungups2.simps[of kern c s]\<close>)
qed

text \<open>The client book, and whether clients wait to be accepted.\<close>

definition ep2_rep :: "(ptr \<Rightarrow> cell list option) \<Rightarrow> int \<Rightarrow> int \<Rightarrow> nat \<Rightarrow> ep2 \<Rightarrow> client_book \<times> bool \<Rightarrow> bool" where
  "ep2_rep m srv ins n s a \<longleftrightarrow> ep_rep m (srv, ins, ins, 0) n (ep_of Free s) (fst a) \<and> e2_connections_waiting s = snd a \<and>
    e2_closing_queue s \<noteq> None"

lemma ep2_fds:
  assumes "ep2_rep m srv ins n s a"
  shows "e2_server_fd s = srv" "e2_epoll_instance s = ins" "e2_log s = a_log (fst a)"
  using assms rep_fds[of m srv ins ins 0 n "ep_of Free s" "fst a"] by (simp_all add: ep2_rep_def)

lemma rep2_mono: "ep2_rep m srv ins n s a \<Longrightarrow> k \<le> n \<Longrightarrow> ep2_rep m srv ins k s a"
  unfolding ep2_rep_def using rep_mono by blast

lemma rep2_register:
  assumes "ep2_rep m srv ins (Suc n) s (a, w)" and "fd_ok fd"
  shows "\<exists>s'. endpoint2_register_client fd s = Inr s' \<and> ep2_rep m srv ins n s' (a\<lparr>a_clients := insert fd (a_clients a)\<rparr>, w)"
proof -
  have "ep_rep m (srv, ins, ins, 0) (Suc n) (ep_of Free s) a" using assms(1) by (simp add: ep2_rep_def)
  from rep_register[OF this assms(2)] show ?thesis
    using assms(1) waiting_kept(1) queue_kept(1) by (auto simp: register_ep_of rbind_Inr_iff ep2_rep_def)
qed

lemma rep2_disconnect:
  assumes "ep2_rep m srv ins (Suc n) s (a, w)" and "fd_ok fd"
  shows "\<exists>s'. endpoint2_disconnect_client kern fd s = Inr (0, s') \<and>
    ep2_rep m srv ins n s' (a\<lparr>a_clients := a_clients a - {fd}, a_log := a_log a @ disc_calls ins fd\<rparr>, w)"
proof -
  have "ep_rep m (srv, ins, ins, 0) (Suc n) (ep_of Free s) a" using assms(1) by (simp add: ep2_rep_def)
  from rep_disconnect[OF this assms(2), of kern] show ?thesis
    using assms(1) waiting_kept(2) queue_kept(2) by (auto simp: disconnect_ep_of rbind_Inr_iff ep2_rep_def)
qed

lemma rep2_hungups:
  assumes "ep2_rep m srv ins n s (a, w)"
  shows "\<exists>s'. close_hungups2 kern 0 s = Inr (int (length (a_queue a)), s') \<and>
    ep2_rep m srv ins n s' (a\<lparr>a_clients := a_clients a - set (a_queue a), a_queue := [],
      a_log := a_log a @ concat (map (disc_calls ins) (a_queue a))\<rparr>, w)"
proof -
  have "ep_rep m (srv, ins, ins, 0) n (ep_of Free s) a" using assms by (simp add: ep2_rep_def)
  from rep_hungups[OF this, of kern] show ?thesis
    using assms hungups_waiting
    by (auto simp: endpoint_close_hungups_def lock_queue_def unlock_queue_def hungups_ep_of rbind_Inr_iff ep2_rep_def)
qed

lemma rep2_call:
  "ep2_rep m srv ins n s (a, w) \<Longrightarrow> ep2_rep m srv ins n (s\<lparr>e2_log := e2_log s @ cs\<rparr>) (a\<lparr>a_log := a_log a @ cs\<rparr>, w)"
  using rep_call[of m "(srv, ins, ins, 0)" n "ep_of Free s" a cs] by (simp add: ep2_rep_def)

text \<open>One event of the loop.\<close>

lemma rep2_event:
  assumes "ep2_rep m srv ins (Suc (Suc n)) s (a, w)" and "fd_ok (ev_fd ev)"
  obtains s' where "(if ev_events ev AND EPOLLRDHUP \<noteq> 0 then push_closing2 (ev_fd ev) s else Inr s) = Inr s'"
    and "ep2_rep m srv ins n s' (a\<lparr>a_queue := rev (hangups [ev]) @ a_queue a\<rparr>, w)"
proof (cases "ev_events ev AND EPOLLRDHUP \<noteq> 0")
  case True
  have "ep_rep m (srv, ins, ins, 0) (Suc (Suc n)) (ep_of Free s) a" using assms(1) by (simp add: ep2_rep_def)
  note enq = rep_enqueue[OF this assms(2)]
  obtain q where q: "e2_closing_queue s = Some q" using assms(1) by (auto simp: ep2_rep_def)
  have kept: "e2_connections_waiting s' = e2_connections_waiting s \<and> e2_closing_queue s' \<noteq> None"
    if "push_closing2 (ev_fd ev) s = Inr s'" for s' using that by (auto simp: push_closing2_def rbind_Inr_iff)
  show thesis
    using enq assms(1) True that kept by (auto simp: enqueue_ep_of[OF q] rbind_Inr_iff ep2_rep_def hangups_def)
next
  case False
  then show thesis using assms(1) rep_mono[of m "(srv, ins, ins, 0)" "Suc (Suc n)" "ep_of Free s" a n] that[of s]
    by (simp add: ep2_rep_def hangups_def)
qed

definition hung2 :: "int \<Rightarrow> epoll_event list \<Rightarrow> int list" where
  "hung2 srv evs = hangups (filter (\<lambda>ev. ev_fd ev \<noteq> srv) evs)"

lemma rep2_step_loop:
  assumes "ep2_rep m srv ins (2 * length rest + n) s (a, w)" and "\<forall>ev \<in> set rest. fd_ok (ev_fd ev)"
    and "distinct (map ev_fd rest)" and "evs = pre @ rest"
  shows "\<exists>s'. step_loop evs (int (length evs)) (int (length pre)) s = Inr (int (length evs), s') \<and>
    ep2_rep m srv ins n s' (a\<lparr>a_queue := rev (hung2 srv rest) @ a_queue a\<rparr>, w \<or> srv \<in> ev_fd ` set rest)"
  using assms
proof (induction "length rest" arbitrary: rest pre s a w rule: less_induct)
  case less
  let ?i = "length pre" and ?s = "\<lambda>b. s\<lparr>e2_connections_waiting := b\<rparr>"
  note fds = ep2_fds[OF less.prems(1)]
  have set_waiting: "ep2_rep m srv ins k (?s b) (a, b)" if "ep2_rep m srv ins k s (a, w)" for k b
    using that by (simp add: ep2_rep_def)
  have w: "e2_connections_waiting s = w" using less.prems(1) by (simp add: ep2_rep_def)
  show ?case
  proof (cases rest)
    case Nil
    then show ?thesis using less.prems by (subst step_loop.simps) (simp add: hung2_def hangups_def)
  next
    case (Cons e es)
    have at: "evs ! ?i = e" "int ?i < int (length evs)" using less.prems(4) Cons by simp_all
    show ?thesis
    proof (cases "ev_fd e = srv")
      case False
      have rep: "ep2_rep m srv ins (Suc (Suc (2 * length es + n))) (?s w) (a, w)"
        using set_waiting[of "Suc (Suc (2 * length es + n))" w] less.prems(1) Cons by simp
      obtain s1 where s1: "(if ev_events e AND EPOLLRDHUP \<noteq> 0
          then push_closing2 (ev_fd e) (?s w) else Inr (?s w)) = Inr s1"
        "ep2_rep m srv ins (2 * length es + n) s1 (a\<lparr>a_queue := rev (hangups [e]) @ a_queue a\<rparr>, w)"
        by (rule rep2_event[OF rep]) (use less.prems(2) Cons in auto)
      have step: "step_loop evs (int (length evs)) (int ?i) s = step_loop evs (int (length evs)) (int (length (pre @ [e]))) s1"
        using at s1(1) fds False w by (subst step_loop.simps) (cases "ev_events e AND EPOLLRDHUP \<noteq> 0"; simp add: Let_def add.commute)
      from less.hyps[OF _ s1(2), of "pre @ [e]"] less.prems(2-4) Cons obtain s' where
        "step_loop evs (int (length evs)) (int (length (pre @ [e]))) s1 = Inr (int (length evs), s')"
        "ep2_rep m srv ins n s' (a\<lparr>a_queue := rev (hung2 srv es) @ rev (hangups [e]) @ a_queue a\<rparr>, w \<or> srv \<in> ev_fd ` set es)"
        by auto
      then show ?thesis unfolding step using Cons False by (auto simp: hung2_def hangups_def)
    next
      case True
      show ?thesis
      proof (cases es)
        case Nil
        have "step_loop evs (int (length evs)) (int ?i) s = Inr (int (length evs), ?s True)"
          using at True fds Nil Cons less.prems(4) by (subst step_loop.simps) (simp add: Let_def)
        moreover have "ep2_rep m srv ins n s (a, w)"
          by (rule rep2_mono[OF less.prems(1)]) simp
        ultimately show ?thesis using set_waiting[of n True] Cons Nil True by (simp add: hung2_def hangups_def)
      next
        case es: (Cons f es')
        have f: "ev_fd f \<noteq> srv" using less.prems(3) Cons es True by auto
        have rep: "ep2_rep m srv ins (Suc (Suc (2 * length es' + n))) s (a, w)"
          by (rule rep2_mono[OF less.prems(1)]) (simp add: Cons es)
        obtain s1 where s1: "(if ev_events f AND EPOLLRDHUP \<noteq> 0
            then push_closing2 (ev_fd f) (?s True) else Inr (?s True)) = Inr s1"
          "ep2_rep m srv ins (2 * length es' + n) s1 (a\<lparr>a_queue := rev (hangups [f]) @ a_queue a\<rparr>, True)"
          by (rule rep2_event[OF set_waiting[OF rep, of True], of f]) (use less.prems(2) Cons es in auto)
        have at2: "evs ! nat (int ?i + 1) = f" "int ?i + 1 < int (length evs)"
          using less.prems(4) Cons es by (simp_all add: nat_add_distrib nth_append)
        have step: "step_loop evs (int (length evs)) (int ?i) s = step_loop evs (int (length evs)) (int (length (pre @ [e, f]))) s1"
          using at at2 s1(1) fds True w by (subst step_loop.simps) (cases "ev_events f AND EPOLLRDHUP \<noteq> 0"; simp add: Let_def add.commute)
        from less.hyps[OF _ s1(2), of "pre @ [e, f]"] less.prems(2-4) Cons es obtain s' where
          "step_loop evs (int (length evs)) (int (length (pre @ [e, f]))) s1 = Inr (int (length evs), s')"
          "ep2_rep m srv ins n s' (a\<lparr>a_queue := rev (hung2 srv es') @ rev (hangups [f]) @ a_queue a\<rparr>, True)"
          by auto
        then show ?thesis unfolding step using Cons es True f by (auto simp: hung2_def hangups_def)
      qed
    qed
  qed
qed


text \<open>Every descriptor of an instance is reported at most once.\<close>

definition epoll_distinct :: "kernel \<Rightarrow> bool" where
  "epoll_distinct kern \<longleftrightarrow> (\<forall>log fd n t. distinct (map ev_fd (snd (kern log (Epoll_Wait fd n t)))))"

datatype ep2_op = Register2 int | Disconnect2 int | Step2 int int

fun ep2_step :: "kernel \<Rightarrow> ep2_op \<Rightarrow> ep2 \<Rightarrow> (int option \<times> ep2) result" where
  "ep2_step kern (Register2 fd) s = rbind (endpoint2_register_client fd s) (\<lambda>s. Inr (None, s))"
| "ep2_step kern (Disconnect2 fd) s = rbind (endpoint2_disconnect_client kern fd s) (\<lambda>(r, s). Inr (Some r, s))"
| "ep2_step kern (Step2 max_events timeout) s = endpoint2_step_events kern max_events timeout s"

fun book2_step :: "kernel \<Rightarrow> int \<Rightarrow> int \<Rightarrow> ep2_op \<Rightarrow> client_book \<times> bool \<Rightarrow> int option \<times> client_book \<times> bool" where
  "book2_step kern srv ins (Register2 fd) (a, w) = (let (r, a) = book_step ins (Register fd) a in (r, a, w))"
| "book2_step kern srv ins (Disconnect2 fd) (a, w) = (let (r, a) = book_step ins (Disconnect fd) a in (r, a, w))"
| "book2_step kern srv ins (Step2 max_events timeout) (a, w) =
    (let (_, a) = book_step ins Close_Hungups a;
         (count, evs) = kern (a_log a) (Epoll_Wait ins max_events timeout)
     in (if count = -1 then None else Some count,
         a\<lparr>a_queue := rev (hung2 srv evs), a_log := a_log a @ [Epoll_Wait ins max_events timeout]\<rparr>, w \<or> srv \<in> ev_fd ` set evs))"

fun op2_legal :: "ep2_op \<Rightarrow> bool" where
  "op2_legal (Register2 fd) = fd_ok fd"
| "op2_legal (Disconnect2 fd) = fd_ok fd"
| "op2_legal (Step2 max_events timeout) = True"

fun op2_cost :: "ep2_op \<Rightarrow> nat" where
  "op2_cost (Register2 fd) = 1"
| "op2_cost (Disconnect2 fd) = 1"
| "op2_cost (Step2 max_events timeout) = 2 * nat max_events"

lemma rep2_step:
  assumes "ep2_rep m srv ins (2 * nat max_events + n) s (a, w)" and "epoll_documented kern" and "epoll_distinct kern"
  shows "\<exists>s'. endpoint2_step_events kern max_events timeout s = Inr (fst (book2_step kern srv ins (Step2 max_events timeout) (a, w)), s') \<and>
    ep2_rep m srv ins n s' (snd (book2_step kern srv ins (Step2 max_events timeout) (a, w)))"
proof -
  let ?a = "a\<lparr>a_clients := a_clients a - set (a_queue a), a_queue := [], a_log := a_log a @ concat (map (disc_calls ins) (a_queue a))\<rparr>"
  let ?c = "Epoll_Wait ins max_events timeout"
  obtain s1 where s1: "close_hungups2 kern 0 s = Inr (int (length (a_queue a)), s1)"
    "ep2_rep m srv ins (2 * nat max_events + n) s1 (?a, w)"
    using rep2_hungups[OF assms(1), of kern] by auto
  obtain count evs where k: "kern (a_log ?a) ?c = (count, evs)" by (metis surj_pair)
  note doc = epoll_documentedD[OF assms(2) k]
  have dis: "distinct (map ev_fd evs)" using assms(3) k unfolding epoll_distinct_def by (metis snd_conv)
  let ?s = "s1\<lparr>e2_log := e2_log s1 @ [?c]\<rparr>" and ?b = "?a\<lparr>a_log := a_log ?a @ [?c]\<rparr>"
  have rep: "ep2_rep m srv ins (2 * length evs + n) ?s (?b, w)"
    by (rule rep2_mono[OF rep2_call[OF s1(2)]]) (use doc(1,2) in auto)
  obtain s2 where s2: "step_loop evs (int (length evs)) 0 ?s = Inr (int (length evs), s2)"
    "ep2_rep m srv ins n s2 (?b\<lparr>a_queue := rev (hung2 srv evs) @ a_queue ?b\<rparr>, w \<or> srv \<in> ev_fd ` set evs)"
    using rep2_step_loop[OF rep doc(3) dis, of evs "[]"] by auto
  have sys: "sys2 kern (Epoll_Wait (e2_epoll_instance s1) max_events timeout) s1 = ((count, evs), ?s)"
    using k ep2_fds[OF s1(2)] by (simp add: sys2_def)
  have swap: "?b\<lparr>a_queue := rev (hung2 srv evs) @ a_queue ?b\<rparr> = ?a\<lparr>a_queue := rev (hung2 srv evs), a_log := a_log ?a @ [?c]\<rparr>"
    by simp
  show ?thesis
  proof (cases "count = -1")
    case True
    then have "evs = []" using doc(1) by simp
    then show ?thesis using True s1(1) sys k rep by (simp add: endpoint2_step_events_def hung2_def hangups_def Let_def)
  next
    case False
    then have "int (length evs) = count" using doc(1,2) by simp
    then show ?thesis using False s1(1) sys k s2[unfolded swap] by (simp add: endpoint2_step_events_def Let_def)
  qed
qed

interpretation endpoint2_ops: stepwise_refinement "\<lambda>n s a. ep2_rep m srv ins n s a \<and> epoll_documented kern \<and> epoll_distinct kern"
    "ep2_step kern" "book2_step kern srv ins" op2_cost op2_legal
  for m srv ins kern
proof
  fix p n s a
  assume rep: "ep2_rep m srv ins (op2_cost p + n) s a \<and> epoll_documented kern \<and> epoll_distinct kern" and ok: "op2_legal p"
  obtain b w where a: "a = (b, w)" by (cases a)
  show "\<exists>s'. ep2_step kern p s = Inr (fst (book2_step kern srv ins p a), s') \<and>
    ep2_rep m srv ins n s' (snd (book2_step kern srv ins p a)) \<and> epoll_documented kern \<and> epoll_distinct kern"
  proof (cases p)
    case (Register2 fd)
    then show ?thesis using rep2_register[of m srv ins n s b w fd] rep ok a by auto
  next
    case (Disconnect2 fd)
    then show ?thesis using rep2_disconnect[of m srv ins n s b w fd kern] rep ok a by auto
  next
    case (Step2 max_events timeout)
    then show ?thesis using rep2_step[of m srv ins max_events n s b w kern timeout] rep a by auto
  qed
qed

lemma create_server_socket2_eq:
  "create_server_socket kern port v6 (ep_of l s) =
    (fst (create_server_socket2 kern port v6 s), ep_of l (snd (create_server_socket2 kern port v6 s)))"
  by (simp add: create_server_socket_def create_server_socket2_def sys_def sys2_def call_def call2_def Let_def split_beta)

text \<open>The calls of \<open>endpoint2_create\<close>.\<close>

definition create2_calls :: "int \<Rightarrow> bool \<Rightarrow> int \<Rightarrow> int \<Rightarrow> 32 word \<Rightarrow> syscall list" where
  "create2_calls port v6 srv ins flags = Epoll_Create 0 # server_calls port v6 srv flags @
    [Epoll_Ctl ins EPOLL_CTL_ADD srv (Some \<lparr>ev_events = EPOLLIN OR EPOLLHUP OR EPOLLET, ev_fd = srv\<rparr>)]"

lemma rep2_create:
  assumes "ample (Suc n) (e2_heap s0)" and "n < 2 ^ 31" and "e2_closing_queue s0 = Some stack_create"
  shows "\<exists>s flags. endpoint2_create kern port v6 s0 = Inr s \<and>
    e2_log s = e2_log s0 @ create2_calls port v6 (e2_server_fd s) (e2_epoll_instance s) flags \<and>
    ep2_rep (mem (e2_heap s0)) (e2_server_fd s) (e2_epoll_instance s) n s (\<lparr>a_clients = {}, a_queue = [], a_log = e2_log s\<rparr>, False)"
proof -
  obtain b h where c: "boolset_create (e2_heap s0) = Inr (b, h)" "bs_inv b h" "bs_members b h = {}"
    "mem (e2_heap s0) (bs_data b) = None" "\<forall>a. a \<noteq> bs_data b \<longrightarrow> mem h a = mem (e2_heap s0) a"
    "answers h = tl (answers (e2_heap s0))" "bs_size b = 1" "bs_data b = hd (answers (e2_heap s0))"
    by (rule boolset_create_ok[OF ample_can_alloc[OF assms(1)]])
  have am: "ample n h" by (rule ample_step[OF assms(1) c(6)]) (use c(5,8) in auto)
  let ?ins = "fst (kern (e2_log s0) (Epoll_Create 0))"
  let ?s = "s0\<lparr>e2_connections_waiting := False, e2_epoll_event_whitelist := EPOLLIN, e2_clients := b, e2_heap := h,
    e2_clients_lock := Free, e2_log := e2_log s0 @ [Epoll_Create 0], e2_epoll_instance := ?ins\<rparr>"
  let ?srv = "fst (kern (e2_log ?s) (Socket (inet_domain v6) SOCK_STREAM IPPROTO_TCP))"
  have "\<exists>flags. create_server_socket2 kern port v6 ?s = (?srv, ?s\<lparr>e2_log := e2_log ?s @ server_calls port v6 ?srv flags\<rparr>)"
    by (rule exI[of _ "word_of_int (fst (kern (e2_log ?s @ [Socket (inet_domain v6) SOCK_STREAM IPPROTO_TCP]) (Fcntl_Getfl ?srv)))"])
      (simp add: create_server_socket2_def server_calls_def inet_domain_def sys2_def call2_def Let_def split_beta)
  then obtain flags where f: "create_server_socket2 kern port v6 ?s = (?srv, ?s\<lparr>e2_log := e2_log ?s @ server_calls port v6 ?srv flags\<rparr>)" ..
  let ?e = "Epoll_Ctl ?ins EPOLL_CTL_ADD ?srv (Some \<lparr>ev_events = EPOLLIN OR EPOLLHUP OR EPOLLET, ev_fd = ?srv\<rparr>)"
  let ?t = "?s\<lparr>e2_log := e2_log ?s @ server_calls port v6 ?srv flags @ [?e], e2_server_fd := ?srv\<rparr>"
  have run: "endpoint2_create kern port v6 s0 = Inr ?t"
    using c(1) f by (simp add: endpoint2_create_def sys2_def call2_def Let_def split_beta)
  have "ep_data (mem (e2_heap s0)) (ep_of Free ?t) [] []"
    using c(2,4,5) stack_create_at assms(3) by (simp add: ep_data_def built_on_def)
  then have "ep2_rep (mem (e2_heap s0)) ?srv ?ins n ?t (\<lparr>a_clients = {}, a_queue = [], a_log = e2_log ?t\<rparr>, False)"
    using c(3) am assms(2,3) by (auto simp: ep2_rep_def ep_rep_def)
  then show ?thesis using run
    by (intro exI[of _ ?t] exI[of _ flags]) (simp add: create2_calls_def)
qed

lemma create2_returns:
  assumes "ample (Suc n) (e2_heap s0)"
  shows "\<exists>s. endpoint2_create kern port v6 s0 = Inr s"
proof -
  obtain b h where "boolset_create (e2_heap s0) = Inr (b, h)"
    by (rule boolset_create_ok[OF ample_can_alloc[OF assms]])
  then show ?thesis by (simp add: endpoint2_create_def Let_def split_beta)
qed

lemma create2_queue: "endpoint2_create kern port v6 s0 = Inr s \<Longrightarrow> e2_closing_queue s = e2_closing_queue s0"
  by (auto simp: endpoint2_create_def create_server_socket2_def sys2_def call2_def Let_def rbind_Inr_iff split_beta)

lemma own_decides:
  assumes "ep2_rep m srv ins n s (a, w)" and "fd_ok fd"
  shows "fd \<in> a_clients a \<longrightarrow> ept_own fd s = Inr True" and "ept_own fd s = Inr v \<Longrightarrow> v \<longleftrightarrow> fd \<in> a_clients a"
proof -
  have rep: "bs_inv (e2_clients s) (e2_heap s)" "bs_members (e2_clients s) (e2_heap s) = word_of_int ` a_clients a"
    "\<forall>fd \<in> a_clients a. fd_ok fd"
    using assms(1) by (auto simp: ep2_rep_def ep_rep_def ep_data_def)
  have mem: "word_of_int fd \<in> bs_members (e2_clients s) (e2_heap s) \<longleftrightarrow> fd \<in> a_clients a"
    using rep(2,3) assms(2) fd_word_inj by (metis imageE imageI)
  show "fd \<in> a_clients a \<longrightarrow> ept_own fd s = Inr True"
    using bset.get_member[of "(e2_clients s, e2_heap s)"] mem rep(1) by (simp add: ept_own_def bset_defs)
  show "v \<longleftrightarrow> fd \<in> a_clients a" if "ept_own fd s = Inr v"
    using that mem boolset_get_eq[OF rep(1), of "word_of_int fd"] by (auto simp: ept_own_def split: if_splits)
qed

section \<open>Properties\<close>

text \<open>C22: The second endpoint refines the client book too, when it is a static object, so that its closing queue starts empty.
  For every kernel that behaves as documented, every sequence of registrations, disconnections and rounds of \<open>endpoint2_step\<close> (up to the
  acceptance of clients) on the new endpoint returns and keeps exactly the clients, the queued hangups and the system calls of the
  book, in which a round disconnects the queued clients, waits, and queues the reported hangups other than
  the server socket's; the flag says whether the server socket was ever reported; and afterwards \<open>ept_own\<close>
  returns 1 for every connected client and decides membership where it returns.  When it is an automatic object, the memory of its closing
  queue is indeterminate, since \<open>endpoint2_create\<close> does not initialise it, and the first round reads it: every round on the new endpoint is
  undefined.\<close>

theorem endpoint2_refines:
  assumes "ample (Suc (sum_list (map op2_cost ops))) (e2_heap s0)" and "sum_list (map op2_cost ops) < 2 ^ 31"
    and "\<forall>p \<in> set ops. op2_legal p" and "epoll_documented kern" and "epoll_distinct kern"
  shows "(e2_closing_queue s0 = Some stack_create \<longrightarrow> (\<exists>s s1 rs a w. endpoint2_create kern port v6 s0 = Inr s \<and>
      spec_steps (book2_step kern (e2_server_fd s) (e2_epoll_instance s)) ops
        (\<lparr>a_clients = {}, a_queue = [], a_log = e2_log s\<rparr>, False) = (rs, a, w) \<and>
      run_steps (ep2_step kern) ops s = Inr (rs, s1) \<and>
      ep2_rep (mem (e2_heap s0)) (e2_server_fd s) (e2_epoll_instance s) 0 s1 (a, w) \<and>
      (\<forall>fd. fd_ok fd \<longrightarrow> (fd \<in> a_clients a \<longrightarrow> ept_own fd s1 = Inr True) \<and> (\<forall>v. ept_own fd s1 = Inr v \<longrightarrow> v = (fd \<in> a_clients a))))) \<and>
    (e2_closing_queue s0 = None \<longrightarrow> (\<exists>s. endpoint2_create kern port v6 s0 = Inr s \<and>
      (\<forall>max_events timeout. endpoint2_step_events kern max_events timeout s = Inl Uninit_Read)))"
proof (intro conjI impI)
  assume zero: "e2_closing_queue s0 = Some stack_create"
  from rep2_create[OF assms(1,2) zero, of kern port v6] obtain s where s: "endpoint2_create kern port v6 s0 = Inr s"
    "ep2_rep (mem (e2_heap s0)) (e2_server_fd s) (e2_epoll_instance s) (sum_list (map op2_cost ops) + 0) s
      (\<lparr>a_clients = {}, a_queue = [], a_log = e2_log s\<rparr>, False)"
    by auto
  obtain rs a w where sp: "spec_steps (book2_step kern (e2_server_fd s) (e2_epoll_instance s)) ops
      (\<lparr>a_clients = {}, a_queue = [], a_log = e2_log s\<rparr>, False) = (rs, a, w)" by (metis prod.collapse)
  from endpoint2_ops.steps_ok[of "mem (e2_heap s0)" "e2_server_fd s" "e2_epoll_instance s" ops 0 s _ kern, OF _ assms(3)] s(2) assms(4,5) sp
  obtain s1 where run: "run_steps (ep2_step kern) ops s = Inr (rs, s1)"
    "ep2_rep (mem (e2_heap s0)) (e2_server_fd s) (e2_epoll_instance s) 0 s1 (a, w)"
    by (metis fst_conv snd_conv)
  show "\<exists>s s1 rs a w. endpoint2_create kern port v6 s0 = Inr s \<and>
      spec_steps (book2_step kern (e2_server_fd s) (e2_epoll_instance s)) ops
        (\<lparr>a_clients = {}, a_queue = [], a_log = e2_log s\<rparr>, False) = (rs, a, w) \<and>
      run_steps (ep2_step kern) ops s = Inr (rs, s1) \<and>
      ep2_rep (mem (e2_heap s0)) (e2_server_fd s) (e2_epoll_instance s) 0 s1 (a, w) \<and>
      (\<forall>fd. fd_ok fd \<longrightarrow> (fd \<in> a_clients a \<longrightarrow> ept_own fd s1 = Inr True) \<and> (\<forall>v. ept_own fd s1 = Inr v \<longrightarrow> v = (fd \<in> a_clients a)))"
    using s(1) sp run own_decides[OF run(2)] by blast
next
  assume none: "e2_closing_queue s0 = None"
  obtain s where s: "endpoint2_create kern port v6 s0 = Inr s" using create2_returns[OF assms(1)] by blast
  have "e2_closing_queue s = None" using create2_queue[OF s] none by simp
  then have "endpoint2_step_events kern n t s = Inl Uninit_Read" for n t
    by (simp add: endpoint2_step_events_def close_hungups2.simps[of kern 0 s] closing_queue2_def)
  then show "\<exists>s. endpoint2_create kern port v6 s0 = Inr s \<and>
      (\<forall>max_events timeout. endpoint2_step_events kern max_events timeout s = Inl Uninit_Read)" using s by blast
qed

text \<open>A kernel that reports the server socket (3), and client 8 as hung up.\<close>

definition demo2_kernel :: kernel where
  "demo2_kernel log c = (case c of
      Socket d t p \<Rightarrow> (3, [])
    | Epoll_Create fl \<Rightarrow> (4, [])
    | Epoll_Wait fd n t \<Rightarrow> if 2 \<le> n
        then (2, [\<lparr>ev_events = EPOLLIN, ev_fd = 3\<rparr>, \<lparr>ev_events = EPOLLIN OR EPOLLRDHUP, ev_fd = 8\<rparr>]) else (-1, [])
    | _ \<Rightarrow> (0, []))"

definition ep2_0 :: ep2 where
  "ep2_0 = \<lparr>e2_server_fd = 0, e2_epoll_instance = 0, e2_epoll_event_whitelist = 0, e2_connections_waiting = False,
     e2_clients = \<lparr>bs_size = 0, bs_data = 0\<rparr>, e2_clients_lock = Destroyed, e2_closing_queue = Some stack_create,
     e2_heap = \<lparr>mem = (\<lambda>_. None), answers = map word_of_nat [10..<50]\<rparr>, e2_log = []\<rparr>"

lemma endpoint2_refines_witness:
  "\<exists>s s1. endpoint2_create demo2_kernel 8080 False ep2_0 = Inr s \<and>
    run_steps (ep2_step demo2_kernel) [Register2 7, Register2 8, Step2 2 1000, Step2 2 1000] s = Inr ([None, None, Some 2, Some 2], s1) \<and>
    ept_own 7 s1 = Inr True \<and> ept_own 8 s1 \<noteq> Inr True \<and> e2_connections_waiting s1 \<and>
    (\<exists>s. endpoint2_create demo2_kernel 8080 False (ep2_0\<lparr>e2_closing_queue := None\<rparr>) = Inr s \<and>
      endpoint2_step_events demo2_kernel 2 1000 s = Inl Uninit_Read)"
proof -
  let ?ops = "[Register2 7, Register2 8, Step2 2 1000, Step2 2 1000]"
  have am: "ample (Suc (sum_list (map op2_cost ?ops))) (e2_heap ep2_0)"
    using ample_mono[OF demo_ample, of 11] by (simp add: ep2_0_def ep40_def)
  have doc: "epoll_documented demo2_kernel" "epoll_distinct demo2_kernel"
    by (auto simp: epoll_documented_def epoll_distinct_def demo2_kernel_def fd_ok_def)
  have srv: "e2_server_fd s = 3" "e2_epoll_instance s = 4" if "endpoint2_create demo2_kernel 8080 False ep2_0 = Inr s" for s
    using that by (auto simp: endpoint2_create_def create_server_socket2_def sys2_def call2_def Let_def rbind_Inr_iff demo2_kernel_def)
  have rdhup: "(EPOLLIN OR EPOLLRDHUP) AND EPOLLRDHUP \<noteq> 0" "EPOLLIN AND EPOLLRDHUP = 0" by (simp_all add: EPOLLIN_def EPOLLRDHUP_def)
  obtain s s1 rs a w where run: "endpoint2_create demo2_kernel 8080 False ep2_0 = Inr s"
    "spec_steps (book2_step demo2_kernel (e2_server_fd s) (e2_epoll_instance s)) ?ops
      (\<lparr>a_clients = {}, a_queue = [], a_log = e2_log s\<rparr>, False) = (rs, a, w)"
    "run_steps (ep2_step demo2_kernel) ?ops s = Inr (rs, s1)"
    "ep2_rep (mem (e2_heap ep2_0)) (e2_server_fd s) (e2_epoll_instance s) 0 s1 (a, w)"
    "\<forall>fd. fd_ok fd \<longrightarrow> (fd \<in> a_clients a \<longrightarrow> ept_own fd s1 = Inr True) \<and> (\<forall>v. ept_own fd s1 = Inr v \<longrightarrow> v = (fd \<in> a_clients a))"
    using endpoint2_refines[OF am, of demo2_kernel 8080 False] doc by (auto simp: fd_ok_def ep2_0_def)
  have am': "ample (Suc (sum_list (map op2_cost ?ops))) (e2_heap (ep2_0\<lparr>e2_closing_queue := None\<rparr>))" using am by simp
  obtain s' where undef: "endpoint2_create demo2_kernel 8080 False (ep2_0\<lparr>e2_closing_queue := None\<rparr>) = Inr s'"
    "endpoint2_step_events demo2_kernel 2 1000 s' = Inl Uninit_Read"
    using endpoint2_refines[OF am', of demo2_kernel 8080 False] doc by (auto simp: fd_ok_def)
  have wait: "demo2_kernel log (Epoll_Wait fd 2 t) =
      (2, [\<lparr>ev_events = EPOLLIN, ev_fd = 3\<rparr>, \<lparr>ev_events = EPOLLIN OR EPOLLRDHUP, ev_fd = 8\<rparr>])" for log fd t
    by (simp add: demo2_kernel_def)
  have "hung2 3 [\<lparr>ev_events = EPOLLIN, ev_fd = 3\<rparr>, \<lparr>ev_events = EPOLLIN OR EPOLLRDHUP, ev_fd = 8\<rparr>] = [8]"
    using rdhup by (simp add: hung2_def hangups_def)
  then have res: "rs = [None, None, Some 2, Some 2]" "a_clients a = {7}" "w"
    using run(2) srv[OF run(1)] by (auto simp: wait)
  then show ?thesis
    using undef run(1,3,4) run(5)[rule_format, of 7] run(5)[rule_format, of 8] by (auto simp: fd_ok_def ep2_rep_def)
qed

end
