(* ===== verification/Calc_Service.thy ===== *)
theory Calc_Service
  imports Endpoint_Properties "HOL-Library.Signed_Division"
begin

text \<open>
  The calculator services of \<open>apps/Run_calc_srv.c\<close> (TCP, behind an endpoint and the worker pool) and
  \<open>apps/Run_calc_udp_srv.c\<close>.  The text of a received message is a parameter (\<open>net\<close>), its length is the
  kernel's answer to \<open>recv\<close>; a buffer on the stack is a list of characters with any content at entry.
  The functions of the C library that the requests use (\<open>sscanf\<close> with its one format, \<open>atoi\<close>, \<open>sprintf\<close>
  with \<open>%d\<close> and \<open>%c\<close>) are modelled as the standard describes them, their undefined cases being faults;
  \<open>printf\<close> to the terminal is left out.  \<open>calc_reply\<close> is the reply as a function of the request, which
  both servers are shown to compute.
\<close>

section \<open>What the services use of the C library\<close>

text \<open>The data that a received message carries, as a function of the calls made before and the
  descriptor; the number of bytes is the kernel's answer.\<close>

type_synonym net = "syscall list \<Rightarrow> int \<Rightarrow> string"

definition recv_documented :: "kernel \<Rightarrow> net \<Rightarrow> bool" where
  "recv_documented kern net \<longleftrightarrow> (\<forall>log fd n c. c \<in> {Recv fd n, Recvfrom fd n} \<longrightarrow>
    fst (kern log c) = -1 \<or> 0 \<le> fst (kern log c) \<and> fst (kern log c) \<le> n \<and> int (length (net log fd)) = fst (kern log c))"

definition store_data :: "char list \<Rightarrow> int \<Rightarrow> string \<Rightarrow> char list result" where
  "store_data buf r msg =
    (if r \<le> 0 then Inr buf
     else if r \<le> int (length buf) \<and> int (length msg) = r then Inr (msg @ drop (nat r) buf) else Inl Out_Of_Bounds)"

text \<open>\<open>isspace\<close>, and \<open>sscanf(text, "%c %s %c %s", ...)\<close> into two buffers of \<open>lim\<close> bytes: the number of
  conversions, and the values when all four took place.\<close>

definition c_isspace :: "char \<Rightarrow> bool" where
  "c_isspace c \<longleftrightarrow> c \<in> {CHR '' '', CHR 0x09, CHR 0x0A, CHR 0x0B, CHR 0x0C, CHR 0x0D}"

definition sscanf_request :: "nat \<Rightarrow> string \<Rightarrow> (int \<times> (char \<times> string \<times> char \<times> string) option) result" where
  "sscanf_request lim text =
    (case text of [] \<Rightarrow> Inr (-1, None)
     | command # r \<Rightarrow>
       (let r = dropWhile c_isspace r
        in if r = [] then Inr (1, None)
           else let num_1 = takeWhile (\<lambda>c. \<not> c_isspace c) r
                in if lim \<le> length num_1 then Inl Out_Of_Bounds
                   else case dropWhile c_isspace (dropWhile (\<lambda>c. \<not> c_isspace c) r) of [] \<Rightarrow> Inr (2, None)
                     | operator # r \<Rightarrow>
                       (let r = dropWhile c_isspace r
                        in if r = [] then Inr (3, None)
                           else let num_2 = takeWhile (\<lambda>c. \<not> c_isspace c) r
                                in if lim \<le> length num_2 then Inl Out_Of_Bounds
                                   else Inr (4, Some (command, num_1, operator, num_2)))))"

text \<open>\<open>atoi\<close>: undefined when the value is not an \<open>int\<close>.\<close>

definition c_isdigit :: "char \<Rightarrow> bool" where
  "c_isdigit c \<longleftrightarrow> 48 \<le> (of_char c :: nat) \<and> (of_char c :: nat) \<le> 57"

definition digits_value :: "string \<Rightarrow> nat" where
  "digits_value ds = foldl (\<lambda>v c. 10 * v + (of_char c - 48)) 0 ds"

definition c_atoi :: "string \<Rightarrow> int result" where
  "c_atoi text =
    (case dropWhile c_isspace text of [] \<Rightarrow> Inr 0
     | c # r \<Rightarrow>
       if c = CHR ''-'' then chk_int (- int (digits_value (takeWhile c_isdigit r)))
       else if c = CHR ''+'' then chk_int (int (digits_value (takeWhile c_isdigit r)))
       else chk_int (int (digits_value (takeWhile c_isdigit (c # r)))))"

text \<open>The conversion \<open>%d\<close>, and \<open>sprintf\<close> of a text to the start of a buffer.\<close>

fun nat_digits :: "nat \<Rightarrow> string" where
  "nat_digits n = (if n < 10 then [char_of (48 + n)] else nat_digits (n div 10) @ [char_of (48 + n mod 10)])"

declare nat_digits.simps [simp del]

definition dec :: "int \<Rightarrow> string" where
  "dec i = (if i < 0 then CHR ''-'' # nat_digits (nat (- i)) else nat_digits (nat i))"

definition sprintf_to :: "char list \<Rightarrow> string \<Rightarrow> char list result" where
  "sprintf_to buf text =
    (if length text < length buf then Inr (text @ NUL # drop (Suc (length text)) buf) else Inl Out_Of_Bounds)"

text \<open>C's division truncates.\<close>

definition c_div :: "int \<Rightarrow> int \<Rightarrow> int result" where
  "c_div a b = (if b = 0 then Inl Div_By_Zero else chk_int (a sdiv b))"

lemma atoi_lemmas:
  fixes n :: nat
  assumes "n < 10"
  shows "of_char (char_of (48 + n) :: char) = 48 + n" and "c_isdigit (char_of (48 + n))"
    and "char_of (48 + n) \<noteq> (CHR ''-'')" and "char_of (48 + n) \<noteq> (CHR ''+'')" and "char_of (48 + n) \<noteq> NUL"
    and "\<not> c_isspace (char_of (48 + n))"
proof -
  have of: "of_char (char_of (48 + n) :: char) = 48 + n" if "n < 10" for n :: nat
    using that by (simp add: of_char_of)
  have ne: "char_of (48 + n) \<noteq> c" if "\<not> (48 \<le> (of_char c :: nat) \<and> of_char c \<le> (57::nat))" for c
    using that of[OF assms] assms by auto
  show "of_char (char_of (48 + n) :: char) = 48 + n" by (rule of[OF assms])
  then show "c_isdigit (char_of (48 + n))" using assms by (simp add: c_isdigit_def)
  show "char_of (48 + n) \<noteq> (CHR ''-'')" "char_of (48 + n) \<noteq> (CHR ''+'')" "char_of (48 + n) \<noteq> NUL" by (rule ne, simp)+
  show "\<not> c_isspace (char_of (48 + n))"
    unfolding c_isspace_def insert_iff empty_iff using ne by auto
qed


lemma nat_digits_foldl:
  "foldl (\<lambda>v c. 10 * v + (of_char c - 48)) 0 (nat_digits n) = n \<and> (\<forall>c \<in> set (nat_digits n).
     c_isdigit c \<and> c \<noteq> CHR ''-'' \<and> c \<noteq> CHR ''+'' \<and> c \<noteq> NUL \<and> \<not> c_isspace c) \<and> nat_digits n \<noteq> []"
proof (induction n rule: nat_digits.induct)
  case (1 n)
  show ?case
  proof (cases "n < 10")
    case True
    then show ?thesis using atoi_lemmas[OF True] by (simp add: nat_digits.simps[of n])
  next
    case False
    have d: "n mod 10 < 10" by simp
    have "foldl (\<lambda>v c. 10 * v + (of_char c - 48)) 0 (nat_digits n) = 10 * (n div 10) + n mod 10"
      using 1 False atoi_lemmas(1)[OF d] by (subst nat_digits.simps) simp
    then show ?thesis
      using 1 False atoi_lemmas[OF d] by (auto simp: nat_digits.simps[of n])
  qed
qed

lemma nat_digits_length: "n < 10 ^ k \<Longrightarrow> 0 < k \<Longrightarrow> length (nat_digits n) \<le> k"
proof (induction k arbitrary: n)
  case (Suc k)
  show ?case
  proof (cases "n < 10")
    case True
    then show ?thesis by (simp add: nat_digits.simps[of n])
  next
    case False
    then have "k \<noteq> 0" "n div 10 < 10 ^ k" using Suc.prems by (auto intro!: Nat.gr0I)
    then show ?thesis using Suc.IH[of "n div 10"] False by (simp add: nat_digits.simps[of n])
  qed
qed simp

lemma dec_chars:
  "dec i \<noteq> []" "c \<in> set (dec i) \<Longrightarrow> c \<noteq> NUL \<and> \<not> c_isspace c"
  using nat_digits_foldl[of "nat i"] nat_digits_foldl[of "nat (- i)"]
  by (auto simp: dec_def c_isspace_def split: if_splits)

lemma dec_length:
  assumes "- (2 ^ 31) \<le> i" and "i < 2 ^ 31"
  shows "length (dec i) \<le> 11"
proof -
  have "nat i \<le> nat (2 ^ 31)" and "nat (- i) \<le> nat (2 ^ 31)" using assms by (intro nat_mono, simp)+
  then have "nat i < 10 ^ 10" "nat (- i) < 10 ^ 10" by simp_all
  then show ?thesis
    using nat_digits_length[of "nat i" 10] nat_digits_length[of "nat (- i)" 10] by (auto simp: dec_def)
qed

lemma digits_value_nat: "digits_value (takeWhile c_isdigit (nat_digits n)) = n"
proof -
  have "takeWhile c_isdigit (nat_digits n) = nat_digits n"
    using nat_digits_foldl[of n] by (simp add: takeWhile_eq_all_conv)
  then show ?thesis using nat_digits_foldl[of n] by (simp only: digits_value_def)
qed

lemma atoi_dec:
  assumes "- (2 ^ 31) \<le> i" and "i < 2 ^ 31"
  shows "c_atoi (dec i) = Inr i"
proof -
  have dw: "dropWhile c_isspace (dec i) = dec i"
    using dec_chars(1)[of i] dec_chars(2)[of "hd (dec i)" i] by (cases "dec i") auto
  show ?thesis
  proof (cases "i < 0")
    case True
    then show ?thesis using assms dw digits_value_nat[of "nat (- i)"] by (simp add: c_atoi_def dec_def)
  next
    case False
    then obtain c r where cr: "nat_digits (nat i) = c # r"
      using nat_digits_foldl[of "nat i"] by (cases "nat_digits (nat i)") auto
    then have "c \<noteq> CHR ''-''" "c \<noteq> CHR ''+''" using nat_digits_foldl[of "nat i"] by auto
    then show ?thesis using assms dw digits_value_nat[of "nat i"] cr False by (simp add: c_atoi_def dec_def)
  qed
qed

section \<open>The calculator over TCP\<close>

definition REQ_SIZE_MAX :: nat where
  "REQ_SIZE_MAX = 128"

text \<open>\<open>send(fd, buffer, strlen(buffer), 0)\<close>\<close>

definition send_string :: "kernel \<Rightarrow> int \<Rightarrow> char list \<Rightarrow> ep \<Rightarrow> ep result" where
  "send_string kern fd buffer s = rbind (c_strlen buffer) (\<lambda>n. Inr (call kern (Send fd (take n buffer)) s))"

definition apply_operator :: "char \<Rightarrow> int \<Rightarrow> int \<Rightarrow> int result" where
  "apply_operator operator number_1 number_2 =
    (if operator = CHR ''+'' then chk_int (number_1 + number_2)
     else if operator = CHR ''-'' then chk_int (number_1 - number_2)
     else if operator = CHR ''*'' then chk_int (number_1 * number_2)
     else if operator = CHR ''/'' then c_div number_1 number_2
     else Inr 0)"

text \<open>\<open>buffer\<close> is the array \<open>buffer\<close> as it is when the function is entered, with any content.\<close>

definition calc_request :: "kernel \<Rightarrow> net \<Rightarrow> char list \<Rightarrow> int \<Rightarrow> ep \<Rightarrow> ep result" where
  "calc_request kern net buffer client_fd s =
    (let data = net (e_log s) client_fd;
         ((bytes_received, _), s) = sys kern (Recv client_fd (int REQ_SIZE_MAX)) s
     in rbind (store_data buffer bytes_received data) (\<lambda>buffer.
     if bytes_received \<ge> 127
     then rbind (sprintf_to buffer (''Request too long. Goodbye'' @ [LF])) (\<lambda>buffer.
          rbind (send_string kern client_fd buffer s) (\<lambda>s.
          rbind (endpoint_disconnect_client kern client_fd s) (\<lambda>(_, s). Inr s)))
     else if bytes_received \<le> 0 then Inr s
     else rbind (rd buffer 0) (\<lambda>c.
       if c \<noteq> CHR ''c''
       then rbind (sprintf_to buffer (''Unknown command: '' @ [c, LF])) (\<lambda>buffer.
            send_string kern client_fd buffer s)
       else rbind (wr buffer bytes_received NUL) (\<lambda>buffer.
            rbind (c_strlen buffer) (\<lambda>n.
            rbind (sscanf_request REQ_SIZE_MAX (take n buffer)) (\<lambda>(sscanf_matches, vals).
            case vals of
              None \<Rightarrow> rbind (sprintf_to buffer (''Failed to read input format.'' @ [LF])) (\<lambda>buffer.
                       send_string kern client_fd buffer s)
            | Some (command, num_buf_1, operator, num_buf_2) \<Rightarrow>
                rbind (c_atoi num_buf_1) (\<lambda>number_1.
                rbind (c_atoi num_buf_2) (\<lambda>number_2.
                rbind (apply_operator operator number_1 number_2) (\<lambda>result.
                rbind (sprintf_to buffer (dec number_1 @ '' '' @ [operator] @ '' '' @ dec number_2 @ '' = '' @ dec result @ [LF])) (\<lambda>buffer.
                send_string kern client_fd buffer s))))))))))"

text \<open>The same function as the two turns of a worker, the call of \<open>recv\<close> and what follows it; the flag says that the client
  remains to be disconnected (\<open>calc_request_parts\<close>).\<close>

definition calc_receive :: "kernel \<Rightarrow> net \<Rightarrow> char list \<Rightarrow> int \<Rightarrow> ep \<Rightarrow> (int \<times> char list \<times> ep) result" where
  "calc_receive kern net buffer client_fd s =
    (let data = net (e_log s) client_fd;
         ((bytes_received, _), s) = sys kern (Recv client_fd (int REQ_SIZE_MAX)) s
     in rbind (store_data buffer bytes_received data) (\<lambda>buffer. Inr (bytes_received, buffer, s)))"

definition calc_respond :: "kernel \<Rightarrow> int \<Rightarrow> int \<Rightarrow> char list \<Rightarrow> ep \<Rightarrow> (bool \<times> ep) result" where
  "calc_respond kern client_fd bytes_received buffer s =
    (if bytes_received \<ge> 127
     then rbind (sprintf_to buffer (''Request too long. Goodbye'' @ [LF])) (\<lambda>buffer.
          rbind (send_string kern client_fd buffer s) (\<lambda>s. Inr (True, s)))
     else if bytes_received \<le> 0 then Inr (False, s)
     else rbind (rd buffer 0) (\<lambda>c.
       if c \<noteq> CHR ''c''
       then rbind (sprintf_to buffer (''Unknown command: '' @ [c, LF])) (\<lambda>buffer.
            rbind (send_string kern client_fd buffer s) (\<lambda>s. Inr (False, s)))
       else rbind (wr buffer bytes_received NUL) (\<lambda>buffer.
            rbind (c_strlen buffer) (\<lambda>n.
            rbind (sscanf_request REQ_SIZE_MAX (take n buffer)) (\<lambda>(sscanf_matches, vals).
            case vals of
              None \<Rightarrow> rbind (sprintf_to buffer (''Failed to read input format.'' @ [LF])) (\<lambda>buffer.
                       rbind (send_string kern client_fd buffer s) (\<lambda>s. Inr (False, s)))
            | Some (command, num_buf_1, operator, num_buf_2) \<Rightarrow>
                rbind (c_atoi num_buf_1) (\<lambda>number_1.
                rbind (c_atoi num_buf_2) (\<lambda>number_2.
                rbind (apply_operator operator number_1 number_2) (\<lambda>result.
                rbind (sprintf_to buffer (dec number_1 @ '' '' @ [operator] @ '' '' @ dec number_2 @ '' = '' @ dec result @ [LF])) (\<lambda>buffer.
                rbind (send_string kern client_fd buffer s) (\<lambda>s. Inr (False, s)))))))))))"

lemma rbind_same: "(\<And>x. m = Inr x \<Longrightarrow> f x = g x) \<Longrightarrow> rbind m f = rbind m g"
  by (cases m) simp_all

lemma rbind_Inr_id: "rbind r Inr = r"
  by (cases r) simp_all

lemma calc_request_parts:
  "calc_request kern net buffer fd s =
    rbind (calc_receive kern net buffer fd s) (\<lambda>(n, buffer, s).
    rbind (calc_respond kern fd n buffer s) (\<lambda>(gone, s).
    if gone then rbind (endpoint_disconnect_client kern fd s) (\<lambda>(_, s). Inr s) else Inr s))"
proof -
  have vals: "rbind (case_option x y v) k = case_option (rbind x k) (\<lambda>v. rbind (y v) k) v" for x v
    and y :: "char \<times> string \<times> char \<times> string \<Rightarrow> (bool \<times> ep) result" and k :: "bool \<times> ep \<Rightarrow> ep result"
    by (cases v) simp_all
  have cond: "rbind (if b then r else r') k = (if b then rbind r k else rbind r' k)"
    for b r r' and k :: "bool \<times> ep \<Rightarrow> ep result" by simp
  show ?thesis
    unfolding calc_request_def calc_receive_def calc_respond_def Let_def case_prod_unfold
    by (simp only: rbind_assoc rbind_simps cond vals rbind_Inr_id fst_conv snd_conv if_True if_False)
qed

text \<open>The job of a worker: the descriptor and the event flags packed in one pointer.\<close>

definition client_event :: "kernel \<Rightarrow> net \<Rightarrow> char list \<Rightarrow> 64 word \<Rightarrow> ep \<Rightarrow> ep result" where
  "client_event kern net buffer args s =
    (let client = to_int args; event_flag = sint args div 2 ^ 32
     in if (word_of_int event_flag :: 32 word) AND EPOLLIN \<noteq> 0 then calc_request kern net buffer client s else Inr s)"

text \<open>\<open>(int64_t)client | ((int64_t)event_flag << 32)\<close>; the shift of a negative value is undefined.\<close>

definition event_arg :: "int \<Rightarrow> int \<Rightarrow> 64 word result" where
  "event_arg client event_flag =
    (if event_flag < 0 then Inl Shift_Range
     else rbind (chk_long (event_flag * 2 ^ 32)) (\<lambda>high. Inr (word_of_int client OR word_of_int high)))"

section \<open>The calculator over UDP\<close>

definition MAX_UDP_PAYLOAD_SIZE :: nat where
  "MAX_UDP_PAYLOAD_SIZE = 508"

definition UDP_PORT :: int where
  "UDP_PORT = 7999"

definition SOCK_DGRAM :: int where "SOCK_DGRAM = 2"
definition IPPROTO_UDP :: int where "IPPROTO_UDP = 17"

definition create_server_socket_udp :: "kernel \<Rightarrow> int \<Rightarrow> bool \<Rightarrow> syscall list \<Rightarrow> int \<times> syscall list" where
  "create_server_socket_udp kern PORT_NUMBER IPv6 log =
    (let domain = (if IPv6 then AF_INET6 else AF_INET);
         server_addr = \<lparr>sin_family = AF_INET, sin_port = htons UDP_PORT, sin_addr = 0\<rparr>;
         (socket_fd, log) = log_sys kern (Socket domain SOCK_DGRAM IPPROTO_UDP) log;
         (_, log) = log_sys kern (Bind socket_fd server_addr) log
     in (socket_fd, log))"

definition sendto_string :: "kernel \<Rightarrow> int \<Rightarrow> char list \<Rightarrow> syscall list \<Rightarrow> syscall list result" where
  "sendto_string kern fd buffer log = rbind (c_strlen buffer) (\<lambda>n. Inr (snd (log_sys kern (Sendto fd (take n buffer)) log)))"

definition udp_calc_request :: "kernel \<Rightarrow> net \<Rightarrow> char list \<Rightarrow> int \<Rightarrow> syscall list \<Rightarrow> (int \<times> syscall list) result" where
  "udp_calc_request kern net buffer udp_socket_fd log =
    (let data = net log udp_socket_fd;
         (bytes_received, log) = log_sys kern (Recvfrom udp_socket_fd (int MAX_UDP_PAYLOAD_SIZE)) log
     in rbind (store_data buffer bytes_received data) (\<lambda>buffer.
     if bytes_received = -1 then Inr (-1, log)
     else if bytes_received \<ge> 127
     then rbind (sprintf_to buffer (''Request too long. Goodbye'' @ [LF])) (\<lambda>buffer.
          rbind (sendto_string kern udp_socket_fd buffer log) (\<lambda>log. Inr (0, log)))
     else if bytes_received \<le> 0 then Inr (0, log)
     else rbind (rd buffer 0) (\<lambda>c.
       if c \<noteq> CHR ''c''
       then rbind (sprintf_to buffer (''Unknown command: '' @ [c, LF])) (\<lambda>buffer.
            rbind (sendto_string kern udp_socket_fd buffer log) (\<lambda>log. Inr (0, log)))
       else rbind (wr buffer bytes_received NUL) (\<lambda>buffer.
            rbind (c_strlen buffer) (\<lambda>n.
            rbind (sscanf_request REQ_SIZE_MAX (take n buffer)) (\<lambda>(sscanf_matches, vals).
            case vals of
              None \<Rightarrow> rbind (sprintf_to buffer (''Failed to read input format.'' @ [LF])) (\<lambda>buffer.
                       rbind (sendto_string kern udp_socket_fd buffer log) (\<lambda>log. Inr (0, log)))
            | Some (command, num_buf_1, operator, num_buf_2) \<Rightarrow>
                rbind (c_atoi num_buf_1) (\<lambda>number_1.
                rbind (c_atoi num_buf_2) (\<lambda>number_2.
                rbind (apply_operator operator number_1 number_2) (\<lambda>result.
                rbind (sprintf_to buffer (dec number_1 @ '' '' @ [operator] @ '' '' @ dec number_2 @ '' = '' @ dec result @ [LF])) (\<lambda>buffer.
                rbind (sendto_string kern udp_socket_fd buffer log) (\<lambda>log. Inr (0, log)))))))))))) "

text \<open>The same function in two parts, the call of \<open>recvfrom\<close> and what follows it (\<open>udp_calc_request_parts\<close>).\<close>

definition udp_receive :: "kernel \<Rightarrow> net \<Rightarrow> char list \<Rightarrow> int \<Rightarrow> syscall list \<Rightarrow> (int \<times> char list \<times> syscall list) result" where
  "udp_receive kern net buffer udp_socket_fd log =
    (let data = net log udp_socket_fd;
         (bytes_received, log) = log_sys kern (Recvfrom udp_socket_fd (int MAX_UDP_PAYLOAD_SIZE)) log
     in rbind (store_data buffer bytes_received data) (\<lambda>buffer. Inr (bytes_received, buffer, log)))"

definition udp_respond :: "kernel \<Rightarrow> int \<Rightarrow> int \<Rightarrow> char list \<Rightarrow> syscall list \<Rightarrow> (int \<times> syscall list) result" where
  "udp_respond kern udp_socket_fd bytes_received buffer log =
    (if bytes_received = -1 then Inr (-1, log)
     else if bytes_received \<ge> 127
     then rbind (sprintf_to buffer (''Request too long. Goodbye'' @ [LF])) (\<lambda>buffer.
          rbind (sendto_string kern udp_socket_fd buffer log) (\<lambda>log. Inr (0, log)))
     else if bytes_received \<le> 0 then Inr (0, log)
     else rbind (rd buffer 0) (\<lambda>c.
       if c \<noteq> CHR ''c''
       then rbind (sprintf_to buffer (''Unknown command: '' @ [c, LF])) (\<lambda>buffer.
            rbind (sendto_string kern udp_socket_fd buffer log) (\<lambda>log. Inr (0, log)))
       else rbind (wr buffer bytes_received NUL) (\<lambda>buffer.
            rbind (c_strlen buffer) (\<lambda>n.
            rbind (sscanf_request REQ_SIZE_MAX (take n buffer)) (\<lambda>(sscanf_matches, vals).
            case vals of
              None \<Rightarrow> rbind (sprintf_to buffer (''Failed to read input format.'' @ [LF])) (\<lambda>buffer.
                       rbind (sendto_string kern udp_socket_fd buffer log) (\<lambda>log. Inr (0, log)))
            | Some (command, num_buf_1, operator, num_buf_2) \<Rightarrow>
                rbind (c_atoi num_buf_1) (\<lambda>number_1.
                rbind (c_atoi num_buf_2) (\<lambda>number_2.
                rbind (apply_operator operator number_1 number_2) (\<lambda>result.
                rbind (sprintf_to buffer (dec number_1 @ '' '' @ [operator] @ '' '' @ dec number_2 @ '' = '' @ dec result @ [LF])) (\<lambda>buffer.
                rbind (sendto_string kern udp_socket_fd buffer log) (\<lambda>log. Inr (0, log)))))))))))"

lemma udp_calc_request_parts:
  "udp_calc_request kern net buffer fd log =
    rbind (udp_receive kern net buffer fd log) (\<lambda>(n, buffer, log). udp_respond kern fd n buffer log)"
  unfolding udp_calc_request_def udp_receive_def udp_respond_def Let_def case_prod_unfold
  by (simp only: rbind_assoc rbind_simps fst_conv snd_conv)

section \<open>The reply to a request\<close>

text \<open>What both servers answer to a request of 1 to 126 bytes, without buffers.\<close>

definition calc_reply :: "string \<Rightarrow> string result" where
  "calc_reply data =
    (if hd data \<noteq> CHR ''c'' then Inr (cstr (''Unknown command: '' @ [hd data, LF, NUL]))
     else rbind (sscanf_request REQ_SIZE_MAX (cstr data)) (\<lambda>(_, vals).
       case vals of
         None \<Rightarrow> Inr (''Failed to read input format.'' @ [LF])
       | Some (_, n1, oper, n2) \<Rightarrow>
           rbind (c_atoi n1) (\<lambda>a. rbind (c_atoi n2) (\<lambda>b. rbind (apply_operator oper a b) (\<lambda>r.
           Inr (cstr (dec a @ '' '' @ [oper] @ '' '' @ dec b @ '' = '' @ dec r @ [LF, NUL])))))))"

lemma sprintf_strlen:
  assumes "length text < length buf"
  obtains buf' where "sprintf_to buf text = Inr buf'" and "c_strlen buf' = Inr (length (cstr (text @ [NUL])))"
    and "take (length (cstr (text @ [NUL]))) buf' = cstr (text @ [NUL])"
proof -
  let ?buf = "(text @ [NUL]) @ drop (Suc (length text)) buf"
  have eq: "cstr ?buf = cstr (text @ [NUL])" unfolding cstr_def by (rule takeWhile_append1[of NUL]) simp_all
  have "take (length (cstr ?buf)) ?buf = cstr ?buf"
    unfolding cstr_def by (rule takeWhile_eq_take [symmetric])
  then have "take (length (cstr (text @ [NUL]))) ?buf = cstr (text @ [NUL])" unfolding eq .
  moreover have "c_strlen ?buf = Inr (length (cstr (text @ [NUL])))" using eq by (simp add: c_strlen_def)
  ultimately show thesis using that[of ?buf] assms by (simp add: sprintf_to_def)
qed

lemma send_sprintf:
  assumes "length text < length buf"
  shows "rbind (sprintf_to buf text) (\<lambda>b. rbind (send_string kern fd b s) f) = f (call kern (Send fd (cstr (text @ [NUL]))) s)"
    and "rbind (sprintf_to buf text) (\<lambda>b. rbind (sendto_string kern fd b log) g) = g (log @ [Sendto fd (cstr (text @ [NUL]))])"
    and "rbind (sprintf_to buf text) (\<lambda>b. send_string kern fd b s) = Inr (call kern (Send fd (cstr (text @ [NUL]))) s)"
proof -
  obtain buf' where l: "sprintf_to buf text = Inr buf'" "c_strlen buf' = Inr (length (cstr (text @ [NUL])))"
    "take (length (cstr (text @ [NUL]))) buf' = cstr (text @ [NUL])" by (rule sprintf_strlen[OF assms])
  then show "rbind (sprintf_to buf text) (\<lambda>b. rbind (send_string kern fd b s) f) = f (call kern (Send fd (cstr (text @ [NUL]))) s)"
    and "rbind (sprintf_to buf text) (\<lambda>b. rbind (sendto_string kern fd b log) g) = g (log @ [Sendto fd (cstr (text @ [NUL]))])"
    and "rbind (sprintf_to buf text) (\<lambda>b. send_string kern fd b s) = Inr (call kern (Send fd (cstr (text @ [NUL]))) s)"
    by (simp_all add: send_string_def sendto_string_def log_sys_def)
qed

lemma int_results:
  "c_atoi t = Inr a \<Longrightarrow> - (2 ^ 31) \<le> a \<and> a < 2 ^ 31" "apply_operator oper x y = Inr z \<Longrightarrow> - (2 ^ 31) \<le> z \<and> z < 2 ^ 31"
  by (auto simp: c_atoi_def apply_operator_def c_div_def chk_int_def split: list.splits if_splits)

lemma reply_fits:
  assumes "c_atoi t = Inr a" and "c_atoi u = Inr b" and "apply_operator oper a b = Inr r"
  shows "length (dec a @ '' '' @ [oper] @ '' '' @ dec b @ '' = '' @ dec r @ [LF]) < 128"
  using dec_length[of a] dec_length[of b] dec_length[of r] int_results assms by fastforce


lemma received:
  assumes "data \<noteq> []" and "length data < length buf"
  obtains B0 B where "store_data buf (int (length data)) data = Inr B0" and "rd B0 0 = Inr (hd data)"
    and "length B0 = length buf" and "wr B0 (int (length data)) NUL = Inr B" and "length B = length buf"
    and "c_strlen B = Inr (length (cstr data))" and "take (length (cstr data)) B = cstr data"
proof -
  let ?P = "data @ drop (length data) buf" and ?B = "data @ NUL # drop (Suc (length data)) buf"
  have d: "drop (length data) buf = buf ! length data # drop (Suc (length data)) buf"
    using assms(2) by (rule Cons_nth_drop_Suc [symmetric])
  have c: "cstr ?B = cstr data"
  proof (cases "NUL \<in> set data")
    case True
    then show ?thesis unfolding cstr_def by (intro takeWhile_append1[of NUL]) simp_all
  next
    case False
    then have "cstr ?B = data" by (rule cstr_append)
    have "takeWhile (\<lambda>c. c \<noteq> NUL) data = data" by (rule takeWhile_eq_all_conv[THEN iffD2]) (use False in auto)
    then have "cstr data = data" by (simp only: cstr_def)
    with \<open>cstr ?B = data\<close> show ?thesis by simp
  qed
  have t: "take (length (cstr ?B)) ?B = cstr ?B" unfolding cstr_def by (rule takeWhile_eq_take [symmetric])
  have w: "wr (data @ x # r) (int (length data)) NUL = Inr (data @ NUL # r)" for x r by (simp add: wr_def)
  show thesis
  proof (rule that[of ?P ?B])
    show "store_data buf (int (length data)) data = Inr ?P" using assms by (simp add: store_data_def)
    show "rd ?P 0 = Inr (hd data)" using assms(1) by (cases data) (simp_all add: rd_def)
    show "wr ?P (int (length data)) NUL = Inr ?B"
      unfolding d by (rule w)
    show "c_strlen ?B = Inr (length (cstr data))" using c by (simp add: c_strlen_def)
    show "take (length (cstr data)) ?B = cstr data" using t unfolding c .
  qed (use assms in simp_all)
qed

text \<open>The code after the request has been terminated, with a continuation for what follows the \<open>send\<close>.\<close>

lemma answer_cases:
  assumes "length B = n" and "128 \<le> n"
    and "\<And>text. length text < 128 \<Longrightarrow> rbind (sprintf_to B text) send = f (cstr (text @ [NUL]))"
  shows "rbind (sscanf_request REQ_SIZE_MAX text) (\<lambda>(_, vals). case vals of
      None \<Rightarrow> rbind (sprintf_to B (''Failed to read input format.'' @ [LF])) send
    | Some (command, num_buf_1, operator, num_buf_2) \<Rightarrow>
        rbind (c_atoi num_buf_1) (\<lambda>number_1.
        rbind (c_atoi num_buf_2) (\<lambda>number_2.
        rbind (apply_operator operator number_1 number_2) (\<lambda>result.
        rbind (sprintf_to B (dec number_1 @ '' '' @ [operator] @ '' '' @ dec number_2 @ '' = '' @ dec result @ [LF])) send)))) =
    rbind (rbind (sscanf_request REQ_SIZE_MAX text) (\<lambda>(_, vals). case vals of
      None \<Rightarrow> Inr (''Failed to read input format.'' @ [LF])
    | Some (_, n1, oper, n2) \<Rightarrow>
        rbind (c_atoi n1) (\<lambda>a. rbind (c_atoi n2) (\<lambda>b. rbind (apply_operator oper a b) (\<lambda>r.
        Inr (cstr (dec a @ '' '' @ [oper] @ '' '' @ dec b @ '' = '' @ dec r @ [LF, NUL]))))))) f"
proof (cases "sscanf_request REQ_SIZE_MAX text")
  case (Inr res)
  obtain k vals where res: "res = (k, vals)" by (cases res)
  show ?thesis
  proof (cases vals)
    case None
    then show ?thesis using Inr res assms(3)[of "''Failed to read input format.'' @ [LF]"] by (simp add: cstr_def)
  next
    case (Some v)
    obtain cmd n1 oper n2 where v: "v = (cmd, n1, oper, n2)" by (cases v)
    show ?thesis
    proof (cases "c_atoi n1")
      case a: (Inr a)
      show ?thesis
      proof (cases "c_atoi n2")
        case b: (Inr b)
        show ?thesis
        proof (cases "apply_operator oper a b")
          case r: (Inr r)
          show ?thesis using assms(3)[OF reply_fits[OF a b r]] by (simp add: Inr res Some v a b r)
        qed (simp add: Inr res Some v a b)
      qed (simp add: Inr res Some v a)
    qed (simp add: Inr res Some v)
  qed
qed simp

lemma calc_request_reply:
  assumes "fst (kern (e_log s) (Recv fd 128)) = int (length (net (e_log s) fd))"
    and "net (e_log s) fd \<noteq> []" and "length (net (e_log s) fd) < 127" and "length buf = 128"
  shows "calc_request kern net buf fd s = rbind (calc_reply (net (e_log s) fd)) (\<lambda>msg.
    Inr (s\<lparr>e_log := e_log s @ [Recv fd 128, Send fd msg]\<rparr>))"
proof -
  obtain evs where k: "kern (e_log s) (Recv fd 128) = (int (length (net (e_log s) fd)), evs)"
    using assms(1) by (metis prod.collapse)
  have len: "length (net (e_log s) fd) < length buf" using assms(3,4) by simp
  obtain B0 B where B: "store_data buf (int (length (net (e_log s) fd))) (net (e_log s) fd) = Inr B0"
    "rd B0 0 = Inr (hd (net (e_log s) fd))" "length B0 = length buf"
    "wr B0 (int (length (net (e_log s) fd))) NUL = Inr B" "length B = length buf"
    "c_strlen B = Inr (length (cstr (net (e_log s) fd)))"
    "take (length (cstr (net (e_log s) fd))) B = cstr (net (e_log s) fd)" by (rule received[OF assms(2) len])
  have send: "rbind (sprintf_to b t) (\<lambda>b. send_string kern fd b (s\<lparr>e_log := e_log s @ [Recv fd 128]\<rparr>)) =
      Inr (s\<lparr>e_log := e_log s @ [Recv fd 128, Send fd (cstr (t @ [NUL]))]\<rparr>)"
    if "length t < 128" "length b = 128" for t b
    using send_sprintf(3)[of t b kern fd] that by (simp add: call_def sys_def)
  have lenB: "length B = 128" using B(5) assms(4) by simp
  have big: "128 \<le> (128::nat)" by simp
  note sendB = send[OF _ lenB]
  show ?thesis
    unfolding calc_request_def calc_reply_def
    using k B assms(2-4) send[of _ B0] answer_cases[OF lenB big sendB, of "cstr (net (e_log s) fd)"]
    by (simp add: sys_def REQ_SIZE_MAX_def)
qed

text \<open>What the second turn does with a buffer that starts with the data received.\<close>

lemma calc_respond_reply:
  assumes "take (length data) buf = data" and "data \<noteq> []" and "length data \<le> 128" and "length buf = 128"
  shows "calc_respond kern fd (int (length data)) buf s =
    (if 127 \<le> length data then Inr (True, s\<lparr>e_log := e_log s @ [Send fd (''Request too long. Goodbye'' @ [LF])]\<rparr>)
     else rbind (calc_reply data) (\<lambda>msg. Inr (False, s\<lparr>e_log := e_log s @ [Send fd msg]\<rparr>)))"
proof (cases "127 \<le> length data")
  case True
  have msg: "cstr ((''Request too long. Goodbye'' @ [LF]) @ [NUL]) = ''Request too long. Goodbye'' @ [LF]"
    by (simp add: cstr_def)
  have fits: "length (''Request too long. Goodbye'' @ [LF]) < length buf" using assms(4) by simp
  show ?thesis
    using True send_sprintf(1)[OF fits, of kern fd s "\<lambda>s. Inr (True, s)", unfolded msg]
    by (simp add: calc_respond_def call_def sys_def)
next
  case False
  then have len: "length data < length buf" using assms(4) by simp
  obtain B0 B where B: "store_data buf (int (length data)) data = Inr B0" "rd B0 0 = Inr (hd data)" "length B0 = length buf"
    "wr B0 (int (length data)) NUL = Inr B" "length B = length buf" "c_strlen B = Inr (length (cstr data))"
    "take (length (cstr data)) B = cstr data" by (rule received[OF assms(2) len])
  have "B0 = buf" using B(1) len assms(1) append_take_drop_id[of "length data" buf] by (simp add: store_data_def split: if_splits)
  note B = B[unfolded this]
  have send: "rbind (sprintf_to b t) (\<lambda>b. rbind (send_string kern fd b s) (\<lambda>s. Inr (False, s))) =
      Inr (False, s\<lparr>e_log := e_log s @ [Send fd (cstr (t @ [NUL]))]\<rparr>)"
    if "length t < 128" "length b = 128" for t b
    using send_sprintf(1)[of t b kern fd s "\<lambda>s. Inr (False, s)"] that by (simp add: call_def sys_def)
  have lenB: "length B = 128" using B(5) assms(4) by simp
  have big: "128 \<le> (128::nat)" by simp
  note sendB = send[OF _ lenB]
  show ?thesis
    unfolding calc_respond_def calc_reply_def
    using B assms(2-4) False send[of _ buf] answer_cases[OF lenB big sendB, of "cstr data"]
    by (simp add: REQ_SIZE_MAX_def)
qed

lemma udp_respond_reply:
  assumes "take (length data) buf = data" and "data \<noteq> []" and "length data \<le> 508" and "length buf = 508"
  shows "udp_respond kern fd (int (length data)) buf log =
    (if 127 \<le> length data then Inr (0, log @ [Sendto fd (''Request too long. Goodbye'' @ [LF])])
     else rbind (calc_reply data) (\<lambda>msg. Inr (0, log @ [Sendto fd msg])))"
proof (cases "127 \<le> length data")
  case True
  have msg: "cstr ((''Request too long. Goodbye'' @ [LF]) @ [NUL]) = ''Request too long. Goodbye'' @ [LF]"
    by (simp add: cstr_def)
  have fits: "length (''Request too long. Goodbye'' @ [LF]) < length buf" using assms(4) by simp
  show ?thesis
    using True send_sprintf(2)[OF fits, of kern fd log "\<lambda>log. Inr (0, log)", unfolded msg] by (simp add: udp_respond_def)
next
  case False
  then have len: "length data < length buf" using assms(4) by simp
  obtain B0 B where B: "store_data buf (int (length data)) data = Inr B0" "rd B0 0 = Inr (hd data)" "length B0 = length buf"
    "wr B0 (int (length data)) NUL = Inr B" "length B = length buf" "c_strlen B = Inr (length (cstr data))"
    "take (length (cstr data)) B = cstr data" by (rule received[OF assms(2) len])
  have "B0 = buf" using B(1) len assms(1) append_take_drop_id[of "length data" buf] by (simp add: store_data_def split: if_splits)
  note B = B[unfolded this]
  have send: "rbind (sprintf_to b t) (\<lambda>b. rbind (sendto_string kern fd b log) (\<lambda>log. Inr (0, log))) =
      Inr (0 :: int, log @ [Sendto fd (cstr (t @ [NUL]))])"
    if "length t < 128" "length b = 508" for t b
    using send_sprintf(2)[of t b kern fd log] that by simp
  have lenB: "length B = 508" using B(5) assms(4) by simp
  have big: "128 \<le> (508::nat)" by simp
  note sendB = send[OF _ lenB]
  show ?thesis
    unfolding udp_respond_def calc_reply_def
    using B assms(2-4) False send[of _ buf] answer_cases[OF lenB big sendB, of "cstr data"]
    by (simp add: REQ_SIZE_MAX_def)
qed

lemma udp_calc_request_reply:
  assumes "fst (kern log (Recvfrom fd 508)) = int (length (net log fd))"
    and "net log fd \<noteq> []" and "length (net log fd) < 127" and "length buf = 508"
  shows "udp_calc_request kern net buf fd log = rbind (calc_reply (net log fd)) (\<lambda>msg.
    Inr (0, log @ [Recvfrom fd 508, Sendto fd msg]))"
proof -
  have len: "length (net log fd) < length buf" using assms(3,4) by simp
  obtain B0 B where B: "store_data buf (int (length (net log fd))) (net log fd) = Inr B0"
    "rd B0 0 = Inr (hd (net log fd))" "length B0 = length buf"
    "wr B0 (int (length (net log fd))) NUL = Inr B" "length B = length buf"
    "c_strlen B = Inr (length (cstr (net log fd)))"
    "take (length (cstr (net log fd))) B = cstr (net log fd)" by (rule received[OF assms(2) len])
  have send: "rbind (sprintf_to b t) (\<lambda>b. rbind (sendto_string kern fd b (log @ [Recvfrom fd 508])) (\<lambda>log. Inr (0, log))) =
      Inr (0 :: int, log @ [Recvfrom fd 508, Sendto fd (cstr (t @ [NUL]))])"
    if "length t < 128" "length b = 508" for t b
    using send_sprintf(2)[of t b kern fd "log @ [Recvfrom fd 508]"] that by simp
  have lenB: "length B = 508" using B(5) assms(4) by simp
  have big: "128 \<le> (508::nat)" by simp
  note sendB = send[OF _ lenB]
  show ?thesis
    unfolding udp_calc_request_def calc_reply_def
    using B assms send[of _ B0] answer_cases[OF lenB big sendB, of "cstr (net log fd)"]
    by (simp add: log_sys_def MAX_UDP_PAYLOAD_SIZE_def)
qed

lemma sscanf_no_overflow:
  assumes "length xs \<le> lim"
  shows "sscanf_request lim xs \<noteq> Inl f"
proof (cases xs)
  case Nil
  then show ?thesis by (simp add: sscanf_request_def)
next
  case (Cons c r)
  let ?r = "dropWhile c_isspace r"
  let ?n1 = "takeWhile (\<lambda>c. \<not> c_isspace c) ?r"
  have r: "length ?r < lim" using length_dropWhile_le[of c_isspace r] Cons assms by simp
  then have n1: "\<not> lim \<le> length ?n1" using length_takeWhile_le[of "\<lambda>c. \<not> c_isspace c" ?r] by simp
  show ?thesis
  proof (cases "dropWhile c_isspace (dropWhile (\<lambda>c. \<not> c_isspace c) ?r)")
    case Nil
    show ?thesis unfolding Cons sscanf_request_def Let_def by (simp add: Nil n1)
  next
    case (Cons oper u)
    let ?n2 = "takeWhile (\<lambda>c. \<not> c_isspace c) (dropWhile c_isspace u)"
    have "length (oper # u) \<le> length ?r"
      using length_dropWhile_le[of c_isspace "dropWhile (\<lambda>c. \<not> c_isspace c) ?r"] length_dropWhile_le[of "\<lambda>c. \<not> c_isspace c" ?r]
      unfolding Cons by (rule le_trans)
    then have n2: "\<not> lim \<le> length ?n2"
      using r length_takeWhile_le[of "\<lambda>c. \<not> c_isspace c" "dropWhile c_isspace u"] length_dropWhile_le[of c_isspace u] by simp
    show ?thesis using \<open>xs = c # r\<close> n1 n2 Cons by (simp add: sscanf_request_def Let_def)
  qed
qed

lemma calc_reply_faults:
  assumes "calc_reply data = Inl e" and "length data < 127"
  shows "e = Signed_Overflow \<or> e = Div_By_Zero"
proof -
  have "length (cstr data) \<le> REQ_SIZE_MAX"
    using assms(2) length_takeWhile_le[of "\<lambda>c. c \<noteq> NUL" data] by (simp add: cstr_def REQ_SIZE_MAX_def)
  note scan = sscanf_no_overflow[OF this]
  have chk: "chk_int i = Inl f \<Longrightarrow> f = Signed_Overflow" for i f by (auto simp: chk_int_def split: if_splits)
  have atoi: "c_atoi t = Inl f \<Longrightarrow> f = Signed_Overflow" for t f
    by (auto simp: c_atoi_def split: list.splits if_splits dest: chk)
  have op: "apply_operator oper x y = Inl f \<Longrightarrow> f = Signed_Overflow \<or> f = Div_By_Zero" for oper x y f
    by (auto simp: apply_operator_def c_div_def split: if_splits dest: chk)
  show ?thesis
  proof (cases "hd data = CHR ''c''")
    case True
    obtain k vals where sc: "sscanf_request REQ_SIZE_MAX (cstr data) = Inr (k, vals)"
      using scan by (cases "sscanf_request REQ_SIZE_MAX (cstr data)") auto
    show ?thesis
    proof (cases vals)
      case (Some v)
      obtain c n1 oper n2 where v: "v = (c, n1, oper, n2)" by (cases v)
      show ?thesis using assms(1) True sc Some v atoi op
        by (cases "c_atoi n1"; cases "c_atoi n2") (auto simp: calc_reply_def rbind_def split: sum.splits)
    qed (use assms(1) True sc in \<open>simp add: calc_reply_def\<close>)
  qed (use assms(1) in \<open>simp add: calc_reply_def\<close>)
qed

lemma request_scan:
  assumes "\<not> c_isspace oper"
  shows "sscanf_request REQ_SIZE_MAX (''c '' @ dec a @ '' '' @ [oper] @ '' '' @ dec b) =
    (if 128 \<le> length (dec a) \<or> 128 \<le> length (dec b) then Inl Out_Of_Bounds else Inr (4, Some (CHR ''c'', dec a, oper, dec b)))"
proof -
  have sp: "c_isspace (CHR '' '')" by (simp add: c_isspace_def)
  have drop: "dropWhile c_isspace (dec i @ r) = dec i @ r" "dropWhile c_isspace (dec i) = dec i" for i r
    using dec_chars(1)[of i] dec_chars(2)[of "hd (dec i)" i] by (cases "dec i"; simp)+
  have take: "takeWhile (\<lambda>c. \<not> c_isspace c) (dec i @ CHR '' '' # r) = dec i"
    "dropWhile (\<lambda>c. \<not> c_isspace c) (dec i @ CHR '' '' # r) = CHR '' '' # r"
    "takeWhile (\<lambda>c. \<not> c_isspace c) (dec i) = dec i" for i r
  proof -
    have all: "\<forall>c \<in> set (dec i). \<not> c_isspace c" using dec_chars(2) by blast
    then show "takeWhile (\<lambda>c. \<not> c_isspace c) (dec i @ CHR '' '' # r) = dec i"
      "dropWhile (\<lambda>c. \<not> c_isspace c) (dec i @ CHR '' '' # r) = CHR '' '' # r"
      using sp by (simp_all add: takeWhile_append2 dropWhile_append2)
    show "takeWhile (\<lambda>c. \<not> c_isspace c) (dec i) = dec i"
      by (rule takeWhile_eq_all_conv[THEN iffD2]) (use all in blast)
  qed
  have ns: "\<not> Ball (set (dec i)) c_isspace" for i
    using dec_chars(1)[of i] dec_chars(2)[of "hd (dec i)" i] by (cases "dec i") auto
  show ?thesis
    using sp assms by (simp add: ns sscanf_request_def REQ_SIZE_MAX_def Let_def drop take dec_chars(1))
qed

lemma cstr_no_nul: "NUL \<notin> set xs \<Longrightarrow> cstr xs = xs" "NUL \<notin> set xs \<Longrightarrow> cstr (xs @ [NUL]) = xs"
proof -
  assume "NUL \<notin> set xs"
  then have "\<forall>c \<in> set xs. c \<noteq> NUL" by metis
  then show "cstr xs = xs" "cstr (xs @ [NUL]) = xs" unfolding cstr_def
    by (rule takeWhile_eq_all_conv[THEN iffD2], subst takeWhile_append2, auto)
qed

lemma calc_reply_request:
  assumes "- (2 ^ 31) \<le> a" and "a < 2 ^ 31" and "- (2 ^ 31) \<le> b" and "b < 2 ^ 31"
    and "\<not> c_isspace oper" and "oper \<noteq> NUL"
  shows "calc_reply (''c '' @ dec a @ '' '' @ [oper] @ '' '' @ dec b) =
    rbind (apply_operator oper a b) (\<lambda>r. Inr (dec a @ '' '' @ [oper] @ '' '' @ dec b @ '' = '' @ dec r @ [LF]))"
proof -
  let ?d = "''c '' @ dec a @ '' '' @ [oper] @ '' '' @ dec b"
  have "NUL \<notin> set ?d" using dec_chars(2) assms(6) by auto
  then have d: "cstr ?d = ?d" by (rule cstr_no_nul)
  have out: "cstr (dec a @ '' '' @ [oper] @ '' '' @ dec b @ '' = '' @ dec r @ [LF, NUL]) =
      dec a @ '' '' @ [oper] @ '' '' @ dec b @ '' = '' @ dec r @ [LF]" for r
  proof -
    have "NUL \<notin> set (dec a @ '' '' @ [oper] @ '' '' @ dec b @ '' = '' @ dec r @ [LF])" using dec_chars(2) assms(6) by auto
    from cstr_no_nul(2)[OF this] show ?thesis by simp
  qed
  have len: "\<not> (128 \<le> length (dec a) \<or> 128 \<le> length (dec b))"
    using dec_length[OF assms(1,2)] dec_length[OF assms(3,4)] by simp
  have sc: "sscanf_request REQ_SIZE_MAX (cstr ?d) = Inr (4, Some (CHR ''c'', dec a, oper, dec b))"
    unfolding d using request_scan[OF assms(5), of a b] len by simp
  show ?thesis
    unfolding calc_reply_def sc using atoi_dec[OF assms(1,2)] atoi_dec[OF assms(3,4)] out by simp
qed

lemma event_word:
  assumes "fd_ok client" and "0 \<le> flag" and "flag < 2 ^ 31"
  shows "event_arg client flag = Inr (word_of_int (client + flag * 2 ^ 32))"
    and "to_int (word_of_int (client + flag * 2 ^ 32)) = client"
    and "sint (word_of_int (client + flag * 2 ^ 32) :: 64 word) div 2 ^ 32 = flag"
proof -
  have c: "0 \<le> client" "client < 2 ^ 31" using assms(1) by (simp_all add: fd_ok_def)
  have "client AND push_bit 32 flag = 0"
  proof (rule bit_eqI)
    fix n
    have "client = take_bit 31 client" using c by (simp add: take_bit_int_eq_self)
    then have "\<not> bit client n" if "31 \<le> n" using that by (metis bit_take_bit_iff not_le)
    then show "bit (client AND push_bit 32 flag) n = bit 0 n"
      by (auto simp: bit_and_iff bit_push_bit_iff)
  qed
  then have "client OR (flag * 2 ^ 32) = client + flag * 2 ^ 32"
    using plus_and_or[of client "push_bit 32 flag"] by (simp add: push_bit_eq_mult)
  then have "(word_of_int client OR word_of_int (flag * 2 ^ 32) :: 64 word) = word_of_int (client + flag * 2 ^ 32)"
    by (simp only: of_int_or_eq [symmetric])
  then show "event_arg client flag = Inr (word_of_int (client + flag * 2 ^ 32))"
    using assms(2,3) by (simp add: event_arg_def)
  have "sint (word_of_int x :: 64 word) = x" if "0 \<le> x" "x < 2 ^ 63" for x
    using that by (simp add: sint_sbintrunc' signed_take_bit_int_eq_self)
  then have "sint (word_of_int (client + flag * 2 ^ 32) :: 64 word) = client + flag * 2 ^ 32"
    using c assms(2,3) by (simp del: of_int_add of_int_mult)
  then show "sint (word_of_int (client + flag * 2 ^ 32) :: 64 word) div 2 ^ 32 = flag" using c by simp
  have "(ucast (word_of_int (client + flag * 2 ^ 32) :: 64 word) :: 32 word) = word_of_int client"
  proof -
    have pos: "0 \<le> client + flag * 2 ^ 32" using c assms(2) by simp
    have "take_bit LENGTH(64) (client + flag * 2 ^ 32) = client + flag * 2 ^ 32"
      using c assms(2,3) by (intro take_bit_int_eq_self) simp_all
    then have "(ucast (word_of_int (client + flag * 2 ^ 32) :: 64 word) :: 32 word) = word_of_int (client + flag * 2 ^ 32)"
      using pos by (simp only: unsigned_of_int of_nat_nat)
    also have "\<dots> = word_of_int client + word_of_int flag * (4294967296 :: 32 word)" by simp
    also have "(4294967296 :: 32 word) = 0" by simp
    finally show ?thesis by simp
  qed
  then show "to_int (word_of_int (client + flag * 2 ^ 32)) = client"
    using c by (simp add: to_int_def sint_sbintrunc' signed_take_bit_int_eq_self)
qed

text \<open>What a request does to the endpoint, on every branch.\<close>

lemma rep_calc_request:
  assumes "ep_rep m F (Suc n) s a" and "fd_ok fd" and "recv_documented kern net" and "length buf = 128"
  shows "case calc_request kern net buf fd s of
      Inl e \<Rightarrow> e \<in> {Signed_Overflow, Div_By_Zero}
    | Inr s' \<Rightarrow> \<exists>cs A. ep_rep m F n s' (a\<lparr>a_clients := A, a_log := a_log a @ Recv fd 128 # cs\<rparr>) \<and>
        (cs = [] \<and> A = a_clients a \<and> fst (kern (a_log a) (Recv fd 128)) \<le> 0 \<or>
         (\<exists>msg. cs = [Send fd msg] \<and> A = a_clients a \<and> calc_reply (net (a_log a) fd) = Inr msg \<and>
           0 < length (net (a_log a) fd) \<and> length (net (a_log a) fd) < 127) \<or>
         cs = Send fd (''Request too long. Goodbye'' @ [LF]) # disc_calls (fst (snd (snd F))) fd \<and>
           A = a_clients a - {fd} \<and> 127 \<le> length (net (a_log a) fd))"
proof -
  have log: "e_log s = a_log a" using assms(1) by (simp add: ep_rep_def)
  obtain r evs where k: "kern (e_log s) (Recv fd 128) = (r, evs)" by fastforce
  have doc: "r = -1 \<or> 0 \<le> r \<and> r \<le> 128 \<and> int (length (net (e_log s) fd)) = r"
    using assms(3) k unfolding recv_documented_def by (metis fst_conv insertI1)
  consider (none) "r \<le> 0" | (short) "0 < r" "r < 127" | (long) "127 \<le> r" by linarith
  then show ?thesis
  proof cases
    case none
    then have "calc_request kern net buf fd s = Inr (s\<lparr>e_log := e_log s @ [Recv fd 128]\<rparr>)"
      using k by (simp add: calc_request_def sys_def REQ_SIZE_MAX_def store_data_def)
    then show ?thesis using none k log rep_call[OF rep_mono[OF assms(1), of n], of "[Recv fd 128]"]
      by (auto intro!: exI[of _ "[]"] exI[of _ "a_clients a"])
  next
    case short
    then have len: "length (net (e_log s) fd) < 127" "net (e_log s) fd \<noteq> []" "r = int (length (net (e_log s) fd))"
      using doc by auto
    then have run: "calc_request kern net buf fd s = rbind (calc_reply (net (e_log s) fd)) (\<lambda>msg.
        Inr (s\<lparr>e_log := e_log s @ [Recv fd 128, Send fd msg]\<rparr>))"
      using k assms(4) by (intro calc_request_reply) simp_all
    show ?thesis
    proof (cases "calc_reply (net (e_log s) fd)")
      case (Inl e)
      then show ?thesis using calc_reply_faults[OF Inl len(1)] run by simp
    next
      case (Inr msg)
      then show ?thesis using run log len rep_call[OF rep_mono[OF assms(1), of n], of "[Recv fd 128, Send fd msg]"]
        by (auto intro!: exI[of _ "[Send fd msg]"] exI[of _ "a_clients a"])
    qed
  next
    case long
    let ?s = "s\<lparr>e_log := e_log s @ [Recv fd 128, Send fd (''Request too long. Goodbye'' @ [LF])]\<rparr>"
    have net: "r \<le> 128" "int (length (net (e_log s) fd)) = r" using doc long by auto
    have st: "store_data buf r (net (e_log s) fd) = Inr (net (e_log s) fd @ drop (nat r) buf)"
      using net long assms(4) by (simp add: store_data_def)
    have rep: "ep_rep m F (Suc n) ?s (a\<lparr>a_log := a_log a @ [Recv fd 128, Send fd (''Request too long. Goodbye'' @ [LF])]\<rparr>)"
      by (rule rep_call[OF assms(1)])
    from rep_disconnect[OF rep assms(2), of kern] obtain s' where d: "endpoint_disconnect_client kern fd ?s = Inr (0, s')"
      "ep_rep m F n s' (a\<lparr>a_clients := a_clients a - {fd}, a_log := (a_log a @ [Recv fd 128, Send fd (''Request too long. Goodbye'' @ [LF])]) @
        disc_calls (fst (snd (snd F))) fd\<rparr>)" by auto
    have fits: "length (''Request too long. Goodbye'' @ [LF]) < length (net (e_log s) fd @ drop (nat r) buf)"
      using net long assms(4) by simp
    have msg: "cstr ((''Request too long. Goodbye'' @ [LF]) @ [NUL]) = ''Request too long. Goodbye'' @ [LF]"
      by (simp add: cstr_def)
    have "calc_request kern net buf fd s = Inr s'"
      unfolding calc_request_def Let_def sys_def REQ_SIZE_MAX_def
      using k long st d(1) send_sprintf(1)[OF fits, of kern fd "s\<lparr>e_log := e_log s @ [Recv fd 128]\<rparr>"
        "\<lambda>s. rbind (endpoint_disconnect_client kern fd s) (\<lambda>(_, s). Inr s)", unfolded msg]
      by (simp add: call_def sys_def)
    then show ?thesis using net long log d(2)
      by (auto intro!: exI[of _ "Send fd (''Request too long. Goodbye'' @ [LF]) # disc_calls (fst (snd (snd F))) fd"]
        exI[of _ "a_clients a - {fd}"])
  qed
qed

section \<open>Concrete requests\<close>

definition calc_kernel :: "string \<Rightarrow> kernel" where
  "calc_kernel msg log c = (case c of
       Recv fd n \<Rightarrow> (if int (length msg) \<le> n then int (length msg) else -1, [])
     | Recvfrom fd n \<Rightarrow> (if int (length msg) \<le> n then int (length msg) else -1, [])
     | _ \<Rightarrow> demo_kernel log c)"

definition calc_net :: "string \<Rightarrow> net" where
  "calc_net msg log fd = msg"

abbreviation zeros :: "nat \<Rightarrow> char list" where
  "zeros n \<equiv> replicate n NUL"

lemma calc_documented: "recv_documented (calc_kernel msg) (calc_net msg)"
  by (auto simp: recv_documented_def calc_kernel_def calc_net_def)

section \<open>Properties\<close>

text \<open>C27: The calculator answers.  For the request \<open>c A op B\<close>, where A and B are printed \<open>int\<close> values and
  \<open>op\<close> one of the four operators, and an operation that is defined, the server sends exactly
  \<open>A op B = R\<close> with the mathematical result R (division truncates), and makes no other call than the
  \<open>recv\<close> and the \<open>send\<close>.\<close>

theorem calc_request_answers:
  assumes "- (2 ^ 31) \<le> a" and "a < 2 ^ 31" and "- (2 ^ 31) \<le> b" and "b < 2 ^ 31"
    and "oper \<in> set ''+-*/''" and "apply_operator oper a b = Inr r" and "length buf = 128"
    and "net (e_log s) fd = ''c '' @ dec a @ '' '' @ [oper] @ '' '' @ dec b"
    and "fst (kern (e_log s) (Recv fd 128)) = int (length (net (e_log s) fd))"
  shows "calc_request kern net buf fd s = Inr (s\<lparr>e_log := e_log s @ [Recv fd 128,
      Send fd (dec a @ '' '' @ [oper] @ '' '' @ dec b @ '' = '' @ dec r @ [LF])]\<rparr>) \<and>
    r = (if oper = CHR ''+'' then a + b else if oper = CHR ''-'' then a - b
         else if oper = CHR ''*'' then a * b else a sdiv b)"
proof -
  have "length (net (e_log s) fd) < 127" using dec_length[OF assms(1,2)] dec_length[OF assms(3,4)] assms(8) by simp
  moreover have "net (e_log s) fd \<noteq> []" using assms(8) by simp
  ultimately have run: "calc_request kern net buf fd s = rbind (calc_reply (net (e_log s) fd)) (\<lambda>msg.
      Inr (s\<lparr>e_log := e_log s @ [Recv fd 128, Send fd msg]\<rparr>))"
    using assms(7,9) by (intro calc_request_reply)
  have "\<not> c_isspace oper" "oper \<noteq> NUL" using assms(5) by (auto simp: c_isspace_def)
  note reply = calc_reply_request[OF assms(1-4) this]
  have "r = (if oper = CHR ''+'' then a + b else if oper = CHR ''-'' then a - b
         else if oper = CHR ''*'' then a * b else a sdiv b)"
    using assms(5,6) by (auto simp: apply_operator_def c_div_def chk_int_def split: if_splits)
  then show ?thesis unfolding run assms(8) reply using assms(6) by simp
qed

lemma calc_request_answers_witness:
  "calc_request (calc_kernel ''c 7 / -2'') (calc_net ''c 7 / -2'') (zeros 128) 9 ep0 =
     Inr (ep0\<lparr>e_log := [Recv 9 128, Send 9 (''7 / -2 = -3'' @ [LF])]\<rparr>)"
proof -
  have dec: "dec 7 = ''7''" "dec (-2) = ''-2''" "dec (-3) = ''-3''"
    by (simp_all add: dec_def nat_digits.simps char_of_def bit_numeral_rec bit_Suc_0_iff)
  have r: "apply_operator (CHR ''/'') 7 (-2) = Inr (-3)" by (simp add: apply_operator_def c_div_def chk_int_def signed_divide_int_def)
  from calc_request_answers[of 7 "-2" "CHR ''/''" "-3" "zeros 128" "calc_net ''c 7 / -2''" ep0 9 "calc_kernel ''c 7 / -2''"] r
  show ?thesis by (simp add: dec calc_net_def calc_kernel_def ep0_def)
qed

text \<open>C26: \<open>calc_request\<close> on every branch, for any message and any content of its buffer: nothing but the
  \<open>recv\<close> when there is no message; a request of 127 bytes or more is answered by a goodbye, after which
  the client is disconnected through the endpoint; every other request is answered by one message.  No
  access leaves a buffer, and the only faults are a signed overflow and a division by zero.\<close>

theorem calc_request_branches:
  assumes "ep_rep m F (Suc n) s a" and "fd_ok fd" and "recv_documented kern net" and "length buf = 128"
  shows "case calc_request kern net buf fd s of
      Inl e \<Rightarrow> e \<in> {Signed_Overflow, Div_By_Zero}
    | Inr s' \<Rightarrow> \<exists>cs. e_log s' = e_log s @ Recv fd 128 # cs \<and>
        (cs = [] \<and> fst (kern (e_log s) (Recv fd 128)) \<le> 0 \<or>
         (\<exists>msg. cs = [Send fd msg] \<and> calc_reply (net (e_log s) fd) = Inr msg \<and> members s' = members s \<and>
           0 < length (net (e_log s) fd) \<and> length (net (e_log s) fd) < 127) \<or>
         cs = Send fd (''Request too long. Goodbye'' @ [LF]) # disc_calls (e_ep_selector s) fd \<and>
           members s' = members s - {word_of_int fd} \<and> 127 \<le> length (net (e_log s) fd))"
  using rep_calc_request[OF assms] members_minus[of "a_clients a" "{fd}"] assms(1,2)
  by (auto simp: ep_rep_def ep_fds_def split: sum.splits)

lemma calc_request_branches_witness:
  "calc_request (calc_kernel ''c 1 / 0'') (calc_net ''c 1 / 0'') (zeros 128) 7
     (case endpoint_create demo_kernel 8080 False ep0 of Inr s \<Rightarrow> s) = Inl Div_By_Zero \<and>
   Div_By_Zero \<in> {Signed_Overflow, Div_By_Zero}"
proof -
  let ?kern = "calc_kernel ''c 1 / 0''"
  obtain s a where s: "endpoint_create demo_kernel 8080 False ep0 = Inr s" "ep_rep (\<lambda>_. None) (3, 4, 5, 6) (Suc 6) s a"
    by (rule demo_create) simp
  have dec: "dec 1 = ''1''" "dec 0 = ''0''"
    by (simp_all add: dec_def nat_digits.simps char_of_def bit_numeral_rec bit_Suc_0_iff)
  have "calc_reply ''c 1 / 0'' = Inl Div_By_Zero"
    using calc_reply_request[of 1 0 "CHR ''/''"] by (simp add: dec apply_operator_def c_div_def c_isspace_def)
  then have run: "calc_request ?kern (calc_net ''c 1 / 0'') (zeros 128) 7 s = Inl Div_By_Zero"
    using calc_request_reply[of ?kern s 7 "calc_net ''c 1 / 0''" "zeros 128"] by (simp add: calc_net_def calc_kernel_def)
  have fd: "fd_ok 7" by (simp add: fd_ok_def)
  from calc_request_branches[OF s(2) fd calc_documented, of "zeros 128"] run s(1) show ?thesis by simp
qed

text \<open>C30: The TCP and the UDP server are equivalent on requests of 1 to 126 bytes: given the same bytes
  they fail with the same fault or send the same reply, although their buffers differ in size.\<close>

theorem calc_tcp_udp_equivalent:
  assumes "net (e_log s) fd = data" and "net log ufd = data" and "data \<noteq> []" and "length data < 127"
    and "fst (kern (e_log s) (Recv fd 128)) = int (length data)"
    and "fst (kern log (Recvfrom ufd 508)) = int (length data)" and "length buf = 128" and "length ubuf = 508"
  shows "(\<exists>e. calc_request kern net buf fd s = Inl e \<and> udp_calc_request kern net ubuf ufd log = Inl e) \<or>
    (\<exists>msg. calc_request kern net buf fd s = Inr (s\<lparr>e_log := e_log s @ [Recv fd 128, Send fd msg]\<rparr>) \<and>
      udp_calc_request kern net ubuf ufd log = Inr (0, log @ [Recvfrom ufd 508, Sendto ufd msg]))"
proof -
  have "calc_request kern net buf fd s = rbind (calc_reply data) (\<lambda>msg.
      Inr (s\<lparr>e_log := e_log s @ [Recv fd 128, Send fd msg]\<rparr>))"
    using calc_request_reply[of kern s fd net buf] assms by simp
  moreover have "udp_calc_request kern net ubuf ufd log = rbind (calc_reply data) (\<lambda>msg.
      Inr (0, log @ [Recvfrom ufd 508, Sendto ufd msg]))"
    using udp_calc_request_reply[of kern log ufd net ubuf] assms by simp
  ultimately show ?thesis by (cases "calc_reply data") auto
qed

lemma calc_tcp_udp_equivalent_witness:
  "\<exists>msg. calc_request (calc_kernel ''x'') (calc_net ''x'') (zeros 128) 9 ep0 = Inr (ep0\<lparr>e_log := [Recv 9 128, Send 9 msg]\<rparr>) \<and>
     udp_calc_request (calc_kernel ''x'') (calc_net ''x'') (zeros 508) 3 [] = Inr (0, [Recvfrom 3 508, Sendto 3 msg])"
proof -
  have "calc_request (calc_kernel ''x'') (calc_net ''x'') (zeros 128) 9 ep0 \<noteq> Inl e" for e
    using calc_request_reply[of "calc_kernel ''x''" ep0 9 "calc_net ''x''" "zeros 128"]
    by (simp add: calc_net_def calc_kernel_def calc_reply_def)
  then show ?thesis
    using calc_tcp_udp_equivalent[of "calc_net ''x''" ep0 9 "''x''" "[]" 3 "calc_kernel ''x''" "zeros 128" "zeros 508"]
    by (auto simp: calc_net_def calc_kernel_def ep0_def)
qed

text \<open>The descriptor and the event flags that \<open>client_event_processor\<close> packs into one pointer come out
  of it unchanged in \<open>client_event\<close>: the worker serves exactly that client, exactly when the flags
  have \<open>EPOLLIN\<close>.\<close>

theorem event_arg_roundtrip:
  assumes "fd_ok client" and "0 \<le> flag" and "flag < 2 ^ 31"
  shows "\<exists>w. event_arg client flag = Inr w \<and> to_int w = client \<and> sint w div 2 ^ 32 = flag \<and>
    client_event kern net buf w s =
      (if (word_of_int flag :: 32 word) AND EPOLLIN \<noteq> 0 then calc_request kern net buf client s else Inr s)"
  using event_word[OF assms] unfolding client_event_def Let_def
  by (intro exI[of _ "word_of_int (client + flag * 2 ^ 32)"]) (simp del: of_int_add of_int_mult)

lemma event_arg_roundtrip_witness:
  "\<exists>w. event_arg 7 8193 = Inr w \<and> to_int w = 7 \<and> sint w div 2 ^ 32 = 8193"
proof -
  have "fd_ok 7" by (simp add: fd_ok_def)
  from event_arg_roundtrip[OF this, of 8193 demo_kernel "calc_net []" "[]" ep0] show ?thesis by auto
qed

end
