(* ===== verification/Html_Service.thy ===== *)
theory Html_Service
  imports Calc_Service Http_Headers
begin

text \<open>
  The request handler \<open>html_answer\<close> of the HTTP server \<open>apps/Run_unix_srv.c\<close>, which parses the headers
  of a request with \<open>http.c\<close> and sends a page that lists them, and the job that calls it.  Its buffers
  are arrays of the source's sizes with any content at entry, so that what is read beyond the received
  bytes is whatever the stack held; reads in front of the pointer \<open>&in_buf[header_start]\<close>, which would
  still lie in \<open>in_buf\<close>, count as out of bounds.  The lemmas follow a well-formed request through the
  two loops of the handler to the bytes that are sent.
\<close>

section \<open>The functions of the C library\<close>

text \<open>\<open>strncat(dst, src, n)\<close> for a source string \<open>src\<close> without its null byte, and \<open>memset(buf, 0, n)\<close>.\<close>

definition c_strncat :: "char list \<Rightarrow> string \<Rightarrow> nat \<Rightarrow> char list result" where
  "c_strncat dst src n = rbind (c_strlen dst) (\<lambda>d.
     if d + length (take n src) < length dst
     then Inr (take d dst @ take n src @ NUL # drop (d + length (take n src) + 1) dst) else Inl Out_Of_Bounds)"

definition c_memset0 :: "char list \<Rightarrow> nat \<Rightarrow> char list result" where
  "c_memset0 buf n = (if n \<le> length buf then Inr (replicate n NUL @ drop n buf) else Inl Out_Of_Bounds)"

section \<open>The request handler\<close>

definition BUFFER_SIZE :: nat where
  "BUFFER_SIZE = 4096"

definition HEADER_BUFFER_SIZE :: int where
  "HEADER_BUFFER_SIZE = 48"

definition not_found_text :: string where
  "not_found_text = ''HTTP/1.1 404 Not Found'' @ [CR, LF] @ ''Connection: close''"

definition html_page_begin :: string where
  "html_page_begin = ''<!DOCTYPE html><html><h1>Welcome Sverre!</h1><p>These are the headers you sent me:</p><ul>''"

definition html_page_end :: string where
  "html_page_end = ''</ul></html>''"

definition response_text :: "int \<Rightarrow> string" where
  "response_text n = ''HTTP/1.1 200 OK'' @ [CR, LF] @ ''Content-Type: text/html'' @ [CR, LF] @
    ''Content-Length: '' @ dec n @ [CR, LF] @ ''Connection: close'' @ [CR, LF, CR, LF]"

text \<open>The loop that looks for the end of the headers.\<close>

function find_headers_end :: "char list \<Rightarrow> int \<Rightarrow> int \<Rightarrow> int result" where
  "find_headers_end in_buf bytes_read header_end =
    (if header_end < bytes_read
     then rbind (scan_up (\<lambda>c i. c \<noteq> CR \<and> i < bytes_read) in_buf 0 header_end) (\<lambda>header_end.
          rbind (rd in_buf (header_end + 1)) (\<lambda>c1.
          rbind (rd in_buf (header_end + 2)) (\<lambda>c2.
          rbind (rd in_buf (header_end + 3)) (\<lambda>c3.
          if c1 = LF \<and> c2 = CR \<and> c3 = LF then Inr header_end
          else rbind (chk_int (header_end + 2)) (find_headers_end in_buf bytes_read)))))
     else Inr header_end)"
  by pat_completeness auto
termination
  by (relation "measure (\<lambda>(b, n, i). nat (n - i))") (auto simp: chk_int_def dest!: scan_up_ge split: if_splits)

declare find_headers_end.simps [simp del, c_eval]

text \<open>The loop that writes the headers as list items into \<open>in_buf\<close>.\<close>

function list_items :: "int \<Rightarrow> http_header list \<Rightarrow> int \<Rightarrow> char list \<Rightarrow> char list \<Rightarrow> (char list \<times> char list) result" where
  "list_items header_count header_buffer i in_buf out_buf =
    (if i < header_count
     then if 0 \<le> i \<and> i < int (length header_buffer)
          then rbind (c_strcpy out_buf 0 (''<li>'' @ [NUL])) (\<lambda>out_buf.
               rbind (http_header_to_str (drop 4 out_buf) (header_buffer ! nat i) (word_of_nat (BUFFER_SIZE - 4))) (\<lambda>(_, tail).
               rbind (c_strncat (take 4 out_buf @ tail) ''</li>'' 6) (\<lambda>out_buf.
               rbind (c_strlen out_buf) (\<lambda>n.
               rbind (c_strncat in_buf (cstr out_buf) n) (\<lambda>in_buf.
               list_items header_count header_buffer (i + 1) in_buf out_buf)))))
          else Inl Out_Of_Bounds
     else Inr (in_buf, out_buf))"
  by pat_completeness auto
termination
  by (relation "measure (\<lambda>(n, hb, i, b, out_buf). nat (n - i))") auto

declare list_items.simps [simp del, c_eval]

text \<open>The four arrays are the automatic variables of the function, with any content at entry.\<close>

definition html_answer :: "kernel \<Rightarrow> net \<Rightarrow> char list \<Rightarrow> char list \<Rightarrow> http_header list \<Rightarrow> char list \<Rightarrow> int \<Rightarrow> ep \<Rightarrow> ep result" where
  "html_answer kern net in_buf out_buf header_buffer response fd s =
    (let data = net (e_log s) fd;
         ((bytes_read, _), s) = sys kern (Recv fd (int (BUFFER_SIZE - 1))) s
     in rbind (store_data in_buf bytes_read data) (\<lambda>in_buf.
        rbind (wr in_buf bytes_read NUL) (\<lambda>in_buf.
        if bytes_read \<le> 0 then Inr s
        else rbind (rd in_buf 5) (\<lambda>c.
          if c \<noteq> CHR '' ''
          then rbind (c_strcpy out_buf 0 (not_found_text @ [NUL])) (\<lambda>out_buf. send_string kern fd out_buf s)
          else
            rbind (scan_up (\<lambda>c i. c \<noteq> CR) in_buf 0 0) (\<lambda>header_start.
            rbind (chk_int (header_start + 2)) (\<lambda>header_start.
            rbind (find_headers_end in_buf bytes_read header_start) (\<lambda>header_end.
            rbind (chk_int (header_end - header_start)) (\<lambda>n.
            rbind (http_str_to_headers header_buffer HEADER_BUFFER_SIZE (drop (nat header_start) in_buf) (word_of_int n))
              (\<lambda>(header_count, header_buffer).
            rbind (c_memset0 in_buf BUFFER_SIZE) (\<lambda>in_buf.
            rbind (list_items header_count header_buffer 0 in_buf out_buf) (\<lambda>(in_buf, out_buf).
            rbind (c_strlen in_buf) (\<lambda>html_page_headers_len.
            (let content_length = word_of_nat (length html_page_begin) + word_of_nat html_page_headers_len +
                   word_of_nat (length html_page_end) - (1 :: 64 word)
             in rbind (sprintf_to response (response_text (sint content_length))) (\<lambda>response.
                rbind (c_strcpy out_buf 0 response) (\<lambda>out_buf.
                rbind (c_strncat out_buf html_page_begin (length html_page_begin)) (\<lambda>out_buf.
                rbind (c_strlen in_buf) (\<lambda>n.
                rbind (c_strncat out_buf (cstr in_buf) n) (\<lambda>out_buf.
                rbind (c_strncat out_buf html_page_end (length html_page_end)) (\<lambda>out_buf.
                send_string kern fd out_buf s)))))))))))))))))))"

text \<open>The same function as the two turns of a worker, the call of \<open>recv\<close> and what follows it.\<close>

definition html_receive :: "kernel \<Rightarrow> net \<Rightarrow> char list \<Rightarrow> int \<Rightarrow> ep \<Rightarrow> (int \<times> char list \<times> ep) result" where
  "html_receive kern net in_buf fd s =
    (let data = net (e_log s) fd;
         ((bytes_read, _), s) = sys kern (Recv fd (int (BUFFER_SIZE - 1))) s
     in rbind (store_data in_buf bytes_read data) (\<lambda>in_buf. Inr (bytes_read, in_buf, s)))"

definition html_respond :: "kernel \<Rightarrow> char list \<Rightarrow> http_header list \<Rightarrow> char list \<Rightarrow> int \<Rightarrow> int \<Rightarrow> char list \<Rightarrow> ep \<Rightarrow> ep result" where
  "html_respond kern out_buf header_buffer response fd bytes_read in_buf s =
    rbind (wr in_buf bytes_read NUL) (\<lambda>in_buf.
    if bytes_read \<le> 0 then Inr s
    else rbind (rd in_buf 5) (\<lambda>c.
      if c \<noteq> CHR '' ''
      then rbind (c_strcpy out_buf 0 (not_found_text @ [NUL])) (\<lambda>out_buf. send_string kern fd out_buf s)
      else
        rbind (scan_up (\<lambda>c i. c \<noteq> CR) in_buf 0 0) (\<lambda>header_start.
        rbind (chk_int (header_start + 2)) (\<lambda>header_start.
        rbind (find_headers_end in_buf bytes_read header_start) (\<lambda>header_end.
        rbind (chk_int (header_end - header_start)) (\<lambda>n.
        rbind (http_str_to_headers header_buffer HEADER_BUFFER_SIZE (drop (nat header_start) in_buf) (word_of_int n))
          (\<lambda>(header_count, header_buffer).
        rbind (c_memset0 in_buf BUFFER_SIZE) (\<lambda>in_buf.
        rbind (list_items header_count header_buffer 0 in_buf out_buf) (\<lambda>(in_buf, out_buf).
        rbind (c_strlen in_buf) (\<lambda>html_page_headers_len.
        (let content_length = word_of_nat (length html_page_begin) + word_of_nat html_page_headers_len +
               word_of_nat (length html_page_end) - (1 :: 64 word)
         in rbind (sprintf_to response (response_text (sint content_length))) (\<lambda>response.
            rbind (c_strcpy out_buf 0 response) (\<lambda>out_buf.
            rbind (c_strncat out_buf html_page_begin (length html_page_begin)) (\<lambda>out_buf.
            rbind (c_strlen in_buf) (\<lambda>n.
            rbind (c_strncat out_buf (cstr in_buf) n) (\<lambda>out_buf.
            rbind (c_strncat out_buf html_page_end (length html_page_end)) (\<lambda>out_buf.
            send_string kern fd out_buf s)))))))))))))))))"

lemma html_answer_parts:
  "html_answer kern net in_buf out_buf header_buffer response fd s =
    rbind (html_receive kern net in_buf fd s) (\<lambda>(n, in_buf, s). html_respond kern out_buf header_buffer response fd n in_buf s)"
  unfolding html_answer_def html_receive_def html_respond_def Let_def case_prod_unfold
  by (simp only: rbind_assoc rbind_simps fst_conv snd_conv)

definition html_client_event :: "kernel \<Rightarrow> net \<Rightarrow> char list \<Rightarrow> char list \<Rightarrow> http_header list \<Rightarrow> char list \<Rightarrow> 64 word \<Rightarrow> ep \<Rightarrow> ep result" where
  "html_client_event kern net in_buf out_buf header_buffer response args s =
    (let client = to_int args; event_flag = sint args div 2 ^ 32
     in if (word_of_int event_flag :: 32 word) AND EPOLLIN \<noteq> 0
        then html_answer kern net in_buf out_buf header_buffer response client s else Inr s)"

section \<open>Strings in arrays\<close>

lemma strncat_ok:
  assumes "cstr dst = a" and "length a + length (take n t) < length dst" and "NUL \<notin> set t"
  obtains dst' where "c_strncat dst t n = Inr dst'" and "cstr dst' = a @ take n t" and "length dst' = length dst"
    and "NUL \<in> set dst'"
proof -
  have "length (cstr dst) < length dst" using assms(1,2) by simp
  note nul = cstr_split(2)[OF this]
  have pre: "take (length a) dst = a" using assms(1) by (auto simp: cstr_def takeWhile_eq_take [symmetric])
  have a: "NUL \<notin> set a" using assms(1) set_takeWhileD[of NUL "\<lambda>c. c \<noteq> NUL" dst] by (auto simp: cstr_def)
  have t: "NUL \<notin> set (take n t)" using assms(3) set_take_subset[of n t] by blast
  let ?d = "(a @ take n t) @ NUL # drop (length a + length (take n t) + 1) dst"
  have "c_strncat dst t n = Inr ?d"
    using nul assms(1,2) pre by (simp add: c_strncat_def c_strlen_def)
  moreover have "cstr ?d = a @ take n t" using a t by (intro cstr_append) auto
  moreover have "length ?d = length dst" using assms(2) by simp
  ultimately show thesis using that by simp
qed

lemma strcpy_ok:
  assumes "cstr src = t" and "length t < length src" and "length t < length dst" and "length t < 2 ^ 63"
  shows "c_strcpy dst 0 src = Inr (put_cstr t dst)"
proof -
  obtain rest where src: "src = t @ NUL # rest" using cstr_split(1)[of src] assms(1,2) by auto
  have nul: "NUL \<notin> set t" using assms(1) set_takeWhileD[of NUL "\<lambda>c. c \<noteq> NUL" src] by (auto simp: cstr_def)
  have "unat (word_of_nat (length t + 1) :: 64 word) = length t + 1" using assms(4) by (intro unat_word_of_nat) simp
  then show ?thesis
    unfolding c_strcpy_def src c_strlen_append[OF nul] rbind_simps copy_bytes_def
    using assms(3) by (simp only:) (simp add: put_cstr_def)
qed

lemma send_string_cstr:
  assumes "NUL \<in> set buf"
  shows "send_string kern fd buf s = Inr (call kern (Send fd (cstr buf)) s)"
  using assms by (simp add: send_string_def c_strlen_def cstr_def takeWhile_eq_take [symmetric])

section \<open>A page of headers\<close>

definition item :: "header_line \<Rightarrow> string" where
  "item l = ''<li>'' @ l_key l @ '': '' @ l_value l @ ''</li>''"

definition items :: "header_line list \<Rightarrow> string" where
  "items ls = concat (map item ls)"

definition page_of :: "header_line list \<Rightarrow> string" where
  "page_of ls = html_page_begin @ items ls @ html_page_end"

lemma items_simps [simp]: "items [] = []" "items (l # ls) = item l @ items ls"
  by (simp_all add: items_def)

lemma item_nul: "line_ok l \<Longrightarrow> NUL \<notin> set (item l)"
  by (auto simp: item_def line_ok_def trimmed_def)

lemma item_length: "line_fits l \<Longrightarrow> length (item l) \<le> 137"
  by (simp add: item_def line_fits_def)

lemma list_items_ok:
  assumes "\<forall>k < length ls. header_holds (l_key (ls ! k)) (l_value (ls ! k)) (hb ! (i + k))"
    and "\<forall>l \<in> set ls. line_ok l" and "\<forall>l \<in> set ls. line_fits l" and "i + length ls \<le> length hb"
    and "cstr in_buf = a" and "length a + length (items ls) < length in_buf" and "length out_buf = 4096"
  shows "\<exists>in' out'. list_items (int (i + length ls)) hb (int i) in_buf out_buf = Inr (in', out') \<and>
    cstr in' = a @ items ls \<and> length in' = length in_buf \<and> length out' = 4096"
  using assms
proof (induction ls arbitrary: i in_buf out_buf a)
  case Nil
  then show ?case by (subst list_items.simps) simp
next
  case (Cons l ls)
  have l: "line_ok l" "line_fits l" using Cons.prems(2,3) by simp_all
  have holds: "header_holds (l_key l) (l_value l) (hb ! i)" using Cons.prems(1) by force
  have cp: "c_strcpy out_buf 0 (''<li>'' @ [NUL]) = Inr (put_cstr ''<li>'' out_buf)"
    by (rule strcpy_ok) (use Cons.prems(7) in \<open>simp_all add: cstr_def\<close>)
  let ?text = "l_key l @ '': '' @ l_value l"
  have t4: "take 4 (put_cstr ''<li>'' out_buf) = ''<li>''" "length (drop 4 (put_cstr ''<li>'' out_buf)) = 4092"
    using Cons.prems(7) by (simp_all add: put_cstr_def)
  have len: "unat (word_of_nat (BUFFER_SIZE - 4) :: 64 word) = 4092" by (simp add: BUFFER_SIZE_def)
  have pr: "http_header_to_str (drop 4 (put_cstr ''<li>'' out_buf)) (hb ! i) (word_of_nat (BUFFER_SIZE - 4)) =
      Inr (None, put_cstr ?text (drop 4 (put_cstr ''<li>'' out_buf)))"
    using header_to_str_holds[OF holds, of "word_of_nat (BUFFER_SIZE - 4)" "drop 4 (put_cstr ''<li>'' out_buf)"] l(2)
    unfolding len t4(2) by (simp add: line_fits_def)
  let ?o1 = "''<li>'' @ put_cstr ?text (drop 4 (put_cstr ''<li>'' out_buf))"
  have nt: "NUL \<notin> set ?text" using l(1) by (auto simp: line_ok_def trimmed_def)
  have o1: "cstr ?o1 = ''<li>'' @ ?text" "length ?o1 = 4096"
  proof -
    have "?o1 = (''<li>'' @ ?text) @ NUL # drop (length ?text + 1) (drop 4 (put_cstr ''<li>'' out_buf))"
      by (simp add: put_cstr_def)
    then show "cstr ?o1 = ''<li>'' @ ?text" using nt by (simp only:) (rule cstr_append, auto)
    show "length ?o1 = 4096" using t4(2) l(2) by (subst length_append, subst length_put_cstr) (simp_all add: line_fits_def)
  qed
  obtain o2 where o2: "c_strncat ?o1 ''</li>'' 6 = Inr o2" "cstr o2 = (''<li>'' @ ?text) @ take 6 ''</li>''"
    "length o2 = length ?o1" "NUL \<in> set o2"
    by (rule strncat_ok[OF o1(1), of 6 "''</li>''"]) (use o1(2) l(2) in \<open>simp_all add: line_fits_def\<close>)
  have o2': "cstr o2 = item l" "length o2 = 4096" using o2(2,3) o1(2) by (simp_all add: item_def)
  obtain b where b: "c_strncat in_buf (item l) (length (item l)) = Inr b" "cstr b = a @ take (length (item l)) (item l)"
    "length b = length in_buf" "NUL \<in> set b"
    by (rule strncat_ok[OF Cons.prems(5), of "length (item l)" "item l"]) (use Cons.prems(6) item_nul[OF l(1)] in simp_all)
  have rest: "\<forall>k < length ls. header_holds (l_key (ls ! k)) (l_value (ls ! k)) (hb ! (Suc i + k))"
    using Cons.prems(1) by force
  obtain in' out' where r: "list_items (int (Suc i + length ls)) hb (int (Suc i)) b o2 = Inr (in', out')"
    "cstr in' = (a @ item l) @ items ls" "length in' = length b" "length out' = 4096"
    using Cons.IH[OF rest, of b "a @ item l" o2] Cons.prems(2-4,6) b(2,3) o2'(2) by auto
  have step: "list_items (int (i + length (l # ls))) hb (int i) in_buf out_buf =
      list_items (int (Suc i + length ls)) hb (int (Suc i)) b o2"
    using Cons.prems(4) cp pr t4(1) o2(1,4) o2'(1) b(1)
    by (subst list_items.simps) (simp add: c_strlen_def add.commute)
  show ?case using r b(3) step by auto
qed

lemma line_of_first: "line_ok l \<Longrightarrow> \<exists>c r. line_of l = c # r \<and> c \<noteq> CR"
  using line_of_pos[of l] CR_line[of l] by (cases "line_of l") auto

lemma find_headers_end_block:
  assumes "\<forall>l \<in> set ls. line_ok l" and "ls \<noteq> []"
    and "length (pre @ block ls) + 2 \<le> n" and "n < 2 ^ 31"
  shows "find_headers_end (pre @ block ls @ CR # LF # post) (int n) (int (length pre)) =
    Inr (int (length (pre @ block ls)) - 2)"
  using assms
proof (induction ls arbitrary: pre)
  case Nil
  then show ?case by simp
next
  case (Cons l ls)
  let ?len = "length pre + length (line_of l)"
  let ?str = "pre @ line_of l @ CR # LF # block ls @ CR # LF # post"
  have l: "line_ok l" using Cons.prems(1) by simp
  have scan: "scan_up (\<lambda>c i. c \<noteq> CR \<and> i < int n) ?str 0 (int (length pre)) = Inr (int ?len)"
  proof -
    have "scan_up (\<lambda>c i. c \<noteq> CR \<and> i < int n) ?str 0 (int (length pre)) = Inr (int (length pre) + int (length (line_of l)))"
    proof (rule scan_up_span)
      fix k assume k: "k < length (line_of l)"
      have "line_of l ! k \<noteq> CR" using CR_line[OF l] nth_mem[OF k] by metis
      then show "line_of l ! k \<noteq> CR \<and> int (length pre) + int k < int n"
        using k Cons.prems(3) by simp
    qed (use Cons.prems(3,4) in simp_all)
    then show ?thesis by simp
  qed
  have nth: "?str ! (?len + 1) = LF" "?str ! (?len + 2) = hd (block ls @ [CR])" "?len + 3 < length ?str"
  proof -
    have s: "?str = (pre @ line_of l) @ CR # LF # block ls @ CR # LF # post" by simp
    show "?str ! (?len + 1) = LF" unfolding s by (subst nth_append) simp
    show "?str ! (?len + 2) = hd (block ls @ [CR])"
      unfolding s by (subst nth_append) (cases "block ls"; simp)
    show "?len + 3 < length ?str" by simp
  qed
  have rd: "rd ?str (int ?len + 1) = Inr LF" "rd ?str (int ?len + 2) = Inr (hd (block ls @ [CR]))"
    "rd ?str (int ?len + 3) = Inr (?str ! (?len + 3))"
  proof -
    have n: "nat (int ?len + 1) = ?len + 1" "nat (int ?len + 2) = ?len + 2" "nat (int ?len + 3) = ?len + 3" by simp_all
    show "rd ?str (int ?len + 1) = Inr LF" "rd ?str (int ?len + 2) = Inr (hd (block ls @ [CR]))"
      "rd ?str (int ?len + 3) = Inr (?str ! (?len + 3))"
      unfolding rd_def n nth(1,2) using nth(3) by simp_all
  qed
  have lt: "int (length pre) < int n" using Cons.prems(3) by simp
  note unfold = find_headers_end.simps[of ?str "int n" "int (length pre)"]
  show ?case
  proof (cases ls)
    case Nil
    have s: "?str = (pre @ line_of l @ [CR, LF, CR]) @ LF # post" using Nil by simp
    have l3: "?len + 3 = length (pre @ line_of l @ [CR, LF, CR])" by simp
    have "?str ! (?len + 3) = LF" unfolding l3 s by (rule nth_append_length)
    then have "find_headers_end ?str (int n) (int (length pre)) = Inr (int ?len)"
      using rd lt scan by (subst unfold) (simp add: Nil)
    then show ?thesis using Nil by simp
  next
    case (Cons l' ls')
    obtain c r where c: "line_of l' = c # r" "c \<noteq> CR" using line_of_first[of l'] Cons.prems(1) Cons by auto
    have c2: "hd (block ls @ [CR]) \<noteq> CR" using c Cons by simp
    have chk: "chk_int (int ?len + 2) = Inr (int (length (pre @ line_of l @ [CR, LF])))"
      using Cons.prems(3,4) by (simp add: chk_int_def)
    have step: "find_headers_end ?str (int n) (int (length pre)) =
        find_headers_end ?str (int n) (int (length (pre @ line_of l @ [CR, LF])))"
      using rd lt scan c2 by (subst unfold) (simp only: if_True rbind_simps if_False simp_thms chk)
    have "find_headers_end ((pre @ line_of l @ [CR, LF]) @ block ls @ CR # LF # post) (int n)
        (int (length (pre @ line_of l @ [CR, LF]))) = Inr (int (length ((pre @ line_of l @ [CR, LF]) @ block ls)) - 2)"
      using Cons.prems Cons by (intro Cons.IH) simp_all
    then show ?thesis using step by simp
  qed
qed

lemma html_headers_parsed:
  assumes "\<forall>l \<in> set ls. line_ok l" and "\<forall>l \<in> set ls. line_fits l" and "\<forall>hr \<in> set hb. header_ok hr"
    and "length hb = 48" and "length ls \<le> 48" and "ls \<noteq> []" and "length (block ls @ CR # LF # post) < 2 ^ 31"
  shows "http_str_to_headers hb HEADER_BUFFER_SIZE (block ls @ CR # LF # post) (word_of_int (int (length (block ls)) - 2)) =
      Inr (int (length ls), fill hb 0 ls)"
    and "\<forall>k < length ls. header_holds (l_key (ls ! k)) (l_value (ls ! k)) (fill hb 0 ls ! (0 + k))"
proof -
  let ?n = "word_of_int (int (length (block ls)) - 2) :: 64 word"
  have two: "2 \<le> length (block ls)" using assms(6) by (cases ls) auto
  have n: "unat ?n = length (block ls) - 2"
  proof -
    have "?n = word_of_nat (length (block ls) - 2)" using two by (simp add: of_nat_diff)
    moreover have "length (block ls) - 2 < 2 ^ 64" using assms(7) by simp
    ultimately show ?thesis using unat_word_of_nat[of "length (block ls) - 2"] by (simp only:)
  qed
  have cr: "next_cr (block ls @ CR # LF # post) ?n (int (length (block ls))) = Inr (int (length (block ls)))"
    unfolding next_cr_def by (subst scan_up.simps) (simp add: rd_def)
  have all: "filter line_fits ls = ls" using assms(2) by simp
  have cap: "(48 :: nat) \<le> length hb" using assms(4) by simp
  have "http_str_to_headers hb (int 48) (block ls @ CR # LF # post) ?n = Inr (int (length ls), fill hb 0 ls)"
    using str_to_headers_block[OF assms(1,3) cap assms(7) _ _ assms(6), of ?n] cr n two assms(5) all by (simp add: Let_def)
  then show "http_str_to_headers hb HEADER_BUFFER_SIZE (block ls @ CR # LF # post) ?n = Inr (int (length ls), fill hb 0 ls)"
    by (simp add: HEADER_BUFFER_SIZE_def)
  show "\<forall>k < length ls. header_holds (l_key (ls ! k)) (l_value (ls ! k)) (fill hb 0 ls ! (0 + k))"
  proof (intro allI impI)
    fix k assume k: "k < length ls"
    then have "fill hb 0 ls ! (0 + k) = parsed (hb ! k) (ls ! k)" using fill_nth[OF k, of 0 hb] assms(4,5) by simp
    moreover have "header_ok (hb ! k)" using assms(3,4,5) k by simp
    ultimately show "header_holds (l_key (ls ! k)) (l_value (ls ! k)) (fill hb 0 ls ! (0 + k))"
      using header_holds_parsed[of "hb ! k" "ls ! k"] assms(1,2) k by simp
  qed
qed

text \<open>What remains to be done once the items have been written into \<open>in_buf\<close>.\<close>

lemma dec_response_nul: "NUL \<notin> set (response_text n)"
  using dec_chars(2)[of _ n] by (auto simp: response_text_def)

lemma page_sent:
  assumes "cstr in_buf = t" and "length t < length in_buf" and "length out_buf = 4096" and "length response = 128"
    and "length (response_text (int (102 + length t) - 1) @ html_page_begin @ t @ html_page_end) < 4096"
  shows "rbind (c_strlen in_buf) (\<lambda>html_page_headers_len.
      (let content_length = word_of_nat (length html_page_begin) + word_of_nat html_page_headers_len +
             word_of_nat (length html_page_end) - (1 :: 64 word)
       in rbind (sprintf_to response (response_text (sint content_length))) (\<lambda>response.
          rbind (c_strcpy out_buf 0 response) (\<lambda>out_buf.
          rbind (c_strncat out_buf html_page_begin (length html_page_begin)) (\<lambda>out_buf.
          rbind (c_strlen in_buf) (\<lambda>n.
          rbind (c_strncat out_buf (cstr in_buf) n) (\<lambda>out_buf.
          rbind (c_strncat out_buf html_page_end (length html_page_end)) (\<lambda>out_buf.
          send_string kern fd out_buf s)))))))) =
    Inr (call kern (Send fd (response_text (int (102 + length t) - 1) @ html_page_begin @ t @ html_page_end)) s)"
proof -
  note nul = cstr_split(2)[of in_buf]
  have lens: "length html_page_begin = 90" "length html_page_end = 12"
    by (simp_all add: html_page_begin_def html_page_end_def)
  have t: "NUL \<notin> set t" using assms(1) set_takeWhileD[of NUL "\<lambda>c. c \<noteq> NUL" in_buf] by (auto simp: cstr_def)
  have sl: "c_strlen in_buf = Inr (length t)" using nul assms(1,2) by (simp add: c_strlen_def)
  have small: "length t < 4096" using assms(5) by simp
  have cl: "sint (word_of_nat (length html_page_begin) + word_of_nat (length t) + word_of_nat (length html_page_end) - (1 :: 64 word)) =
      int (102 + length t) - 1"
  proof -
    have "word_of_nat (length html_page_begin) + word_of_nat (length t) + word_of_nat (length html_page_end) - (1 :: 64 word) =
        word_of_int (int (102 + length t) - 1)" by (simp add: lens)
    moreover have "sint (word_of_int x :: 64 word) = x" if "0 \<le> x" "x < 2 ^ 63" for x
      using that by (simp add: sint_sbintrunc' signed_take_bit_int_eq_self)
    ultimately show ?thesis using small by (simp del: of_int_add of_int_diff of_nat_add)
  qed
  let ?r = "response_text (int (102 + length t) - 1)"
  have rl: "length ?r < 128" using dec_length[of "int (102 + length t) - 1"] small by (simp add: response_text_def)
  have rn: "NUL \<notin> set ?r" by (rule dec_response_nul)
  let ?resp = "?r @ NUL # drop (Suc (length ?r)) response"
  have sp: "sprintf_to response ?r = Inr ?resp" using rl assms(4) by (simp add: sprintf_to_def)
  have c1: "c_strcpy out_buf 0 ?resp = Inr (put_cstr ?r out_buf)"
    by (rule strcpy_ok) (use rl rn assms(3) in \<open>simp_all add: cstr_append\<close>)
  have o1: "cstr (put_cstr ?r out_buf) = ?r" "length (put_cstr ?r out_buf) = 4096"
    using rn rl assms(3) by (simp_all add: cstr_put_cstr length_put_cstr)
  have nulls: "NUL \<notin> set html_page_begin" "NUL \<notin> set html_page_end" by (simp_all add: html_page_begin_def html_page_end_def)
  obtain o2 where o2: "c_strncat (put_cstr ?r out_buf) html_page_begin (length html_page_begin) = Inr o2"
    "cstr o2 = ?r @ take (length html_page_begin) html_page_begin" "length o2 = length (put_cstr ?r out_buf)" "NUL \<in> set o2"
    by (rule strncat_ok[OF o1(1), of "length html_page_begin" html_page_begin]) (use assms(5) o1(2) nulls in simp_all)
  obtain o3 where o3: "c_strncat o2 t (length t) = Inr o3" "cstr o3 = (?r @ html_page_begin) @ take (length t) t"
    "length o3 = length o2" "NUL \<in> set o3"
    by (rule strncat_ok[of o2 "?r @ html_page_begin" "length t" t]) (use assms(5) o1(2) o2(2,3) t in simp_all)
  obtain o4 where o4: "c_strncat o3 html_page_end (length html_page_end) = Inr o4"
    "cstr o4 = (?r @ html_page_begin @ t) @ take (length html_page_end) html_page_end" "length o4 = length o3" "NUL \<in> set o4"
    by (rule strncat_ok[of o3 "?r @ html_page_begin @ t" "length html_page_end" html_page_end])
       (use assms(5) o1(2) o2(3) o3(2,3) nulls in simp_all)
  show ?thesis
    unfolding sl rbind_simps Let_def cl sp c1 o2(1) assms(1) o3(1) o4(1) using send_string_cstr[OF o4(4)] o4(2) by simp
qed

text \<open>The buffer after a message has been received and terminated.\<close>

lemma received_text:
  assumes "data \<noteq> []" and "length data < length buf"
  shows "store_data buf (int (length data)) data = Inr (data @ drop (length data) buf)"
    and "wr (data @ drop (length data) buf) (int (length data)) NUL = Inr (data @ NUL # drop (Suc (length data)) buf)"
proof -
  show "store_data buf (int (length data)) data = Inr (data @ drop (length data) buf)"
    using assms by (simp add: store_data_def)
  have d: "drop (length data) buf = buf ! length data # drop (Suc (length data)) buf"
    using assms(2) by (rule Cons_nth_drop_Suc [symmetric])
  have w: "wr (data @ x # r) (int (length data)) NUL = Inr (data @ NUL # r)" for x r by (simp add: wr_def)
  show "wr (data @ drop (length data) buf) (int (length data)) NUL = Inr (data @ NUL # drop (Suc (length data)) buf)"
    unfolding d by (rule w)
qed

lemma list_items_page:
  assumes "\<forall>k < length ls. header_holds (l_key (ls ! k)) (l_value (ls ! k)) (hb ! (0 + k))"
    and "\<forall>l \<in> set ls. line_ok l" and "\<forall>l \<in> set ls. line_fits l" and "length ls \<le> length hb"
    and "length out_buf = 4096" and "length response = 128"
    and "length (response_text (int (length (page_of ls)) - 1) @ page_of ls) < 4096" and "length B = 4096"
  shows "\<exists>in' out'. c_memset0 B BUFFER_SIZE = Inr (zeros 4096) \<and>
    list_items (int (length ls)) hb 0 (zeros 4096) out_buf = Inr (in', out') \<and>
    cstr in' = items ls \<and> length (items ls) < length in' \<and> length out' = 4096"
proof -
  have m: "c_memset0 B BUFFER_SIZE = Inr (zeros 4096)" using assms(8) by (simp add: c_memset0_def BUFFER_SIZE_def)
  have z: "cstr (zeros 4096) = []" by (simp add: cstr_def)
  have small: "length (items ls) < 4096" using assms(7) by (simp add: page_of_def)
  have "\<exists>in' out'. list_items (int (0 + length ls)) hb (int 0) (zeros 4096) out_buf = Inr (in', out') \<and>
      cstr in' = [] @ items ls \<and> length in' = length (zeros 4096) \<and> length out' = 4096"
    by (rule list_items_ok[OF assms(1-3) _ z]) (use assms(4,5) small in simp_all)
  then show ?thesis using m small by auto
qed

definition get_root :: "string \<Rightarrow> header_line list \<Rightarrow> string" where
  "get_root v ls = ''GET / '' @ v @ [CR, LF] @ block ls @ [CR, LF]"

text \<open>The two turns apart: the call of \<open>recv\<close>, and what follows it on a buffer that starts with the data.\<close>

lemma html_receive_data:
  assumes "fst (kern (e_log s) (Recv fd 4095)) = int (length (net (e_log s) fd))" and "length (net (e_log s) fd) \<le> 4095"
    and "length in_buf = 4096"
  shows "html_receive kern net in_buf fd s = Inr (int (length (net (e_log s) fd)),
    net (e_log s) fd @ drop (length (net (e_log s) fd)) in_buf, s\<lparr>e_log := e_log s @ [Recv fd 4095]\<rparr>)"
proof -
  obtain evs where k: "kern (e_log s) (Recv fd 4095) = (int (length (net (e_log s) fd)), evs)" using assms(1) by (metis prod.collapse)
  have bs: "int (BUFFER_SIZE - 1) = 4095" by (simp add: BUFFER_SIZE_def)
  show ?thesis unfolding html_receive_def Let_def sys_def bs k prod.case using assms(2,3) by (simp add: store_data_def)
qed

lemma terminated:
  assumes "take (length data) buf = data" and "length data < length buf"
  shows "wr buf (int (length data)) NUL = Inr (data @ NUL # drop (Suc (length data)) buf)"
  using assms by (simp add: wr_def upd_conv_take_nth_drop)

lemma html_respond_page:
  assumes "take (length (get_root v ls)) buf = get_root v ls"
    and "length (get_root v ls) \<le> 4095" and "CR \<notin> set v"
    and "ls \<noteq> []" and "length ls \<le> 48" and "\<forall>l \<in> set ls. line_ok l" and "\<forall>l \<in> set ls. line_fits l"
    and "length buf = 4096" and "length out_buf = 4096" and "length response = 128"
    and "length header_buffer = 48" and "\<forall>hr \<in> set header_buffer. header_ok hr"
    and "length (response_text (int (length (page_of ls)) - 1) @ page_of ls) < 4096"
  shows "html_respond kern out_buf header_buffer response fd (int (length (get_root v ls))) buf s =
    Inr (s\<lparr>e_log := e_log s @ [Send fd (response_text (int (length (page_of ls)) - 1) @ page_of ls)]\<rparr>)"
proof -
  let ?req = "get_root v ls"
  let ?pre = "''GET / '' @ v"
  define rest where "rest = NUL # drop (Suc (length ?req)) buf"
  define B where "B = ?req @ rest"
  have ne: "?req \<noteq> []" by (simp add: get_root_def)
  have B: "wr buf (int (length ?req)) NUL = Inr B"
    using terminated[OF assms(1)] assms(2,8) by (simp add: B_def rest_def)
  have Bs: "B = ?pre @ CR # LF # block ls @ CR # LF # rest" by (simp add: B_def get_root_def)
  have lenB: "length B = 4096" using assms(2,8) by (simp add: B_def rest_def)
  have b5: "rd B 5 = Inr (CHR '' '')" by (simp add: rd_def Bs nth_append)
  have cr: "scan_up (\<lambda>c i. c \<noteq> CR) B 0 0 = Inr (int (length ?pre))"
  proof -
    have "scan_up (\<lambda>c i. c \<noteq> CR) ([] @ ?pre @ CR # LF # block ls @ CR # LF # rest) 0 0 = Inr (0 + int (length ?pre))"
    proof (rule scan_up_span)
      fix k assume "k < length ?pre"
      then have "?pre ! k \<in> set ?pre" by (rule nth_mem)
      moreover have "CR \<notin> set ?pre" using assms(3) by simp
      ultimately show "?pre ! k \<noteq> CR" by metis
    qed (use assms(2) in \<open>simp_all add: get_root_def\<close>)
    then show ?thesis unfolding Bs by (simp only: append_Nil add_0)
  qed
  let ?hs = "int (length (?pre @ [CR, LF]))"
  have len: "length ((?pre @ [CR, LF]) @ block ls) + 2 \<le> length ?req" "length ?req < 2 ^ 31"
    using assms(2) by (simp_all add: get_root_def)
  have hs: "chk_int (int (length ?pre) + 2) = Inr ?hs" using assms(2) by (simp add: chk_int_def get_root_def)
  have he: "find_headers_end B (int (length ?req)) ?hs = Inr (int (length ((?pre @ [CR, LF]) @ block ls)) - 2)"
    using find_headers_end_block[OF assms(6,4) len, of rest] unfolding Bs by simp
  have n: "chk_int (int (length ((?pre @ [CR, LF]) @ block ls)) - 2 - ?hs) = Inr (int (length (block ls)) - 2)"
    using assms(2) by (simp add: chk_int_def get_root_def)
  have dropB: "drop (nat ?hs) B = block ls @ CR # LF # rest"
  proof -
    have "B = (?pre @ [CR, LF]) @ block ls @ CR # LF # rest" by (simp add: Bs)
    moreover have "drop (length xs) (xs @ ys) = ys" for xs ys :: string by simp
    ultimately show ?thesis by (simp only: nat_int)
  qed
  have small: "length (block ls @ CR # LF # rest) < 2 ^ 31" using lenB unfolding Bs by simp
  note parsed = html_headers_parsed[OF assms(6,7,12,11,5,4) small]
  have lf: "length ls \<le> length (fill header_buffer 0 ls)" using assms(5,11) by simp
  obtain in' out' where li: "c_memset0 B BUFFER_SIZE = Inr (zeros 4096)"
    "list_items (int (length ls)) (fill header_buffer 0 ls) 0 (zeros 4096) out_buf = Inr (in', out')"
    "cstr in' = items ls" "length (items ls) < length in'" "length out' = 4096"
    using list_items_page[OF parsed(2) assms(6,7) lf assms(9,10,13) lenB] by blast
  have pl: "int (102 + length (items ls)) - 1 = int (length (page_of ls)) - 1"
    by (simp add: page_of_def html_page_begin_def html_page_end_def)
  have fin: "length (response_text (int (102 + length (items ls)) - 1) @ html_page_begin @ items ls @ html_page_end) < 4096"
    unfolding pl using assms(13) by (simp add: page_of_def)
  have pos: "\<not> int (length ?req) \<le> 0" using ne by simp
  show ?thesis
    unfolding html_respond_def Let_def B rbind_simps prod.case b5 cr hs he n dropB parsed(1) li(1,2)
    using pos page_sent[OF li(3,4,5) assms(10) fin, where fd = fd and kern = kern and s = s, unfolded pl Let_def]
    by (simp add: call_def sys_def page_of_def)
qed

lemma html_page_sent:
  assumes "net (e_log s) fd = get_root v ls" and "fst (kern (e_log s) (Recv fd 4095)) = int (length (get_root v ls))"
    and "length (get_root v ls) \<le> 4095" and "CR \<notin> set v"
    and "ls \<noteq> []" and "length ls \<le> 48" and "\<forall>l \<in> set ls. line_ok l" and "\<forall>l \<in> set ls. line_fits l"
    and "length in_buf = 4096" and "length out_buf = 4096" and "length response = 128"
    and "length header_buffer = 48" and "\<forall>hr \<in> set header_buffer. header_ok hr"
    and "length (response_text (int (length (page_of ls)) - 1) @ page_of ls) < 4096"
  shows "html_answer kern net in_buf out_buf header_buffer response fd s =
    Inr (s\<lparr>e_log := e_log s @ [Recv fd 4095, Send fd (response_text (int (length (page_of ls)) - 1) @ page_of ls)]\<rparr>)"
proof -
  let ?req = "get_root v ls"
  have len: "length ?req < length in_buf" using assms(3,9) by simp
  have "html_receive kern net in_buf fd s = Inr (int (length ?req), ?req @ drop (length ?req) in_buf, s\<lparr>e_log := e_log s @ [Recv fd 4095]\<rparr>)"
    using html_receive_data[of kern s fd net in_buf] assms(1,2,3,9) by simp
  then have "html_answer kern net in_buf out_buf header_buffer response fd s =
      html_respond kern out_buf header_buffer response fd (int (length ?req)) (?req @ drop (length ?req) in_buf)
        (s\<lparr>e_log := e_log s @ [Recv fd 4095]\<rparr>)" unfolding html_answer_parts by simp
  also have "\<dots> = Inr ((s\<lparr>e_log := e_log s @ [Recv fd 4095]\<rparr>)\<lparr>e_log := e_log (s\<lparr>e_log := e_log s @ [Recv fd 4095]\<rparr>) @
      [Send fd (response_text (int (length (page_of ls)) - 1) @ page_of ls)]\<rparr>)"
    by (rule html_respond_page) (use assms(3-14) len in simp_all)
  finally show ?thesis by simp
qed

lemma html_recv_fails:
  assumes "fst (kern (e_log s) (Recv fd 4095)) = -1"
  shows "html_answer kern net in_buf out_buf header_buffer response fd s = Inl Out_Of_Bounds"
proof -
  obtain evs where k: "kern (e_log s) (Recv fd 4095) = (-1, evs)" using assms by (metis prod.collapse)
  have bs: "int (BUFFER_SIZE - 1) = 4095" by (simp add: BUFFER_SIZE_def)
  show ?thesis unfolding html_answer_def Let_def sys_def bs k prod.case by (simp add: store_data_def wr_def)
qed

lemma html_respond_refuses:
  assumes "take (length data) buf = data" and "data \<noteq> []" and "length data \<le> 4095" and "length buf = 4096" and "length out_buf = 4096"
    and "(data @ NUL # drop (Suc (length data)) buf) ! 5 \<noteq> CHR '' ''"
  shows "html_respond kern out_buf header_buffer response fd (int (length data)) buf s =
    Inr (s\<lparr>e_log := e_log s @ [Send fd not_found_text]\<rparr>)"
proof -
  let ?b = "data @ NUL # drop (Suc (length data)) buf"
  have rest: "wr buf (int (length data)) NUL = Inr ?b" "rd ?b 5 = Inr (?b ! 5)"
    using terminated[OF assms(1)] assms(3,4) by (simp_all add: rd_def)
  have cp: "c_strcpy out_buf 0 (not_found_text @ [NUL]) = Inr (put_cstr not_found_text out_buf)"
    by (rule strcpy_ok) (use assms(5) in \<open>simp_all add: not_found_text_def cstr_def\<close>)
  have "NUL \<notin> set not_found_text" by (simp add: not_found_text_def)
  then have "send_string kern fd (put_cstr not_found_text out_buf) s = Inr (s\<lparr>e_log := e_log s @ [Send fd not_found_text]\<rparr>)"
    by (subst send_string_cstr) (simp_all add: put_cstr_def cstr_append call_def sys_def)
  moreover have "\<not> int (length data) \<le> 0" using assms(2) by simp
  ultimately show ?thesis unfolding html_respond_def rest rbind_simps using assms(6) cp by simp
qed

lemma html_refuses:
  assumes "fst (kern (e_log s) (Recv fd 4095)) = int (length (net (e_log s) fd))" and "net (e_log s) fd \<noteq> []"
    and "length (net (e_log s) fd) \<le> 4095" and "length in_buf = 4096" and "length out_buf = 4096"
    and "(net (e_log s) fd @ NUL # drop (Suc (length (net (e_log s) fd))) in_buf) ! 5 \<noteq> CHR '' ''"
  shows "html_answer kern net in_buf out_buf header_buffer response fd s =
    Inr (s\<lparr>e_log := e_log s @ [Recv fd 4095, Send fd not_found_text]\<rparr>)"
proof -
  let ?data = "net (e_log s) fd"
  have "html_respond kern out_buf header_buffer response fd (int (length ?data)) (?data @ drop (length ?data) in_buf)
      (s\<lparr>e_log := e_log s @ [Recv fd 4095]\<rparr>) =
    Inr ((s\<lparr>e_log := e_log s @ [Recv fd 4095]\<rparr>)\<lparr>e_log := e_log (s\<lparr>e_log := e_log s @ [Recv fd 4095]\<rparr>) @ [Send fd not_found_text]\<rparr>)"
    by (rule html_respond_refuses) (use assms in simp_all)
  then show ?thesis
    unfolding html_answer_parts using html_receive_data[of kern s fd net in_buf] assms(1,3,4) by simp
qed

section \<open>Properties\<close>

text \<open>C28: End to end: for every request \<open>GET /\<close> with 1 to 48 well-formed headers that arrives in one piece,
  and whose page fits the buffer, the handler sends exactly the page that lists the headers in the order
  of the request, trimmed; but the announced \<open>Content-Length\<close> is one less than the length of the page.\<close>

theorem html_answer_page:
  assumes "net (e_log s) fd = get_root v ls" and "fst (kern (e_log s) (Recv fd 4095)) = int (length (get_root v ls))"
    and "length (get_root v ls) \<le> 4095" and "CR \<notin> set v"
    and "ls \<noteq> []" and "length ls \<le> 48" and "\<forall>l \<in> set ls. line_ok l" and "\<forall>l \<in> set ls. line_fits l"
    and "length in_buf = 4096" and "length out_buf = 4096" and "length response = 128"
    and "length header_buffer = 48" and "\<forall>hr \<in> set header_buffer. header_ok hr"
    and "length (response_text (int (length (page_of ls)) - 1) @ page_of ls) < 4096"
  shows "html_answer kern net in_buf out_buf header_buffer response fd s =
    Inr (s\<lparr>e_log := e_log s @ [Recv fd 4095, Send fd (response_text (int (length (page_of ls)) - 1) @ page_of ls)]\<rparr>)"
  using assms by (rule html_page_sent)


lemma html_answer_page_witness:
  "html_answer (calc_kernel (get_root ''H'' [host_line])) (calc_net (get_root ''H'' [host_line])) (zeros 4096) (zeros 4096)
     (replicate 48 blank_header) (zeros 128) 9 ep0 =
   Inr (ep0\<lparr>e_log := [Recv 9 4095, Send 9 (response_text 117 @ html_page_begin @ ''<li>Host: a</li>'' @ html_page_end)]\<rparr>) \<and>
   length (html_page_begin @ ''<li>Host: a</li>'' @ html_page_end) = 118"
proof -
  let ?req = "get_root ''H'' [host_line]"
  have page: "page_of [host_line] = html_page_begin @ ''<li>Host: a</li>'' @ html_page_end"
    by (simp add: page_of_def item_def host_line_def)
  have parts: "length html_page_begin = 90" "length html_page_end = 12"
    by (simp_all add: html_page_begin_def html_page_end_def)
  have len: "length (page_of [host_line]) = 118" by (simp add: page parts)
  have req: "length ?req < 100" by (simp add: get_root_def sample_blocks)
  have kern: "fst (calc_kernel ?req (e_log ep0) (Recv 9 4095)) = int (length ?req)"
    using req by (simp add: calc_kernel_def)
  have fits: "length (response_text (int (length (page_of [host_line])) - 1) @ page_of [host_line]) < 4096"
    using dec_length[of 117] len by (simp add: response_text_def)
  show ?thesis
    using html_answer_page[of "calc_net ?req" ep0 9 "''H''" "[host_line]" "calc_kernel ?req" "zeros 4096" "zeros 4096"
        "zeros 128" "replicate 48 blank_header"] kern req fits sample_ok len
    by (simp add: calc_net_def page ep0_def parts)
qed

text \<open>\<open>html_answer\<close> on the other branches: it writes in front of its buffer when \<open>recv\<close> fails; does
  nothing more when the client sent nothing; refuses every request whose sixth byte is not a blank (of a request of fewer bytes, the
  byte that the buffer holds there), by a response without the blank line that ends its headers; and leaves its buffer when
  the sixth byte is a blank and no carriage return follows.  The sixth byte is all that is looked at: neither the method nor
  the rest of the line matters, so \<open>PUT / \<close> is not refused.\<close>

theorem html_answer_branches:
  assumes "recv_documented kern net" and "length in_buf = 4096" and "length out_buf = 4096"
    and "fst (kern (e_log s) (Recv fd 4095)) = r" and "data = net (e_log s) fd" and "b = data @ NUL # drop (Suc (length data)) in_buf"
  shows "(r = -1 \<longrightarrow> html_answer kern net in_buf out_buf header_buffer response fd s = Inl Out_Of_Bounds) \<and>
    (r = 0 \<longrightarrow> html_answer kern net in_buf out_buf header_buffer response fd s = Inr (s\<lparr>e_log := e_log s @ [Recv fd 4095]\<rparr>)) \<and>
    (0 < r \<and> b ! 5 \<noteq> CHR '' '' \<longrightarrow> html_answer kern net in_buf out_buf header_buffer response fd s =
      Inr (s\<lparr>e_log := e_log s @ [Recv fd 4095, Send fd not_found_text]\<rparr>)) \<and>
    (0 < r \<and> b ! 5 = CHR '' '' \<and> CR \<notin> set b \<longrightarrow>
      html_answer kern net in_buf out_buf header_buffer response fd s = Inl Out_Of_Bounds)"
proof -
  obtain evs where k: "kern (e_log s) (Recv fd 4095) = (r, evs)" using assms(4) by (metis prod.collapse)
  have bs: "int (BUFFER_SIZE - 1) = 4095" by (simp add: BUFFER_SIZE_def)
  have doc: "r = -1 \<or> 0 \<le> r \<and> r \<le> 4095 \<and> int (length data) = r"
    using assms(1,4,5) unfolding recv_documented_def by (metis insertI1)
  note run = html_answer_def Let_def sys_def bs
  have err: "html_answer kern net in_buf out_buf header_buffer response fd s = Inl Out_Of_Bounds" if "r = -1"
    by (rule html_recv_fails) (use that assms(4) in simp)
  have none: "html_answer kern net in_buf out_buf header_buffer response fd s = Inr (s\<lparr>e_log := e_log s @ [Recv fd 4095]\<rparr>)" if "r = 0"
    unfolding run k using that assms(2) by (cases in_buf) (simp_all add: store_data_def wr_def)
  have rest: "0 < r \<Longrightarrow> store_data in_buf r data = Inr (data @ drop (length data) in_buf) \<and>
      wr (data @ drop (length data) in_buf) r NUL = Inr b \<and> length b = 4096"
    using received_text[of data in_buf] doc assms(2,6) by auto
  have refuse: "html_answer kern net in_buf out_buf header_buffer response fd s =
      Inr (s\<lparr>e_log := e_log s @ [Recv fd 4095, Send fd not_found_text]\<rparr>)" if r: "0 < r" and c: "b ! 5 \<noteq> CHR '' ''"
    by (rule html_refuses) (use doc r c assms(2-6) in auto)
  have lost: "html_answer kern net in_buf out_buf header_buffer response fd s = Inl Out_Of_Bounds"
    if r: "0 < r" and c: "b ! 5 = CHR '' ''" and cr: "CR \<notin> set b"
  proof -
    have "scan_up (\<lambda>c i. c \<noteq> CR) ([] @ b) 0 0 = Inl Out_Of_Bounds"
    proof (rule scan_up_out_span)
      fix j assume "j < length b"
      then show "b ! j \<noteq> CR" using cr nth_mem[of j b] by metis
    qed (use rest[OF r] in simp_all)
    then show ?thesis
      unfolding run k using rest[OF r] r c assms(5) by (simp add: rd_def)
  qed
  show ?thesis using err none refuse lost by blast
qed

lemma html_answer_branches_witness:
  "html_answer (calc_kernel ''GET /x '') (calc_net ''GET /x '') (zeros 4096) (zeros 4096) [] [] 9 ep0 =
     Inr (ep0\<lparr>e_log := [Recv 9 4095, Send 9 not_found_text]\<rparr>) \<and>
   html_answer (calc_kernel ''GET / '') (calc_net ''GET / '') (zeros 4096) (zeros 4096) [] [] 9 ep0 = Inl Out_Of_Bounds"
proof -
  have zeros: "length (zeros 4096) = 4096" by simp
  note br = html_answer_branches[OF calc_documented zeros zeros refl refl refl, of _ ep0 9 "[]" "[]"]
  show ?thesis using br[of "''GET /x ''"] br[of "''GET / ''"] by (simp add: calc_kernel_def calc_net_def ep0_def)
qed

end
