(* ===== verification/Udp_Server.thy ===== *)
theory Udp_Server
  imports Calc_Service
begin

text \<open>
  The thread of the UDP server \<open>apps/Run_calc_udp_srv.c\<close>, which calls \<open>calc_request\<close> until it fails: a
  partial function whose value is \<open>None\<close> if it never returns, and what it sends for a sequence of
  datagrams; and the program as a whole, its thread and \<open>main\<close> as actors under any schedule.
\<close>

section \<open>The thread\<close>

text \<open>\<open>srv_proc\<close>; \<open>junk\<close> is what the stack holds when \<open>calc_request\<close> is entered.\<close>

partial_function (option) udp_srv_proc :: "kernel \<Rightarrow> net \<Rightarrow> (syscall list \<Rightarrow> char list) \<Rightarrow> int \<Rightarrow> syscall list \<Rightarrow> syscall list result option" where
  "udp_srv_proc kern net junk socket_fd log =
    (case udp_calc_request kern net (junk log) socket_fd log of
       Inl e \<Rightarrow> Some (Inl e)
     | Inr (r, log) \<Rightarrow> if r \<noteq> -1 then udp_srv_proc kern net junk socket_fd log else Some (Inr log))"

text \<open>The calls that one datagram gives rise to, without buffers.\<close>

definition udp_exchange :: "kernel \<Rightarrow> net \<Rightarrow> int \<Rightarrow> syscall list \<Rightarrow> syscall list" where
  "udp_exchange kern net fd log =
    (let r = fst (kern log (Recvfrom fd 508)) in
     if r \<le> 0 then log @ [Recvfrom fd 508]
     else if 127 \<le> r then log @ [Recvfrom fd 508, Sendto fd (''Request too long. Goodbye'' @ [LF])]
     else case calc_reply (net log fd) of
         Inl e \<Rightarrow> log
       | Inr msg \<Rightarrow> log @ [Recvfrom fd 508, Sendto fd msg])"

lemma udp_request_cases:
  assumes "recv_documented kern net" and "length buf = 508"
  shows "case udp_calc_request kern net buf fd log of
      Inl e \<Rightarrow> e \<in> {Signed_Overflow, Div_By_Zero}
    | Inr (r, log') \<Rightarrow> log' = udp_exchange kern net fd log \<and> length log < length log' \<and>
        r = (if fst (kern log (Recvfrom fd 508)) = -1 then -1 else 0)"
proof -
  let ?r = "fst (kern log (Recvfrom fd 508))"
  have doc: "?r = -1 \<or> 0 \<le> ?r \<and> ?r \<le> 508 \<and> int (length (net log fd)) = ?r"
    using assms(1) unfolding recv_documented_def by blast
  consider (none) "?r \<le> 0" | (short) "0 < ?r" "?r < 127" | (long) "127 \<le> ?r" by linarith
  then show ?thesis
  proof cases
    case none
    then show ?thesis using doc
      by (auto simp: udp_calc_request_def udp_exchange_def log_sys_def MAX_UDP_PAYLOAD_SIZE_def store_data_def)
  next
    case short
    then have len: "length (net log fd) < 127" "net log fd \<noteq> []" "?r = int (length (net log fd))" using doc by auto
    show ?thesis
      using udp_calc_request_reply[of kern log fd net buf, OF len(3,2,1) assms(2)] calc_reply_faults[of "net log fd"] short len(1)
      by (cases "calc_reply (net log fd)") (auto simp: udp_exchange_def)
  next
    case long
    have st: "store_data buf ?r (net log fd) = Inr (net log fd @ drop (nat ?r) buf)"
      using doc long assms(2) by (simp add: store_data_def)
    have fits: "length (''Request too long. Goodbye'' @ [LF]) < length (net log fd @ drop (nat ?r) buf)"
      using doc long assms(2) by auto
    have msg: "cstr ((''Request too long. Goodbye'' @ [LF]) @ [NUL]) = ''Request too long. Goodbye'' @ [LF]"
      by (simp add: cstr_def)
    have "udp_calc_request kern net buf fd log = Inr (0, log @ [Recvfrom fd 508, Sendto fd (''Request too long. Goodbye'' @ [LF])])"
      unfolding udp_calc_request_def Let_def log_sys_def MAX_UDP_PAYLOAD_SIZE_def
      using long st send_sprintf(2)[OF fits, of kern fd "log @ [Recvfrom fd 508]" "\<lambda>log. Inr (0, log)", unfolded msg]
      by simp
    then show ?thesis using long by (simp add: udp_exchange_def)
  qed
qed

text \<open>The UDP server.  When \<open>recvfrom\<close> fails after some number of system calls (the main thread closes the
  socket), \<open>srv_proc\<close> ends: either in an arithmetic fault of a request, or after it has answered the
  datagrams one by one, in the order in which they came, each by one message, which is the
  calculator's reply or a refusal, and then found \<open>recvfrom\<close> failing.\<close>

theorem udp_server_dialogue:
  assumes "recv_documented kern net" and "\<forall>log. length (junk log) = 508"
    and "\<forall>log. N \<le> length log \<longrightarrow> fst (kern log (Recvfrom fd 508)) = -1"
  shows "\<exists>res. udp_srv_proc kern net junk fd log = Some res \<and> (case res of
      Inl e \<Rightarrow> e \<in> {Signed_Overflow, Div_By_Zero}
    | Inr log' \<Rightarrow> \<exists>k. log' = (udp_exchange kern net fd ^^ k) log @ [Recvfrom fd 508] \<and>
        (\<forall>i \<le> k. fst (kern ((udp_exchange kern net fd ^^ i) log) (Recvfrom fd 508)) = -1 \<longleftrightarrow> i = k))"
proof (induction "N - length log" arbitrary: log rule: less_induct)
  case less
  let ?x = "udp_exchange kern net fd" and ?fails = "\<lambda>log. fst (kern log (Recvfrom fd 508)) = -1"
  note req = udp_request_cases[OF assms(1), of "junk log" fd log]
  show ?case
  proof (cases "udp_calc_request kern net (junk log) fd log")
    case (Inl e)
    then show ?thesis using req assms(2) by (subst udp_srv_proc.simps) simp
  next
    case (Inr p)
    have p: "p = (if ?fails log then -1 else 0, ?x log)" "length log < length (?x log)"
      using req Inr assms(2) by auto
    show ?thesis
    proof (cases "?fails log")
      case True
      then show ?thesis using p Inr
        by (subst udp_srv_proc.simps) (auto simp: udp_exchange_def intro!: exI[of _ 0])
    next
      case False
      then have "N - length (?x log) < N - length log" using assms(3) p(2) by (meson diff_less_mono2 not_less)
      from less[OF this] obtain res where res: "udp_srv_proc kern net junk fd (?x log) = Some res"
        "case res of Inl e \<Rightarrow> e \<in> {Signed_Overflow, Div_By_Zero}
         | Inr log' \<Rightarrow> \<exists>k. log' = (?x ^^ k) (?x log) @ [Recvfrom fd 508] \<and> (\<forall>i \<le> k. ?fails ((?x ^^ i) (?x log)) \<longleftrightarrow> i = k)"
        by blast
      have run: "udp_srv_proc kern net junk fd log = Some res"
        using res(1) p False Inr by (subst udp_srv_proc.simps) simp
      show ?thesis
      proof (cases res)
        case (Inr log')
        then obtain k where k: "log' = (?x ^^ k) (?x log) @ [Recvfrom fd 508]" "\<forall>i \<le> k. ?fails ((?x ^^ i) (?x log)) \<longleftrightarrow> i = k"
          using res(2) by auto
        have "?fails ((?x ^^ i) log) \<longleftrightarrow> i = Suc k" if "i \<le> Suc k" for i
          using k(2) that False by (cases i) (simp_all add: funpow_swap1)
        then show ?thesis using run Inr k(1) by (auto simp: funpow_swap1 intro!: exI[of _ "Suc k"])
      qed (use run res(2) in simp)
    qed
  qed
qed

text \<open>A network that delivers one datagram.\<close>

definition udp_world :: kernel where
  "udp_world log c = (if 2 \<le> length log then (-1, []) else calc_kernel ''x'' log c)"

lemma udp_world_ok: "recv_documented udp_world (calc_net ''x'')"
  using calc_documented[of "''x''"] by (simp add: recv_documented_def udp_world_def)

lemma udp_server_dialogue_witness:
  "\<exists>res. udp_srv_proc udp_world (calc_net ''x'') (\<lambda>_. zeros 508) 3 [] = Some res"
proof -
  have "\<forall>log. 2 \<le> length log \<longrightarrow> fst (udp_world log (Recvfrom 3 508)) = -1" by (simp add: udp_world_def)
  from udp_server_dialogue[OF udp_world_ok _ this, of "\<lambda>_. zeros 508"] show ?thesis by auto
qed

section \<open>The program\<close>

text \<open>\<open>main\<close> and its thread as actors.  \<open>calc_request\<close> takes two turns: its \<open>recvfrom\<close>, and the rest up to the \<open>sendto\<close>.  A call
  is recorded when it is entered, with the result that it will have, so what \<open>main\<close> does between the two turns
  may happen while \<open>recvfrom\<close> is blocked or while the reply is computed.  The turns of \<open>main\<close> are
  the end of its \<open>scanf\<close>, its \<open>close\<close> and its \<open>return\<close>.  \<open>main\<close> does not join the thread, so the thread is
  wherever it is when the process ends.\<close>

datatype udp_pc = Udp_Receive | Udp_Respond int "char list" | Udp_Done

datatype udp_main_pc = Udp_Input | Udp_Close | Udp_Return | Udp_Ended

record udp_server =
  ud_fd :: int
  ud_log :: "syscall list"
  ud_thread :: udp_pc
  ud_main :: udp_main_pc

definition udp_start :: "kernel \<Rightarrow> syscall list \<Rightarrow> udp_server" where
  "udp_start kern log =
    (let (server_fd, log) = create_server_socket_udp kern UDP_PORT False log
     in \<lparr>ud_fd = server_fd, ud_log = log, ud_thread = Udp_Receive, ud_main = Udp_Input\<rparr>)"

definition udp_thread :: "kernel \<Rightarrow> net \<Rightarrow> (syscall list \<Rightarrow> char list) \<Rightarrow> udp_server \<Rightarrow> udp_server result" where
  "udp_thread kern net junk sv =
    (if ud_main sv = Udp_Ended then Inr sv
     else case ud_thread sv of
       Udp_Receive \<Rightarrow>
         rbind (udp_receive kern net (junk (ud_log sv)) (ud_fd sv) (ud_log sv)) (\<lambda>(n, buf, log).
         Inr (sv\<lparr>ud_log := log, ud_thread := Udp_Respond n buf\<rparr>))
     | Udp_Respond n buf \<Rightarrow>
         rbind (udp_respond kern (ud_fd sv) n buf (ud_log sv)) (\<lambda>(r, log).
         Inr (sv\<lparr>ud_log := log, ud_thread := (if r \<noteq> -1 then Udp_Receive else Udp_Done)\<rparr>))
     | Udp_Done \<Rightarrow> Inr sv)"

definition udp_main :: "kernel \<Rightarrow> udp_server \<Rightarrow> udp_server" where
  "udp_main kern sv = (case ud_main sv of
      Udp_Input \<Rightarrow> sv\<lparr>ud_main := Udp_Close\<rparr>
    | Udp_Close \<Rightarrow> sv\<lparr>ud_log := snd (log_sys kern (Close (ud_fd sv)) (ud_log sv)), ud_main := Udp_Return\<rparr>
    | Udp_Return \<Rightarrow> sv\<lparr>ud_main := Udp_Ended\<rparr>
    | Udp_Ended \<Rightarrow> sv)"

text \<open>A schedule says for each turn whether \<open>main\<close> moves.\<close>

definition udp_step :: "kernel \<Rightarrow> net \<Rightarrow> (syscall list \<Rightarrow> char list) \<Rightarrow> bool \<Rightarrow> udp_server \<Rightarrow> udp_server result" where
  "udp_step kern net junk main sv = (if main then Inr (udp_main kern sv) else udp_thread kern net junk sv)"

definition udp_run :: "kernel \<Rightarrow> net \<Rightarrow> (syscall list \<Rightarrow> char list) \<Rightarrow> bool list \<Rightarrow> syscall list \<Rightarrow> udp_server result" where
  "udp_run kern net junk sched log = rfold (udp_step kern net junk) sched (udp_start kern log)"

text \<open>A \<open>recvfrom\<close> that is called after the socket was closed fails.\<close>

definition closed_documented :: "kernel \<Rightarrow> int \<Rightarrow> bool" where
  "closed_documented kern fd \<longleftrightarrow> (\<forall>log. Close fd \<in> set log \<longrightarrow> fst (kern log (Recvfrom fd 508)) = -1)"

section \<open>The history of a run\<close>

text \<open>What is sent in answer to the datagram that is received after \<open>log\<close>: at most one message.\<close>

definition udp_sends :: "kernel \<Rightarrow> net \<Rightarrow> int \<Rightarrow> syscall list \<Rightarrow> syscall list" where
  "udp_sends kern net fd log =
    (let r = fst (kern log (Recvfrom fd 508)) in
     if r \<le> 0 then []
     else if 127 \<le> r then [Sendto fd (''Request too long. Goodbye'' @ [LF])]
     else case calc_reply (net log fd) of Inl e \<Rightarrow> [] | Inr msg \<Rightarrow> [Sendto fd msg])"

text \<open>What the thread holds after the \<open>recvfrom\<close> that followed \<open>log\<close>.\<close>

definition udp_holds :: "kernel \<Rightarrow> net \<Rightarrow> int \<Rightarrow> syscall list \<Rightarrow> int \<Rightarrow> char list \<Rightarrow> bool" where
  "udp_holds kern net fd log r buf \<longleftrightarrow> r = fst (kern log (Recvfrom fd 508)) \<and> length buf = 508 \<and>
    (r = -1 \<or> 0 \<le> r \<and> r \<le> 508 \<and> int (length (net log fd)) = r \<and> take (nat r) buf = net log fd)"

lemma udp_receive_holds:
  assumes "recv_documented kern net" and "length buf = 508"
  shows "\<exists>b. udp_receive kern net buf fd log = Inr (fst (kern log (Recvfrom fd 508)), b, log @ [Recvfrom fd 508]) \<and>
    udp_holds kern net fd log (fst (kern log (Recvfrom fd 508))) b"
proof -
  let ?r = "fst (kern log (Recvfrom fd 508))"
  have doc: "?r = -1 \<or> 0 \<le> ?r \<and> ?r \<le> 508 \<and> int (length (net log fd)) = ?r"
    using assms(1) unfolding recv_documented_def by blast
  then show ?thesis
    using assms(2) by (cases "?r \<le> 0") (auto simp: udp_receive_def log_sys_def MAX_UDP_PAYLOAD_SIZE_def store_data_def udp_holds_def)
qed

lemma udp_respond_sends:
  assumes "udp_holds kern net fd log0 r buf"
  shows "case udp_respond kern fd r buf log of
      Inl e \<Rightarrow> e \<in> {Signed_Overflow, Div_By_Zero}
    | Inr (q, log') \<Rightarrow> q = (if r = -1 then -1 else 0) \<and> log' = log @ udp_sends kern net fd log0 \<and>
        udp_exchange kern net fd log0 = log0 @ Recvfrom fd 508 # udp_sends kern net fd log0"
proof (cases "r \<le> 0")
  case True
  then show ?thesis using assms by (auto simp: udp_holds_def udp_respond_def udp_sends_def udp_exchange_def)
next
  case False
  let ?data = "net log0 fd"
  have "r \<noteq> -1" using False by simp
  then have h: "r = fst (kern log0 (Recvfrom fd 508))" "length buf = 508" "r \<le> 508" "int (length ?data) = r" "take (nat r) buf = ?data"
    using assms unfolding udp_holds_def by blast+
  note r = h(1-3) h(4)[symmetric] h(5)
  have take: "take (length ?data) buf = ?data" using h(5) unfolding r(4) nat_int .
  have "?data \<noteq> []" "length ?data \<le> 508" using False r(3,4) by auto
  from udp_respond_reply[OF take this r(2), of kern fd log]
  have run: "udp_respond kern fd r buf log = (if 127 \<le> length ?data then Inr (0, log @ [Sendto fd (''Request too long. Goodbye'' @ [LF])])
     else rbind (calc_reply ?data) (\<lambda>msg. Inr (0, log @ [Sendto fd msg])))" unfolding r(4) .
  show ?thesis
  proof (cases "127 \<le> length ?data")
    case True
    then have "127 \<le> r" using r(4) by simp
    then show ?thesis unfolding run using True r(1) by (simp add: udp_sends_def udp_exchange_def)
  next
    case short: False
    then have "0 < r" "r < 127" using r(4) False by simp_all
    then show ?thesis unfolding run using short r(1) calc_reply_faults[of ?data]
      by (cases "calc_reply ?data") (auto simp: udp_sends_def udp_exchange_def)
  qed
qed

text \<open>Where a run is, by what it has recorded: \<open>k\<close> exchanges, and the calls around the \<open>close\<close>.\<close>

definition udp_open :: "kernel \<Rightarrow> net \<Rightarrow> int \<Rightarrow> syscall list \<Rightarrow> udp_server \<Rightarrow> bool" where
  "udp_open kern net fd A sv \<longleftrightarrow> (case ud_thread sv of
      Udp_Respond r buf \<Rightarrow> ud_log sv = A @ [Recvfrom fd 508] \<and> udp_holds kern net fd A r buf
    | _ \<Rightarrow> ud_log sv = A)"

definition udp_shut :: "kernel \<Rightarrow> net \<Rightarrow> int \<Rightarrow> syscall list \<Rightarrow> udp_server \<Rightarrow> bool" where
  "udp_shut kern net fd A sv \<longleftrightarrow> (\<exists>done. (done = A @ [Close fd] \<or> done = A @ Recvfrom fd 508 # Close fd # udp_sends kern net fd A) \<and>
    (case ud_thread sv of
      Udp_Receive \<Rightarrow> ud_log sv = done
    | Udp_Respond r buf \<Rightarrow> ud_log sv = A @ [Recvfrom fd 508, Close fd] \<and> udp_holds kern net fd A r buf \<or>
        ud_log sv = done @ [Recvfrom fd 508] \<and> udp_holds kern net fd done r buf
    | Udp_Done \<Rightarrow> ud_log sv = done \<or> ud_log sv = done @ [Recvfrom fd 508]))"

definition udp_history :: "kernel \<Rightarrow> net \<Rightarrow> int \<Rightarrow> syscall list \<Rightarrow> udp_server \<Rightarrow> bool" where
  "udp_history kern net fd log sv \<longleftrightarrow> ud_fd sv = fd \<and> (\<exists>k. let A = (udp_exchange kern net fd ^^ k) log in
    if ud_main sv = Udp_Input \<or> ud_main sv = Udp_Close then udp_open kern net fd A sv else udp_shut kern net fd A sv)"

lemma udp_open_thread:
  assumes "recv_documented kern net" and "\<forall>log. length (junk log) = 508" and "ud_fd sv = fd" and "ud_main sv \<noteq> Udp_Ended"
    and "udp_open kern net fd A sv"
  shows "case udp_thread kern net junk sv of Inl e \<Rightarrow> e \<in> {Signed_Overflow, Div_By_Zero}
    | Inr sv' \<Rightarrow> ud_fd sv' = fd \<and> ud_main sv' = ud_main sv \<and> (udp_open kern net fd A sv' \<or> udp_open kern net fd (udp_exchange kern net fd A) sv')"
proof (cases "ud_thread sv")
  case Udp_Receive
  then have log: "ud_log sv = A" using assms(5) by (simp add: udp_open_def)
  obtain b where "udp_receive kern net (junk A) fd A = Inr (fst (kern A (Recvfrom fd 508)), b, A @ [Recvfrom fd 508])"
    "udp_holds kern net fd A (fst (kern A (Recvfrom fd 508))) b"
    using udp_receive_holds[OF assms(1), of "junk A" fd A] assms(2) by blast
  then show ?thesis using Udp_Receive log assms(3,4) by (simp add: udp_thread_def udp_open_def)
next
  case (Udp_Respond r buf)
  then have log: "ud_log sv = A @ [Recvfrom fd 508]" "udp_holds kern net fd A r buf" using assms(5) by (simp_all add: udp_open_def)
  show ?thesis
    using udp_respond_sends[OF log(2), of "ud_log sv"] Udp_Respond log(1) assms(3,4)
    by (cases "udp_respond kern fd r buf (ud_log sv)") (auto simp: udp_thread_def udp_open_def)
qed (use assms in \<open>simp add: udp_thread_def\<close>)

lemma udp_shut_thread:
  assumes "recv_documented kern net" and "closed_documented kern fd" and "\<forall>log. length (junk log) = 508"
    and "ud_fd sv = fd" and "ud_main sv \<noteq> Udp_Ended" and "udp_shut kern net fd A sv"
  shows "case udp_thread kern net junk sv of Inl e \<Rightarrow> e \<in> {Signed_Overflow, Div_By_Zero}
    | Inr sv' \<Rightarrow> ud_fd sv' = fd \<and> ud_main sv' = ud_main sv \<and> udp_shut kern net fd A sv'"
proof -
  obtain dn where dn: "dn = A @ [Close fd] \<or> dn = A @ Recvfrom fd 508 # Close fd # udp_sends kern net fd A"
    and pc: "case ud_thread sv of
      Udp_Receive \<Rightarrow> ud_log sv = dn
    | Udp_Respond r buf \<Rightarrow> ud_log sv = A @ [Recvfrom fd 508, Close fd] \<and> udp_holds kern net fd A r buf \<or>
        ud_log sv = dn @ [Recvfrom fd 508] \<and> udp_holds kern net fd dn r buf
    | Udp_Done \<Rightarrow> ud_log sv = dn \<or> ud_log sv = dn @ [Recvfrom fd 508]"
    using assms(6) unfolding udp_shut_def by blast
  have fails: "fst (kern dn (Recvfrom fd 508)) = -1" using assms(2) dn by (auto simp: closed_documented_def)
  show ?thesis
  proof (cases "ud_thread sv")
    case Udp_Receive
    then have log: "ud_log sv = dn" using pc by simp
    obtain b where "udp_receive kern net (junk dn) fd dn = Inr (fst (kern dn (Recvfrom fd 508)), b, dn @ [Recvfrom fd 508])"
      "udp_holds kern net fd dn (fst (kern dn (Recvfrom fd 508))) b"
      using udp_receive_holds[OF assms(1), of "junk dn" fd dn] assms(3) by blast
    then show ?thesis using Udp_Receive log assms(4,5) dn by (auto simp: udp_thread_def udp_shut_def)
  next
    case (Udp_Respond r buf)
    then consider "ud_log sv = A @ [Recvfrom fd 508, Close fd]" "udp_holds kern net fd A r buf"
      | "ud_log sv = dn @ [Recvfrom fd 508]" "udp_holds kern net fd dn r buf" using pc by auto
    then show ?thesis
    proof cases
      case 1
      show ?thesis
        using udp_respond_sends[OF 1(2), of "ud_log sv"] Udp_Respond 1(1) assms(4,5)
        by (cases "udp_respond kern fd r buf (ud_log sv)") (auto simp: udp_thread_def udp_shut_def)
    next
      case 2
      then have "r = -1" using fails by (simp add: udp_holds_def)
      then show ?thesis using Udp_Respond 2(1) assms(4,5) dn by (auto simp: udp_thread_def udp_respond_def udp_shut_def)
    qed
  qed (use assms in \<open>simp add: udp_thread_def\<close>)
qed

lemma udp_thread_history:
  assumes "recv_documented kern net" and "closed_documented kern fd" and "\<forall>log. length (junk log) = 508"
    and "udp_history kern net fd log sv"
  shows "case udp_thread kern net junk sv of Inl e \<Rightarrow> e \<in> {Signed_Overflow, Div_By_Zero} | Inr sv' \<Rightarrow> udp_history kern net fd log sv'"
proof (cases "ud_main sv = Udp_Ended")
  case True
  then show ?thesis using assms(4) by (simp add: udp_thread_def)
next
  case False
  let ?A = "\<lambda>k. (udp_exchange kern net fd ^^ k) log"
  have fd: "ud_fd sv = fd" using assms(4) by (simp add: udp_history_def)
  obtain k where k: "if ud_main sv = Udp_Input \<or> ud_main sv = Udp_Close then udp_open kern net fd (?A k) sv else udp_shut kern net fd (?A k) sv"
    using assms(4) unfolding udp_history_def Let_def by blast
  have suc: "udp_exchange kern net fd (?A k) = ?A (Suc k)" by simp
  show ?thesis
  proof (cases "ud_main sv = Udp_Input \<or> ud_main sv = Udp_Close")
    case True
    then have "udp_open kern net fd (?A k) sv" using k by simp
    from udp_open_thread[OF assms(1,3) fd False this] show ?thesis
      unfolding suc using True by (cases "udp_thread kern net junk sv") (auto simp: udp_history_def Let_def simp del: funpow.simps)
  next
    case closed: False
    then have "udp_shut kern net fd (?A k) sv" using k by simp
    from udp_shut_thread[OF assms(1-3) fd False this] show ?thesis
      using closed by (cases "udp_thread kern net junk sv") (auto simp: udp_history_def Let_def)
  qed
qed

lemma udp_main_upd [simp]:
  "udp_open kern net fd A (sv\<lparr>ud_main := m\<rparr>) = udp_open kern net fd A sv"
  "udp_shut kern net fd A (sv\<lparr>ud_main := m\<rparr>) = udp_shut kern net fd A sv"
  by (cases "ud_thread sv"; simp add: udp_open_def udp_shut_def)+

lemma udp_main_history:
  assumes "udp_history kern net fd log sv"
  shows "udp_history kern net fd log (udp_main kern sv)"
proof (cases "ud_main sv")
  case Udp_Close
  obtain k where k: "udp_open kern net fd ((udp_exchange kern net fd ^^ k) log) sv" and fd: "ud_fd sv = fd"
    using assms Udp_Close by (auto simp: udp_history_def Let_def)
  let ?A = "(udp_exchange kern net fd ^^ k) log"
  have "udp_shut kern net fd ?A (udp_main kern sv)"
    using k fd Udp_Close by (cases "ud_thread sv") (auto simp: udp_open_def udp_shut_def udp_main_def log_sys_def split_beta)
  then show ?thesis using fd Udp_Close by (auto simp: udp_history_def udp_main_def Let_def)
qed (use assms in \<open>auto simp: udp_history_def udp_main_def Let_def\<close>)

lemma udp_rfold_history:
  assumes "recv_documented kern net" and "closed_documented kern fd" and "\<forall>log. length (junk log) = 508"
    and "udp_history kern net fd log sv"
  shows "case rfold (udp_step kern net junk) sched sv of
      Inl e \<Rightarrow> e \<in> {Signed_Overflow, Div_By_Zero} | Inr sv' \<Rightarrow> udp_history kern net fd log sv'"
  using assms(4)
proof (induction sched arbitrary: sv)
  case (Cons b sched)
  have "case udp_step kern net junk b sv of Inl e \<Rightarrow> e \<in> {Signed_Overflow, Div_By_Zero} | Inr sv' \<Rightarrow> udp_history kern net fd log sv'"
    using udp_main_history[OF Cons.prems] udp_thread_history[OF assms(1-3) Cons.prems] by (simp add: udp_step_def)
  then show ?case using Cons.IH by (cases "udp_step kern net junk b sv") auto
qed simp

section \<open>Properties\<close>

text \<open>C33: The UDP program under every schedule of its thread and of \<open>main\<close>, with \<open>close\<close> possibly between a \<open>recvfrom\<close> and
  its \<open>sendto\<close> or during a blocked \<open>recvfrom\<close>.  After the two calls that open the
  socket, the thread answers the datagrams one by one, each with the calculator's reply or a refusal (\<open>udp_exchange\<close>), and at most
  one datagram is waiting for its answer.  After \<open>main\<close> has closed the socket, the thread sends at most
  the one answer to the \<open>recvfrom\<close> that it had called before, and makes at most one more call, a
  \<open>recvfrom\<close>, which fails, so that the thread ends.  The only faults are the arithmetic ones of a request.  (The kernel is documented
  to fail a \<open>recvfrom\<close> that is called on the closed socket, which no other call of the program reopens.)\<close>

theorem udp_server_replies:
  assumes "recv_documented kern net" and "\<forall>log. length (junk log) = 508"
    and "closed_documented kern (fst (create_server_socket_udp kern UDP_PORT False log))"
  shows "case udp_run kern net junk sched log of
      Inl e \<Rightarrow> e \<in> {Signed_Overflow, Div_By_Zero}
    | Inr sv \<Rightarrow> (\<exists>k late. let (fd, start) = create_server_socket_udp kern UDP_PORT False log;
          answered = (udp_exchange kern net fd ^^ k) start; sends = udp_sends kern net fd answered in
        length sends \<le> 1 \<and> (late = [] \<or> late = [Recvfrom fd 508] \<and> ud_thread sv \<noteq> Udp_Receive) \<and>
        (if ud_main sv = Udp_Input \<or> ud_main sv = Udp_Close
         then ud_log sv = answered \<or> ud_log sv = answered @ [Recvfrom fd 508]
         else ud_log sv = answered @ Close fd # late \<or> ud_log sv = answered @ [Recvfrom fd 508, Close fd] \<or>
           ud_log sv = answered @ Recvfrom fd 508 # Close fd # sends @ late))"
proof -
  obtain fd start where c: "create_server_socket_udp kern UDP_PORT False log = (fd, start)" by (metis surj_pair)
  have "udp_history kern net fd start (udp_start kern log)"
    by (auto simp: udp_history_def udp_open_def udp_start_def c Let_def intro!: exI[of _ 0])
  note hist = udp_rfold_history[OF assms(1) _ assms(2) this, of sched]
  show ?thesis
  proof (cases "udp_run kern net junk sched log")
    case (Inl e)
    then show ?thesis using hist assms(3) by (simp add: udp_run_def c)
  next
    case (Inr sv)
    then have "udp_history kern net fd start sv" using hist assms(3) by (simp add: udp_run_def c)
    then obtain k where k: "if ud_main sv = Udp_Input \<or> ud_main sv = Udp_Close
        then udp_open kern net fd ((udp_exchange kern net fd ^^ k) start) sv else udp_shut kern net fd ((udp_exchange kern net fd ^^ k) start) sv"
      unfolding udp_history_def Let_def by blast
    define A where "A = (udp_exchange kern net fd ^^ k) start"
    have one: "length (udp_sends kern net fd A) \<le> 1" by (auto simp: udp_sends_def Let_def split: sum.split)
    have "\<exists>late. (late = [] \<or> late = [Recvfrom fd 508] \<and> ud_thread sv \<noteq> Udp_Receive) \<and>
        (if ud_main sv = Udp_Input \<or> ud_main sv = Udp_Close
         then ud_log sv = A \<or> ud_log sv = A @ [Recvfrom fd 508]
         else ud_log sv = A @ Close fd # late \<or> ud_log sv = A @ [Recvfrom fd 508, Close fd] \<or>
           ud_log sv = A @ Recvfrom fd 508 # Close fd # udp_sends kern net fd A @ late)"
    proof (cases "ud_main sv = Udp_Input \<or> ud_main sv = Udp_Close")
      case True
      then show ?thesis using k unfolding A_def[symmetric] by (cases "ud_thread sv") (auto simp: udp_open_def)
    next
      case False
      then have "udp_shut kern net fd A sv" using k unfolding A_def[symmetric] by simp
      then obtain dn where dn: "dn = A @ [Close fd] \<or> dn = A @ Recvfrom fd 508 # Close fd # udp_sends kern net fd A"
        and log: "ud_log sv = A @ [Recvfrom fd 508, Close fd] \<or> ud_log sv = dn \<or>
          ud_log sv = dn @ [Recvfrom fd 508] \<and> ud_thread sv \<noteq> Udp_Receive"
        unfolding udp_shut_def by (cases "ud_thread sv") auto
      let ?P = "\<lambda>late. ud_log sv = A @ Close fd # late \<or> ud_log sv = A @ [Recvfrom fd 508, Close fd] \<or>
           ud_log sv = A @ Recvfrom fd 508 # Close fd # udp_sends kern net fd A @ late"
      have "?P [] \<or> ud_thread sv \<noteq> Udp_Receive \<and> ?P [Recvfrom fd 508]"
        using dn log by (elim disjE conjE) simp_all
      then show ?thesis unfolding if_not_P[OF False] by blast
    qed
    then show ?thesis unfolding Inr sum.case c Let_def prod.case using one A_def by blast
  qed
qed

definition udp_closing :: kernel where
  "udp_closing log c = (if Close 3 \<in> set log then (-1, []) else if c = Socket AF_INET SOCK_DGRAM IPPROTO_UDP then (3, [])
     else calc_kernel ''x'' log c)"

text \<open>The socket is closed while the thread has a datagram to answer.\<close>

lemma udp_closing_run:
  "case udp_run udp_closing (calc_net ''x'') (\<lambda>_. zeros 508) [False, True, True, False, False] [] of Inl e \<Rightarrow> False
    | Inr sv \<Rightarrow> drop 2 (ud_log sv) = [Recvfrom 3 508, Close 3, Sendto 3 (''Unknown command: x'' @ [LF]), Recvfrom 3 508]"
  by code_simp

lemma udp_server_replies_witness:
  "\<exists>sv. udp_run udp_closing (calc_net ''x'') (\<lambda>_. zeros 508) [False, True, True, False, False] [] = Inr sv \<and>
    drop 2 (ud_log sv) = [Recvfrom 3 508, Close 3, Sendto 3 (''Unknown command: x'' @ [LF]), Recvfrom 3 508] \<and>
    (\<exists>k late. let (fd, start) = create_server_socket_udp udp_closing UDP_PORT False [];
          answered = (udp_exchange udp_closing (calc_net ''x'') fd ^^ k) start; sends = udp_sends udp_closing (calc_net ''x'') fd answered in
        length sends \<le> 1 \<and> (late = [] \<or> late = [Recvfrom fd 508] \<and> ud_thread sv \<noteq> Udp_Receive) \<and>
        (if ud_main sv = Udp_Input \<or> ud_main sv = Udp_Close
         then ud_log sv = answered \<or> ud_log sv = answered @ [Recvfrom fd 508]
         else ud_log sv = answered @ Close fd # late \<or> ud_log sv = answered @ [Recvfrom fd 508, Close fd] \<or>
           ud_log sv = answered @ Recvfrom fd 508 # Close fd # sends @ late))"
proof -
  obtain sv where sv: "udp_run udp_closing (calc_net ''x'') (\<lambda>_. zeros 508) [False, True, True, False, False] [] = Inr sv"
    "drop 2 (ud_log sv) = [Recvfrom 3 508, Close 3, Sendto 3 (''Unknown command: x'' @ [LF]), Recvfrom 3 508]"
    using udp_closing_run by (auto split: sum.splits)
  have doc: "recv_documented udp_closing (calc_net ''x'')"
    using calc_documented[of "''x''"] by (simp add: recv_documented_def udp_closing_def)
  have closed: "closed_documented udp_closing (fst (create_server_socket_udp udp_closing UDP_PORT False []))"
    by (simp add: create_server_socket_udp_def log_sys_def closed_documented_def udp_closing_def AF_INET_def)
  have junk: "\<forall>log :: syscall list. length (zeros 508) = 508" by simp
  from udp_server_replies[OF doc junk closed, of "[False, True, True, False, False]", unfolded sv(1) sum.case] sv show ?thesis by blast
qed

end
