(* ===== verification/Server_Loops.thy ===== *)
theory Server_Loops
  imports Html_Service Endpoint_Properties
begin

text \<open>
  The threads of the two TCP servers, \<open>apps/Run_unix_srv.c\<close> and \<open>apps/Run_calc_srv.c\<close>: \<open>accept_proc\<close>,
  and \<open>client_event_processor\<close>, which is the same in both.  Their loops are only left when the selector
  fails or another thread sets \<open>stop\<close>, so they are partial functions whose value is \<open>None\<close> when they never
  return; the lemmas show that every round makes a system call, that the threads therefore end once
  \<open>stop\<close> is set, and which jobs the processor posts until then.
\<close>

section \<open>The loops of the threads\<close>

text \<open>\<open>stop\<close> is set by the main thread at any time: what a test of it reads is a function of the system
  calls made before.  A loop that never ends has the value \<open>None\<close>.\<close>

type_synonym stop_flag = "syscall list \<Rightarrow> bool"

definition accept_flags :: "32 word" where
  "accept_flags = EPOLLHUP OR EPOLLIN OR EPOLLET"

partial_function (option) html_accept_loop :: "kernel \<Rightarrow> stop_flag \<Rightarrow> int list \<Rightarrow> int \<Rightarrow> ep \<Rightarrow> ep result option" where
  "html_accept_loop kern stop new_client count s =
    (if count > -1 \<and> \<not> stop (e_log s)
     then (case rbind (endpoint_close_hungups kern s) (\<lambda>(_, s).
                endpoint_accept kern new_client 1 1000 accept_flags s) of
             Inl e \<Rightarrow> Some (Inl e)
           | Inr (count, new_client, s) \<Rightarrow> html_accept_loop kern stop new_client count s)
     else Some (Inr s))"

definition html_accept_proc :: "kernel \<Rightarrow> stop_flag \<Rightarrow> ep \<Rightarrow> ep result option" where
  "html_accept_proc kern stop s =
    (case endpoint_accept kern [-1] 1 1000 accept_flags s of
       Inl e \<Rightarrow> Some (Inl e)
     | Inr (count, new_client, s) \<Rightarrow> html_accept_loop kern stop new_client count s)"

partial_function (option) calc_accept_loop :: "kernel \<Rightarrow> stop_flag \<Rightarrow> int list \<Rightarrow> int \<Rightarrow> ep \<Rightarrow> ep result option" where
  "calc_accept_loop kern stop new_client count s =
    (if count > -1 \<and> \<not> stop (e_log s)
     then (case endpoint_accept kern new_client 1 1000 accept_flags s of
             Inl e \<Rightarrow> Some (Inl e)
           | Inr (count, new_client, s) \<Rightarrow> calc_accept_loop kern stop new_client count s)
     else Some (Inr s))"

definition calc_accept_proc :: "kernel \<Rightarrow> stop_flag \<Rightarrow> ep \<Rightarrow> ep result option" where
  "calc_accept_proc kern stop s =
    (case rbind (endpoint_close_hungups kern s) (\<lambda>(_, s). endpoint_accept kern [-1] 1 1000 accept_flags s) of
       Inl e \<Rightarrow> Some (Inl e)
     | Inr (count, new_client, s) \<Rightarrow> calc_accept_loop kern stop new_client count s)"

text \<open>\<open>client\<close> and \<open>event_flag\<close> are arrays of one element; the arguments of the calls of \<open>w_post\<close> are
  collected in \<open>posts\<close>.  The argument is computed in every round, also when there is no event.\<close>

partial_function (option) processor_loop ::
    "kernel \<Rightarrow> stop_flag \<Rightarrow> int list \<Rightarrow> int list \<Rightarrow> int \<Rightarrow> 64 word list \<Rightarrow> ep \<Rightarrow> (64 word list \<times> ep) result option" where
  "processor_loop kern stop client event_flag count posts s =
    (if count > -1 \<and> \<not> stop (e_log s)
     then (case rbind (event_arg (client ! 0) (event_flag ! 0)) (\<lambda>arg.
                rbind (endpoint_wait_event kern client event_flag 1 1000 s) (\<lambda>(count', client, event_flag, s).
                Inr (if count > 0 then posts @ [arg] else posts, count', client, event_flag, s))) of
             Inl e \<Rightarrow> Some (Inl e)
           | Inr (posts, count, client, event_flag, s) \<Rightarrow> processor_loop kern stop client event_flag count posts s)
     else Some (Inr (posts, s)))"

definition client_event_processor :: "kernel \<Rightarrow> stop_flag \<Rightarrow> ep \<Rightarrow> (64 word list \<times> ep) result option" where
  "client_event_processor kern stop s =
    (case endpoint_wait_event kern [-1] [-1] 1 1000 s of
       Inl e \<Rightarrow> Some (Inl e)
     | Inr (count, client, event_flag, s) \<Rightarrow> processor_loop kern stop client event_flag count [] s)"

section \<open>Every round makes a system call\<close>

lemma boolset_log: "clients_set i v s = Inr s' \<Longrightarrow> e_log s' = e_log s"
  by (auto simp: clients_set_def rbind_Inr_iff)

lemma locks_log:
  "lock_clients s = Inr s' \<Longrightarrow> e_log s' = e_log s" "unlock_clients s = Inr s' \<Longrightarrow> e_log s' = e_log s"
  "lock_queue s = Inr s' \<Longrightarrow> e_log s' = e_log s" "unlock_queue s = Inr s' \<Longrightarrow> e_log s' = e_log s"
  by (auto simp: locking split: if_splits)

lemma ops_log:
  "endpoint_register_client fd s = Inr s' \<Longrightarrow> e_log s' = e_log s"
  "endpoint_deregister_client fd s = Inr s' \<Longrightarrow> e_log s' = e_log s"
  "endpoint_enqueue_client_for_disconnection fd s = Inr s' \<Longrightarrow> e_log s' = e_log s"
  by (auto simp: endpoint_register_client_def endpoint_deregister_client_def endpoint_enqueue_client_for_disconnection_def
      rbind_Inr_iff dest!: locks_log boolset_log)

lemma accept_loop_log:
  "accept_loop kern flags fds lim c s = Inr (r, fds', s') \<Longrightarrow> length (e_log s) \<le> length (e_log s')"
proof (induction "nat (lim - c)" arbitrary: fds c s rule: less_induct)
  case less
  show ?case
  proof (cases "c < lim \<and> fst (kern (e_log s) (Accept (e_srv_fd s))) \<noteq> -1")
    case False
    then show ?thesis using less.prems by (subst (asm) accept_loop.simps) (auto simp: sys_def split_beta split: if_splits)
  next
    case True
    let ?fd = "fst (kern (e_log s) (Accept (e_srv_fd s)))"
    let ?s = "s\<lparr>e_log := e_log s @ [Accept (e_srv_fd s)]\<rparr>"
    obtain s1 where s1: "endpoint_register_client ?fd ?s = Inr s1" "0 \<le> c" "c < int (length fds)"
      "accept_loop kern flags (fds[nat c := ?fd]) lim (c + 1)
        (call kern (Epoll_Ctl (e_ep_selector s1) EPOLL_CTL_ADD ?fd (Some (create_epoll_event ?fd (flags OR EPOLLRDHUP)))) s1) = Inr (r, fds', s')"
      using less.prems[unfolded accept_loop.simps[of kern flags fds lim c s]] True by (auto simp: sys_def split_beta rbind_Inr_iff Let_def split: if_splits)
    have "length (e_log (call kern (Epoll_Ctl (e_ep_selector s1) EPOLL_CTL_ADD ?fd (Some (create_epoll_event ?fd (flags OR EPOLLRDHUP)))) s1)) \<le> length (e_log s')"
      using less.hyps[OF _ s1(4)] True by simp
    then show ?thesis using ops_log(1)[OF s1(1)] by simp
  qed
qed

lemma accept_log:
  "endpoint_accept kern fds lim timeout flags s = Inr (r, fds', s') \<Longrightarrow> length (e_log s) < length (e_log s')"
  by (auto simp: endpoint_accept_def sys_def Let_def split_beta split: list.splits if_splits dest!: accept_loop_log)

lemma wait_loop_log: "wait_loop evs n i fds flags s = Inr (fds', flags', s') \<Longrightarrow> e_log s' = e_log s"
proof (induction evs n i fds flags s rule: wait_loop.induct)
  case (1 evs n i fds flags s)
  show ?case
  proof (cases "i < n")
    case False
    then show ?thesis using "1.prems" by (subst (asm) wait_loop.simps) simp
  next
    case True
    obtain s1 where s1: "0 \<le> i" "i < int (length evs)" "i < int (length fds)" "i < int (length flags)"
      "(if ev_events (evs ! nat i) AND EPOLLRDHUP \<noteq> 0 then endpoint_enqueue_client_for_disconnection (ev_fd (evs ! nat i)) s
        else Inr s) = Inr s1"
      "wait_loop evs n (i + 1) (fds[nat i := ev_fd (evs ! nat i)]) (flags[nat i := sint (ev_events (evs ! nat i))]) s1 = Inr (fds', flags', s')"
      using "1.prems"[unfolded wait_loop.simps[of evs n i fds flags s]] True by (auto simp: rbind_Inr_iff Let_def split: if_splits)
    have "e_log s1 = e_log s" using s1(5) ops_log(3) by (auto split: if_splits)
    then show ?thesis using "1.IH"[OF True _ refl _ s1(5)] s1 by simp
  qed
qed

lemma wait_log:
  "endpoint_wait_event kern fds flags n timeout s = Inr (r, fds', flags', s') \<Longrightarrow> length (e_log s) < length (e_log s')"
  by (auto simp: endpoint_wait_event_def sys_def Let_def rbind_Inr_iff split_beta dest!: wait_loop_log)

lemma disconnect_log: "endpoint_disconnect_client kern fd s = Inr (r, s') \<Longrightarrow> length (e_log s) \<le> length (e_log s')"
  by (auto simp: endpoint_disconnect_client_def rbind_Inr_iff Let_def dest!: ops_log)

lemma hungups_log: "hungups_loop kern c s = Inr (r, s') \<Longrightarrow> length (e_log s) \<le> length (e_log s')"
proof (induction kern c s arbitrary: r s' rule: hungups_loop.induct)
  case (1 kern c s)
  show ?case
  proof (cases "stack_is_empty (e_queue s)")
    case True
    then show ?thesis using "1.prems" by (subst (asm) hungups_loop.simps) simp
  next
    case False
    obtain fd q h x s1 c' where s1: "stack_pop (e_queue s) (e_heap s) = Inr (fd, q, h)"
      "endpoint_disconnect_client kern (to_int fd) (s\<lparr>e_queue := q, e_heap := h\<rparr>) = Inr (x, s1)"
      "chk_int (c + 1) = Inr c'" "hungups_loop kern c' s1 = Inr (r, s')"
      using "1.prems"[unfolded hungups_loop.simps[of kern c s]] False by (auto simp: rbind_Inr_iff)
    have "length (e_log s1) \<le> length (e_log s')"
      using "1.IH"[OF False s1(1) refl refl s1(2) refl s1(3)] s1(4) by blast
    then show ?thesis using disconnect_log[OF s1(2)] by simp
  qed
qed

lemma close_hungups_log: "endpoint_close_hungups kern s = Inr (r, s') \<Longrightarrow> length (e_log s) \<le> length (e_log s')"
  by (auto simp: endpoint_close_hungups_def rbind_Inr_iff dest!: hungups_log locks_log)

section \<open>The threads end\<close>

text \<open>A loop ends when every round brings a measure down.\<close>

lemma loop_ends:
  fixes m :: "'x \<Rightarrow> nat"
  assumes "\<And>x. loop x = (if go x then (case round x of Inl e \<Rightarrow> Some (Inl e) | Inr y \<Rightarrow> loop y) else Some (fin x))"
    and "\<And>x y. go x \<Longrightarrow> round x = Inr y \<Longrightarrow> m y < m x"
  shows "\<exists>r. loop x = Some r"
proof (induction "m x" arbitrary: x rule: less_induct)
  case less
  show ?case
  proof (cases "go x")
    case go: True
    show ?thesis
    proof (cases "round x")
      case (Inr y)
      then show ?thesis using less.hyps[OF assms(2)[OF go Inr]] go by (simp add: assms(1)[of x])
    qed (simp add: assms(1)[of x] go)
  qed (simp add: assms(1)[of x])
qed

text \<open>The measure of the loops: the system calls that are left before \<open>stop\<close> must have been set.\<close>

lemma calls_left:
  assumes "\<forall>log. N \<le> length log \<longrightarrow> stop log" and "\<not> stop log" and "length log < length log'"
  shows "N - length log' < N - length log"
  using assms by (meson diff_less_mono2 not_less)

lemma processor_loop_ends:
  assumes "\<forall>log. N \<le> length log \<longrightarrow> stop log"
  shows "\<exists>r. processor_loop kern stop client event_flag count posts s = Some r"
proof -
  have "\<exists>r. (\<lambda>(ps, c, cl, fl, s). processor_loop kern stop cl fl c ps s) (posts, count, client, event_flag, s) = Some r"
  proof (rule loop_ends[where go = "\<lambda>(ps, c, cl, fl, s). c > -1 \<and> \<not> stop (e_log s)"
        and round = "\<lambda>(ps, c, cl, fl, s). rbind (event_arg (cl ! 0) (fl ! 0)) (\<lambda>arg.
          rbind (endpoint_wait_event kern cl fl 1 1000 s) (\<lambda>(c', cl, fl, s).
          Inr (if c > 0 then ps @ [arg] else ps, c', cl, fl, s)))"
        and fin = "\<lambda>(ps, c, cl, fl, s). Inr (ps, s)" and m = "\<lambda>(ps, c, cl, fl, s). N - length (e_log s)"])
    show "(case x of (ps, c, cl, fl, s) \<Rightarrow> processor_loop kern stop cl fl c ps s) =
      (if case x of (ps, c, cl, fl, s) \<Rightarrow> c > -1 \<and> \<not> stop (e_log s)
       then (case (case x of (ps, c, cl, fl, s) \<Rightarrow> rbind (event_arg (cl ! 0) (fl ! 0)) (\<lambda>arg.
          rbind (endpoint_wait_event kern cl fl 1 1000 s) (\<lambda>(c', cl, fl, s).
          Inr (if c > 0 then ps @ [arg] else ps, c', cl, fl, s)))) of
          Inl e \<Rightarrow> Some (Inl e) | Inr y \<Rightarrow> (case y of (ps, c, cl, fl, s) \<Rightarrow> processor_loop kern stop cl fl c ps s))
       else Some (case x of (ps, c, cl, fl, s) \<Rightarrow> Inr (ps, s)))" for x
      by (cases x) (simp add: processor_loop.simps)
  qed (auto simp: rbind_Inr_iff intro!: calls_left[OF assms] dest: wait_log)
  then show ?thesis by simp
qed

lemma html_accept_loop_ends:
  assumes "\<forall>log. N \<le> length log \<longrightarrow> stop log"
  shows "\<exists>r. html_accept_loop kern stop new_client count s = Some r"
proof -
  have "\<exists>r. (\<lambda>(c, cl, s). html_accept_loop kern stop cl c s) (count, new_client, s) = Some r"
  proof (rule loop_ends[where go = "\<lambda>(c, cl, s). c > -1 \<and> \<not> stop (e_log s)"
        and round = "\<lambda>(c, cl, s). rbind (endpoint_close_hungups kern s) (\<lambda>(_, s). endpoint_accept kern cl 1 1000 accept_flags s)"
        and fin = "\<lambda>(c, cl, s). Inr s" and m = "\<lambda>(c, cl, s). N - length (e_log s)"])
    show "(case x of (c, cl, s) \<Rightarrow> html_accept_loop kern stop cl c s) =
      (if case x of (c, cl, s) \<Rightarrow> c > -1 \<and> \<not> stop (e_log s)
       then (case (case x of (c, cl, s) \<Rightarrow> rbind (endpoint_close_hungups kern s) (\<lambda>(_, s).
              endpoint_accept kern cl 1 1000 accept_flags s)) of
          Inl e \<Rightarrow> Some (Inl e) | Inr y \<Rightarrow> (case y of (c, cl, s) \<Rightarrow> html_accept_loop kern stop cl c s))
       else Some (case x of (c, cl, s) \<Rightarrow> Inr s))" for x
      by (cases x) (simp add: html_accept_loop.simps)
  qed (fastforce simp: rbind_Inr_iff intro!: calls_left[OF assms] dest: close_hungups_log accept_log)
  then show ?thesis by simp
qed

lemma calc_accept_loop_ends:
  assumes "\<forall>log. N \<le> length log \<longrightarrow> stop log"
  shows "\<exists>r. calc_accept_loop kern stop new_client count s = Some r"
proof -
  have "\<exists>r. (\<lambda>(c, cl, s). calc_accept_loop kern stop cl c s) (count, new_client, s) = Some r"
  proof (rule loop_ends[where go = "\<lambda>(c, cl, s). c > -1 \<and> \<not> stop (e_log s)"
        and round = "\<lambda>(c, cl, s). endpoint_accept kern cl 1 1000 accept_flags s"
        and fin = "\<lambda>(c, cl, s). Inr s" and m = "\<lambda>(c, cl, s). N - length (e_log s)"])
    show "(case x of (c, cl, s) \<Rightarrow> calc_accept_loop kern stop cl c s) =
      (if case x of (c, cl, s) \<Rightarrow> c > -1 \<and> \<not> stop (e_log s)
       then (case (case x of (c, cl, s) \<Rightarrow> endpoint_accept kern cl 1 1000 accept_flags s) of
          Inl e \<Rightarrow> Some (Inl e) | Inr y \<Rightarrow> (case y of (c, cl, s) \<Rightarrow> calc_accept_loop kern stop cl c s))
       else Some (case x of (c, cl, s) \<Rightarrow> Inr s))" for x
      by (cases x) (simp add: calc_accept_loop.simps)
  qed (auto intro!: calls_left[OF assms] dest: accept_log)
  then show ?thesis by simp
qed

section \<open>What the processor posts\<close>

text \<open>The argument of the job for an event, and the events that are posted: those of every wait but the
  one after which the loop ends.\<close>

definition arg_of :: "epoll_event \<Rightarrow> 64 word" where
  "arg_of ev = word_of_int (ev_fd ev + sint (ev_events ev) * 2 ^ 32)"

fun posted_events :: "kernel \<Rightarrow> stop_flag \<Rightarrow> int \<Rightarrow> nat \<Rightarrow> int \<times> epoll_event list \<Rightarrow> syscall list \<Rightarrow> epoll_event list" where
  "posted_events kern stop sel 0 cur log = []"
| "posted_events kern stop sel (Suc k) cur log =
    (if fst cur > -1 \<and> \<not> stop log
     then snd cur @ posted_events kern stop sel k (kern log (Epoll_Wait sel 1 1000)) (log @ [Epoll_Wait sel 1 1000])
     else [])"

text \<open>The flags that \<open>epoll_wait\<close> reports do not include \<open>EPOLLET\<close>, the sign bit.\<close>

definition flags_documented :: "kernel \<Rightarrow> bool" where
  "flags_documented kern \<longleftrightarrow> (\<forall>log fd n t. \<forall>ev \<in> set (snd (kern log (Epoll_Wait fd n t))). 0 \<le> sint (ev_events ev))"

text \<open>\<open>holds_event\<close>: the two arrays hold the last event.\<close>

definition holds_event :: "int list \<Rightarrow> int list \<Rightarrow> int \<times> epoll_event list \<Rightarrow> bool" where
  "holds_event client event_flag cur \<longleftrightarrow> length client = 1 \<and> length event_flag = 1 \<and>
    (fst cur > -1 \<longrightarrow> fd_ok (client ! 0) \<and> 0 \<le> event_flag ! 0 \<and> event_flag ! 0 < 2 ^ 31) \<and>
    (0 < fst cur \<longrightarrow> snd cur = [\<lparr>ev_events = word_of_int (event_flag ! 0), ev_fd = client ! 0\<rparr>]) \<and>
    (fst cur \<le> 0 \<longrightarrow> snd cur = [])"

lemma event_bound: "sint (w :: 32 word) < 2 ^ 31"
  using sint_lt[of w] by simp

lemma holds_next:
  assumes "epoll_documented kern" and "flags_documented kern" and "kern log (Epoll_Wait sel 1 1000) = (r, evs)"
    and "length client = 1" and "length event_flag = 1"
    and "r = 0 \<longrightarrow> fd_ok (client ! 0) \<and> 0 \<le> event_flag ! 0 \<and> event_flag ! 0 < 2 ^ 31"
  shows "holds_event (map ev_fd evs @ drop (length evs) client)
    (map (\<lambda>ev. sint (ev_events ev)) evs @ drop (length evs) event_flag) (r, evs)"
proof -
  note d = epoll_documentedD[OF assms(1,3)]
  have nonneg: "\<forall>ev \<in> set evs. 0 \<le> sint (ev_events ev)"
    using assms(2,3) unfolding flags_documented_def by (metis snd_conv)
  consider "r = -1" | "r = 0" | "r = 1" using d(2) by linarith
  then show ?thesis
  proof cases
    case 3
    then obtain ev where ev: "evs = [ev]" using d(1) by (cases evs) auto
    have "ev = \<lparr>ev_events = word_of_int (sint (ev_events ev)), ev_fd = ev_fd ev\<rparr>" by simp
    then show ?thesis using 3 ev d(3) nonneg event_bound[of "ev_events ev"] assms(4,5) by (simp add: holds_event_def)
  qed (use d(1) assms(4-6) in \<open>auto simp: holds_event_def\<close>)
qed

lemma processor_loop_posts:
  assumes "ep_rep m (srv, lis, sel, sht) (2 * k + n) s a" and "epoll_documented kern" and "flags_documented kern"
    and "\<forall>log. length (e_log s) + k \<le> length log \<longrightarrow> stop log" and "holds_event client event_flag cur"
  shows "\<exists>s' a'. processor_loop kern stop client event_flag (fst cur) posts s =
      Some (Inr (posts @ map arg_of (posted_events kern stop sel k cur (e_log s)), s')) \<and>
    ep_rep m (srv, lis, sel, sht) n s' a'"
  using assms
proof (induction k arbitrary: s a client event_flag cur posts)
  case 0
  then have "stop (e_log s)" by simp
  then show ?case using 0 by (subst processor_loop.simps) auto
next
  case (Suc k)
  note log = rep_fds(5)[OF Suc.prems(1)]
  show ?case
  proof (cases "fst cur > -1 \<and> \<not> stop (e_log s)")
    case False
    have "ep_rep m (srv, lis, sel, sht) n s a" by (rule rep_mono[OF Suc.prems(1)]) simp
    then show ?thesis using False by (subst processor_loop.simps) auto
  next
    case go: True
    have h: "length client = 1" "length event_flag = 1" "fd_ok (client ! 0)" "0 \<le> event_flag ! 0" "event_flag ! 0 < 2 ^ 31"
      "0 < fst cur \<longrightarrow> snd cur = [\<lparr>ev_events = word_of_int (event_flag ! 0), ev_fd = client ! 0\<rparr>]"
      "fst cur \<le> 0 \<longrightarrow> snd cur = []"
      using Suc.prems(5) go by (simp_all add: holds_event_def)
    have arg: "event_arg (client ! 0) (event_flag ! 0) = Inr (word_of_int (client ! 0 + event_flag ! 0 * 2 ^ 32))"
      by (rule event_word(1)[OF h(3-5)])
    obtain r evs where kr: "kern (e_log s) (Epoll_Wait sel 1 1000) = (r, evs)" by fastforce
    have kr': "kern (a_log a) (Epoll_Wait sel (min 1 42) 1000) = (r, evs)" using kr log by simp
    note d = epoll_documentedD[OF Suc.prems(2) kr]
    have "length evs \<le> 1" using d(1,2) by auto
    then have "ep_rep m (srv, lis, sel, sht) (2 * length evs + (2 * k + n)) s a" by (intro rep_mono[OF Suc.prems(1)]) simp
    from rep_wait_event[OF this Suc.prems(2) kr', of client event_flag] h(1,2) obtain s1 where
      w: "endpoint_wait_event kern client event_flag 1 1000 s =
        Inr (r, map ev_fd evs @ drop (length evs) client, map (\<lambda>ev. sint (ev_events ev)) evs @ drop (length evs) event_flag, s1)"
      "ep_rep m (srv, lis, sel, sht) (2 * k + n) s1 (a\<lparr>a_queue := rev (hangups evs) @ a_queue a,
        a_log := a_log a @ [Epoll_Wait sel 1 1000]\<rparr>)" by auto
    have log1: "e_log s1 = e_log s @ [Epoll_Wait sel 1 1000]" using rep_fds(5)[OF w(2)] log by simp
    let ?cl = "map ev_fd evs @ drop (length evs) client"
    let ?fl = "map (\<lambda>ev. sint (ev_events ev)) evs @ drop (length evs) event_flag"
    let ?posts = "if fst cur > 0 then posts @ [word_of_int (client ! 0 + event_flag ! 0 * 2 ^ 32)] else posts"
    have holds: "holds_event ?cl ?fl (r, evs)" by (rule holds_next[OF Suc.prems(2,3) kr h(1,2)]) (use h(3-5) in simp)
    have stops: "\<forall>log. length (e_log s1) + k \<le> length log \<longrightarrow> stop log" using Suc.prems(4) log1 by simp
    obtain s' a' where IH: "processor_loop kern stop ?cl ?fl r ?posts s1 =
        Some (Inr (?posts @ map arg_of (posted_events kern stop sel k (r, evs) (e_log s1)), s'))"
      "ep_rep m (srv, lis, sel, sht) n s' a'"
      using Suc.IH[OF w(2) Suc.prems(2,3) stops holds, of ?posts] by auto
    have flag: "sint (word_of_int (event_flag ! 0) :: 32 word) = event_flag ! 0"
      using h(4,5) by (simp add: sint_sbintrunc' signed_take_bit_int_eq_self)
    have "?posts = posts @ map arg_of (snd cur)" using h(6,7) flag by (cases "0 < fst cur") (simp_all add: arg_of_def)
    then show ?thesis
      using IH go arg w(1) kr log1 by (subst processor_loop.simps) (auto simp del: of_int_add of_int_mult)
  qed
qed

lemma arg_of_decodes:
  assumes "fd_ok (ev_fd ev)" and "0 \<le> sint (ev_events ev)"
  shows "to_int (arg_of ev) = ev_fd ev \<and> sint (arg_of ev) div 2 ^ 32 = sint (ev_events ev)"
  unfolding arg_of_def using event_word(2,3)[OF assms event_bound] by blast

section \<open>Properties\<close>

text \<open>C32: The threads of both servers end: once \<open>stop\<close> is set at the latest after some number of system
  calls, \<open>accept_proc\<close> and \<open>client_event_processor\<close> return (or run into a fault), whatever the kernel
  answers and in whatever state they start: no round of their loops goes by without a system call.\<close>

theorem server_threads_end:
  assumes "\<forall>log. N \<le> length log \<longrightarrow> stop log"
  shows "html_accept_proc kern stop s \<noteq> None \<and> calc_accept_proc kern stop s \<noteq> None \<and>
    client_event_processor kern stop s \<noteq> None"
proof (intro conjI)
  show "html_accept_proc kern stop s \<noteq> None"
    using html_accept_loop_ends[OF assms] by (auto simp: html_accept_proc_def split: sum.splits)
  show "calc_accept_proc kern stop s \<noteq> None"
    using calc_accept_loop_ends[OF assms] by (auto simp: calc_accept_proc_def split: sum.splits)
  show "client_event_processor kern stop s \<noteq> None"
    using processor_loop_ends[OF assms] by (auto simp: client_event_processor_def split: sum.splits)
qed

lemma server_threads_end_witness:
  "html_accept_proc demo_kernel (\<lambda>log. 3 \<le> length log) ep0 \<noteq> None \<and>
   calc_accept_proc demo_kernel (\<lambda>log. 3 \<le> length log) ep0 \<noteq> None \<and>
   client_event_processor demo_kernel (\<lambda>log. 3 \<le> length log) ep0 \<noteq> None"
  by (rule server_threads_end[of 3]) simp

text \<open>C31: From the selector to the pool: when the first wait does not time out, \<open>client_event_processor\<close>
  returns after at most as many waits as \<open>stop\<close> allows, and has posted one job for every event that
  the selector reported, in the order of the reports; the argument of each job decodes to the event's
  client and flags.  The event of the last wait, after which \<open>stop\<close> was set, is not posted.\<close>

theorem processor_posts_events:
  assumes "ep_rep m (srv, lis, sel, sht) (2 * Suc k + n) s a" and "epoll_documented kern" and "flags_documented kern"
    and "\<forall>log. length (a_log a) + Suc k \<le> length log \<longrightarrow> stop log"
    and "kern (a_log a) (Epoll_Wait sel 1 1000) = (r, evs)" and "r \<noteq> 0"
  shows "\<exists>posts s'. client_event_processor kern stop s = Some (Inr (posts, s')) \<and>
    map (\<lambda>w. (to_int w, sint w div 2 ^ 32)) posts = map (\<lambda>ev. (ev_fd ev, sint (ev_events ev)))
      (posted_events kern stop sel k (r, evs) (a_log a @ [Epoll_Wait sel 1 1000]))"
proof -
  note log = rep_fds(5)[OF assms(1)]
  have k': "kern (a_log a) (Epoll_Wait sel (min 1 42) 1000) = (r, evs)" using assms(5) by simp
  have "length evs \<le> 1" using epoll_documentedD(1,2)[OF assms(2,5)] by auto
  then have "ep_rep m (srv, lis, sel, sht) (2 * length evs + (2 * k + n)) s a" by (intro rep_mono[OF assms(1)]) simp
  from rep_wait_event[OF this assms(2) k', of "[-1]" "[-1]"] obtain s1 where
    w: "endpoint_wait_event kern [-1] [-1] 1 1000 s =
      Inr (r, map ev_fd evs @ drop (length evs) [-1], map (\<lambda>ev. sint (ev_events ev)) evs @ drop (length evs) [-1], s1)"
    "ep_rep m (srv, lis, sel, sht) (2 * k + n) s1 (a\<lparr>a_queue := rev (hangups evs) @ a_queue a,
      a_log := a_log a @ [Epoll_Wait sel 1 1000]\<rparr>)" by auto
  have log1: "e_log s1 = a_log a @ [Epoll_Wait sel 1 1000]" using rep_fds(5)[OF w(2)] by simp
  let ?posted = "posted_events kern stop sel k (r, evs) (e_log s1)"
  have holds: "holds_event (map ev_fd evs @ drop (length evs) [-1])
      (map (\<lambda>ev. sint (ev_events ev)) evs @ drop (length evs) [-1]) (r, evs)"
    by (rule holds_next[OF assms(2,3,5)]) (use assms(6) in simp_all)
  have stops: "\<forall>log. length (e_log s1) + k \<le> length log \<longrightarrow> stop log" using assms(4) log1 by simp
  obtain s' where run: "client_event_processor kern stop s = Some (Inr (map arg_of ?posted, s'))"
    using processor_loop_posts[OF w(2) assms(2,3) stops holds, of "[]"] w(1) by (auto simp: client_event_processor_def)
  have events: "\<forall>ev \<in> set (posted_events kern stop sel j (kern l c) l'). fd_ok (ev_fd ev) \<and> 0 \<le> sint (ev_events ev)"
    if "c = Epoll_Wait sel 1 1000" for j l l' c
    using that
  proof (induction j arbitrary: l l')
    case (Suc j)
    obtain q es where q: "kern l c = (q, es)" by fastforce
    have "\<forall>ev \<in> set es. fd_ok (ev_fd ev)" using epoll_documentedD(3)[OF assms(2)] q Suc.prems by blast
    moreover have "\<forall>ev \<in> set es. 0 \<le> sint (ev_events ev)"
      using assms(3) q Suc.prems unfolding flags_documented_def by (metis snd_conv)
    ultimately show ?case using Suc.IH[OF Suc.prems] q Suc.prems by auto
  qed simp
  have "\<forall>ev \<in> set ?posted. fd_ok (ev_fd ev) \<and> 0 \<le> sint (ev_events ev)"
    using events[OF refl, of k "a_log a"] by (simp add: assms(5))
  then have "\<forall>ev \<in> set ?posted. to_int (arg_of ev) = ev_fd ev \<and> sint (arg_of ev) div 2 ^ 32 = sint (ev_events ev)"
    using arg_of_decodes by blast
  then have "map (\<lambda>w. (to_int w, sint w div 2 ^ 32)) (map arg_of ?posted) =
      map (\<lambda>ev. (ev_fd ev, sint (ev_events ev))) ?posted" by simp
  then show ?thesis using run log1 by auto
qed

text \<open>A kernel whose selector always reports the client 7.\<close>

definition busy_kernel :: kernel where
  "busy_kernel log c = (case c of
      Epoll_Wait fd n t \<Rightarrow> if 1 \<le> n then (1, [\<lparr>ev_events = EPOLLIN, ev_fd = 7\<rparr>]) else (-1, [])
    | _ \<Rightarrow> (0, []))"

lemma busy_documented: "epoll_documented busy_kernel" "flags_documented busy_kernel"
  by (auto simp: epoll_documented_def flags_documented_def busy_kernel_def fd_ok_def EPOLLIN_def)

lemma processor_posts_events_witness:
  "\<exists>s stop posts s'. endpoint_create demo_kernel 8080 False ep0 = Inr s \<and>
     client_event_processor busy_kernel stop s = Some (Inr (posts, s')) \<and>
     map (\<lambda>w. (to_int w, sint w div 2 ^ 32)) posts = [(7, 1)]"
proof -
  obtain s a where s: "endpoint_create demo_kernel 8080 False ep0 = Inr s"
    "ep_rep (\<lambda>_. None) (3, 4, 5, 6) (2 * Suc 1 + 3) s a"
    by (rule demo_create) simp
  let ?stop = "\<lambda>log :: syscall list. length (a_log a) + Suc 1 \<le> length log"
  have stop: "\<forall>log. length (a_log a) + Suc 1 \<le> length log \<longrightarrow> ?stop log" by simp
  have k: "busy_kernel (a_log a) (Epoll_Wait 5 1 1000) = (1, [\<lparr>ev_events = EPOLLIN, ev_fd = 7\<rparr>])"
    by (simp add: busy_kernel_def)
  have "posted_events busy_kernel ?stop 5 1 (1, [\<lparr>ev_events = EPOLLIN, ev_fd = 7\<rparr>]) (a_log a @ [Epoll_Wait 5 1 1000]) =
      [\<lparr>ev_events = EPOLLIN, ev_fd = 7\<rparr>]" by simp
  moreover obtain posts s' where "client_event_processor busy_kernel ?stop s = Some (Inr (posts, s'))"
    "map (\<lambda>w. (to_int w, sint w div 2 ^ 32)) posts = map (\<lambda>ev. (ev_fd ev, sint (ev_events ev)))
      (posted_events busy_kernel ?stop 5 1 (1, [\<lparr>ev_events = EPOLLIN, ev_fd = 7\<rparr>]) (a_log a @ [Epoll_Wait 5 1 1000]))"
    using processor_posts_events[OF s(2) busy_documented stop k] by auto
  moreover have "sint EPOLLIN = 1" by (simp add: EPOLLIN_def)
  ultimately show ?thesis using s(1) by (metis (no_types, lifting) epoll_event.select_convs list.simps(8,9))
qed

end
