(* ===== verification/Tcp_Server.thy ===== *)
theory Tcp_Server
  imports Server_Loops
begin

text \<open>
  The two TCP servers as a whole, \<open>apps/Run_calc_srv.c\<close> and \<open>apps/Run_unix_srv.c\<close>: \<open>main\<close>, its two threads
  and the workers of its pool as actors that take turns in any order.  A turn is one call of a function of
  the endpoint, one test of a loop, one post, the taking of a job, or one stage of a job: the \<open>recv\<close> of its
  handler, what the handler computes and sends, or the disconnection that may follow.  Between the stages of
  a job anything else may happen; in particular its descriptor may be closed and given to a new client.  The
  state is the endpoint, the flag \<open>stop\<close>, where each thread is, the jobs that wait and the jobs in the hands
  of a worker, each with its stage.  A run follows a schedule, so a theorem for every schedule covers every
  interleaving of such turns.  The two programs share \<open>main\<close> and \<open>client_event_processor\<close>; they differ in
  where \<open>accept_proc\<close> closes the clients that hung up (before its loop, or in every round) and in the handler
  of a request.
\<close>

section \<open>The model\<close>

datatype accept_pc =
    Accept_Hungups "int list"
  | Accept_Call "int list"
  | Accept_Test "int list" int
  | Accept_Returned

datatype event_pc =
    Event_Wait "int list" "int list"
  | Event_Test "int list" "int list" int
  | Event_Post "int list" "int list" int
  | Event_Returned

datatype main_pc = Main_Input | Main_Join_Accept | Main_Join_Event | Main_Join_Pool | Main_Close | Main_Returned

text \<open>A job in the hands of a worker: before it has looked at its argument, holding what it has received (the
  descriptor, the result of \<open>recv\<close> and the buffer), or about to disconnect its client.\<close>

datatype job_pc =
    Job_Start "64 word"
  | Job_Received int int "char list"
  | Job_Disconnect int

record tcp_server =
  sv_ep :: ep
  sv_stop :: bool
  sv_accept :: accept_pc
  sv_event :: event_pc
  sv_jobs :: "64 word list"
  sv_running :: "job_pc list"
  sv_main :: main_pc

text \<open>The start of \<open>main\<close>: the endpoint is created and the two threads are started.  \<open>pc\<close> is where
  \<open>accept_proc\<close> begins: with \<open>endpoint_close_hungups\<close> in the calculator, with \<open>endpoint_accept\<close> in the HTTP
  server.\<close>

definition tcp_start :: "accept_pc \<Rightarrow> kernel \<Rightarrow> ep \<Rightarrow> tcp_server result" where
  "tcp_start pc kern e =
    rbind (endpoint_create kern 7999 False e) (\<lambda>e.
    Inr \<lparr>sv_ep = e, sv_stop = False, sv_accept = pc, sv_event = Event_Wait [-1] [-1],
      sv_jobs = [], sv_running = [], sv_main = Main_Input\<rparr>)"

definition server_start :: "kernel \<Rightarrow> ep \<Rightarrow> tcp_server result" where
  "server_start = tcp_start (Accept_Hungups [-1])"

definition html_server_start :: "kernel \<Rightarrow> ep \<Rightarrow> tcp_server result" where
  "html_server_start = tcp_start (Accept_Call [-1])"

text \<open>A turn of \<open>accept_proc\<close>; \<open>again\<close> is where the body of the loop begins.\<close>

definition accept_turn :: "(int list \<Rightarrow> accept_pc) \<Rightarrow> kernel \<Rightarrow> tcp_server \<Rightarrow> tcp_server result" where
  "accept_turn again kern sv = (case sv_accept sv of
      Accept_Hungups new_client \<Rightarrow>
        rbind (endpoint_close_hungups kern (sv_ep sv)) (\<lambda>(_, e).
        Inr (sv\<lparr>sv_ep := e, sv_accept := Accept_Call new_client\<rparr>))
    | Accept_Call new_client \<Rightarrow>
        rbind (endpoint_accept kern new_client 1 1000 accept_flags (sv_ep sv)) (\<lambda>(count, new_client, e).
        Inr (sv\<lparr>sv_ep := e, sv_accept := Accept_Test new_client count\<rparr>))
    | Accept_Test new_client count \<Rightarrow>
        Inr (sv\<lparr>sv_accept := if count > -1 \<and> \<not> sv_stop sv then again new_client else Accept_Returned\<rparr>)
    | Accept_Returned \<Rightarrow> Inr sv)"

definition accept_thread :: "kernel \<Rightarrow> tcp_server \<Rightarrow> tcp_server result" where
  "accept_thread = accept_turn Accept_Call"

definition html_accept_thread :: "kernel \<Rightarrow> tcp_server \<Rightarrow> tcp_server result" where
  "html_accept_thread = accept_turn Accept_Hungups"

definition event_thread :: "kernel \<Rightarrow> tcp_server \<Rightarrow> tcp_server result" where
  "event_thread kern sv = (case sv_event sv of
      Event_Wait client event_flag \<Rightarrow>
        rbind (endpoint_wait_event kern client event_flag 1 1000 (sv_ep sv)) (\<lambda>(count, client, event_flag, e).
        Inr (sv\<lparr>sv_ep := e, sv_event := Event_Test client event_flag count\<rparr>))
    | Event_Test client event_flag count \<Rightarrow>
        Inr (sv\<lparr>sv_event := if count > -1 \<and> \<not> sv_stop sv then Event_Post client event_flag count else Event_Returned\<rparr>)
    | Event_Post client event_flag count \<Rightarrow>
        rbind (event_arg (client ! 0) (event_flag ! 0)) (\<lambda>arg.
        Inr (sv\<lparr>sv_jobs := (if count > 0 then sv_jobs sv @ [arg] else sv_jobs sv), sv_event := Event_Wait client event_flag\<rparr>))
    | Event_Returned \<Rightarrow> Inr sv)"

text \<open>The pool enters as the contract that \<open>Pool_Contract\<close> shows of it: five workers take the jobs in the order
  in which they were posted.\<close>

definition worker_take :: "tcp_server \<Rightarrow> tcp_server result" where
  "worker_take sv = (case sv_jobs sv of
      [] \<Rightarrow> Inr sv
    | job # jobs \<Rightarrow>
        if length (sv_running sv) < 5 \<and> sv_main sv \<noteq> Main_Close \<and> sv_main sv \<noteq> Main_Returned
        then Inr (sv\<lparr>sv_jobs := jobs, sv_running := sv_running sv @ [Job_Start job]\<rparr>) else Inr sv)"

text \<open>A handler of requests in its two stages: the call of \<open>recv\<close>, and the rest up to its \<open>send\<close>, which says
  whether it is to end by disconnecting the client.\<close>

record handler =
  h_receive :: "int \<Rightarrow> ep \<Rightarrow> (int \<times> char list \<times> ep) result"
  h_respond :: "int \<Rightarrow> int \<Rightarrow> char list \<Rightarrow> ep \<Rightarrow> (bool \<times> ep) result"

text \<open>The function \<open>client_event\<close> that is posted, one stage at a time.\<close>

definition job_turn :: "handler \<Rightarrow> kernel \<Rightarrow> job_pc \<Rightarrow> ep \<Rightarrow> (job_pc option \<times> ep) result" where
  "job_turn h kern job e = (case job of
      Job_Start args \<Rightarrow>
        (let client = to_int args; event_flag = sint args div 2 ^ 32
         in if (word_of_int event_flag :: 32 word) AND EPOLLIN \<noteq> 0
            then rbind (h_receive h client e) (\<lambda>(n, buf, e). Inr (Some (Job_Received client n buf), e))
            else Inr (None, e))
    | Job_Received client n buf \<Rightarrow>
        rbind (h_respond h client n buf e) (\<lambda>(gone, e). Inr (if gone then Some (Job_Disconnect client) else None, e))
    | Job_Disconnect client \<Rightarrow>
        rbind (endpoint_disconnect_client kern client e) (\<lambda>(_, e). Inr (None, e)))"

definition worker_perform :: "handler \<Rightarrow> kernel \<Rightarrow> nat \<Rightarrow> tcp_server \<Rightarrow> tcp_server result" where
  "worker_perform h kern i sv =
    (if i < length (sv_running sv)
     then rbind (job_turn h kern (sv_running sv ! i) (sv_ep sv)) (\<lambda>(next, e).
          Inr (sv\<lparr>sv_ep := e, sv_running := take i (sv_running sv) @
            (case next of None \<Rightarrow> [] | Some job \<Rightarrow> [job]) @ drop (Suc i) (sv_running sv)\<rparr>))
     else Inr sv)"

text \<open>The rest of \<open>main\<close>; a join waits by leaving the state as it is.  \<open>w_join\<close> returns when no worker has a
  job in its hands, whether or not jobs are left in the queue; that it may also wait for ever, because a
  worker misses its signal (\<open>Pool_Properties\<close>), is covered by the schedules in which \<open>main\<close> does not move any
  more.  The memory, the mutex and the condition variable of the pool are not part of this state: they are
  modelled in \<open>Worker_Pool\<close>, and \<open>Pool_Memory\<close> shows what \<open>w_join\<close> leaves of them.\<close>

definition main_thread :: "kernel \<Rightarrow> tcp_server \<Rightarrow> tcp_server result" where
  "main_thread kern sv = (case sv_main sv of
      Main_Input \<Rightarrow> Inr (sv\<lparr>sv_stop := True, sv_main := Main_Join_Accept\<rparr>)
    | Main_Join_Accept \<Rightarrow> Inr (if sv_accept sv = Accept_Returned then sv\<lparr>sv_main := Main_Join_Event\<rparr> else sv)
    | Main_Join_Event \<Rightarrow> Inr (if sv_event sv = Event_Returned then sv\<lparr>sv_main := Main_Join_Pool\<rparr> else sv)
    | Main_Join_Pool \<Rightarrow> Inr (if sv_running sv = [] then sv\<lparr>sv_main := Main_Close\<rparr> else sv)
    | Main_Close \<Rightarrow> rbind (endpoint_close kern (sv_ep sv)) (\<lambda>e. Inr (sv\<lparr>sv_ep := e, sv_main := Main_Returned\<rparr>))
    | Main_Returned \<Rightarrow> Inr sv)"

datatype actor = Acceptor | Processor | Taker | Performer nat | Main_Thread

fun tcp_step :: "(tcp_server \<Rightarrow> tcp_server result) \<Rightarrow> kernel \<Rightarrow> handler \<Rightarrow> actor \<Rightarrow> tcp_server \<Rightarrow> tcp_server result" where
  "tcp_step accept kern h Acceptor sv = accept sv"
| "tcp_step accept kern h Processor sv = event_thread kern sv"
| "tcp_step accept kern h Taker sv = worker_take sv"
| "tcp_step accept kern h (Performer i) sv = worker_perform h kern i sv"
| "tcp_step accept kern h Main_Thread sv = main_thread kern sv"

section \<open>The two servers\<close>

text \<open>The handlers of the two programs.  \<open>junk\<close> is what the stack of a worker holds in the arrays of the
  handler, which may be anything.\<close>

definition calc_handler :: "kernel \<Rightarrow> net \<Rightarrow> (syscall list \<Rightarrow> char list) \<Rightarrow> handler" where
  "calc_handler kern net junk = \<lparr>
    h_receive = (\<lambda>fd e. calc_receive kern net (junk (e_log e)) fd e),
    h_respond = (\<lambda>fd n buf e. calc_respond kern fd n buf e)\<rparr>"

record html_frame =
  hf_in_buf :: "char list"
  hf_out_buf :: "char list"
  hf_header_buffer :: "http_header list"
  hf_response :: "char list"

definition html_handler :: "kernel \<Rightarrow> net \<Rightarrow> (syscall list \<Rightarrow> html_frame) \<Rightarrow> handler" where
  "html_handler kern net junk = \<lparr>
    h_receive = (\<lambda>fd e. html_receive kern net (hf_in_buf (junk (e_log e))) fd e),
    h_respond = (\<lambda>fd n buf e. let f = junk (e_log e) in
      rbind (html_respond kern (hf_out_buf f) (hf_header_buffer f) (hf_response f) fd n buf e) (\<lambda>e. Inr (False, e)))\<rparr>"

text \<open>A run of a server under a schedule, which says who moves next.\<close>

definition server_step :: "kernel \<Rightarrow> net \<Rightarrow> (syscall list \<Rightarrow> char list) \<Rightarrow> actor \<Rightarrow> tcp_server \<Rightarrow> tcp_server result" where
  "server_step kern net junk = tcp_step (accept_thread kern) kern (calc_handler kern net junk)"

definition server_run :: "kernel \<Rightarrow> net \<Rightarrow> (syscall list \<Rightarrow> char list) \<Rightarrow> actor list \<Rightarrow> ep \<Rightarrow> tcp_server result" where
  "server_run kern net junk sched e = rbind (server_start kern e) (rfold (server_step kern net junk) sched)"

definition html_server_step :: "kernel \<Rightarrow> net \<Rightarrow> (syscall list \<Rightarrow> html_frame) \<Rightarrow> actor \<Rightarrow> tcp_server \<Rightarrow> tcp_server result" where
  "html_server_step kern net junk = tcp_step (html_accept_thread kern) kern (html_handler kern net junk)"

definition html_server_run :: "kernel \<Rightarrow> net \<Rightarrow> (syscall list \<Rightarrow> html_frame) \<Rightarrow> actor list \<Rightarrow> ep \<Rightarrow> tcp_server result" where
  "html_server_run kern net junk sched e = rbind (html_server_start kern e) (rfold (html_server_step kern net junk) sched)"

section \<open>The stages of a job make up its function\<close>

text \<open>A job that is performed without interruption: \<open>turns\<close> stages from \<open>job\<close> on, or fewer when it is done.\<close>

fun job_stages :: "handler \<Rightarrow> kernel \<Rightarrow> nat \<Rightarrow> job_pc option \<Rightarrow> ep \<Rightarrow> (job_pc option \<times> ep) result" where
  "job_stages h kern 0 job e = Inr (job, e)"
| "job_stages h kern (Suc k) None e = Inr (None, e)"
| "job_stages h kern (Suc k) (Some job) e = rbind (job_turn h kern job e) (\<lambda>(next, e). job_stages h kern k next e)"

lemma job_stages_None [simp]: "job_stages h kern k None e = Inr (None, e)"
  by (cases k) simp_all

lemma three_stages:
  "job_stages h kern 3 (Some (Job_Start args)) e =
    (if (word_of_int (sint args div 2 ^ 32) :: 32 word) AND EPOLLIN \<noteq> 0
     then rbind (h_receive h (to_int args) e) (\<lambda>(n, buf, e).
          rbind (h_respond h (to_int args) n buf e) (\<lambda>(gone, e).
          if gone then rbind (endpoint_disconnect_client kern (to_int args) e) (\<lambda>(_, e). Inr (None, e)) else Inr (None, e)))
     else Inr (None, e))"
proof -
  have "rbind (if b then Inr x else Inr y) k = (if b then k x else k y)" for b x y and k :: "'b \<Rightarrow> 'c result" by simp
  then show ?thesis
    by (auto simp: numeral_3_eq_3 job_turn_def Let_def rbind_assoc case_prod_unfold if_distrib[of Some] intro!: rbind_same)
qed

text \<open>The stages of a job make up its function: performed without interruption, the three stages of a
  job are \<open>client_event\<close> of the program, in the calculator and in the HTTP server, with every fault and every
  system call, whatever the arrays of the handlers hold at entry.\<close>

theorem job_stages_are_client_event:
  "job_stages (calc_handler kern net junk) kern 3 (Some (Job_Start args)) e =
    rbind (client_event kern net (junk (e_log e)) args e) (\<lambda>e. Inr (None, e)) \<and>
   job_stages (html_handler kern net (\<lambda>_. f)) kern 3 (Some (Job_Start args)) e =
    rbind (html_client_event kern net (hf_in_buf f) (hf_out_buf f) (hf_header_buffer f) (hf_response f) args e)
      (\<lambda>e. Inr (None, e))"
proof
  have cond: "rbind (if b then r else r') k = (if b then rbind r k else rbind r' k)" for b r r' and k :: "ep \<Rightarrow> (job_pc option \<times> ep) result"
    by simp
  show "job_stages (calc_handler kern net junk) kern 3 (Some (Job_Start args)) e =
    rbind (client_event kern net (junk (e_log e)) args e) (\<lambda>e. Inr (None, e))"
    unfolding three_stages client_event_def calc_request_parts Let_def cond
    by (simp add: calc_handler_def rbind_assoc case_prod_unfold cond cong: if_cong)
  show "job_stages (html_handler kern net (\<lambda>_. f)) kern 3 (Some (Job_Start args)) e =
    rbind (html_client_event kern net (hf_in_buf f) (hf_out_buf f) (hf_header_buffer f) (hf_response f) args e)
      (\<lambda>e. Inr (None, e))"
    unfolding three_stages html_client_event_def html_answer_parts Let_def cond
    by (simp add: html_handler_def rbind_assoc case_prod_unfold Let_def)
qed

end
