(* ===== verification/Server_Invariants.thy ===== *)
theory Server_Invariants
  imports Tcp_Server
begin

text \<open>
  The invariant of the two TCP servers: where the threads are when \<open>main\<close> has come to some point, what
  is known of the events and jobs on their way, the representation of the endpoint, and the facts of
  the system calls made so far, namely that every answer answers a request that was received before, that
  every request was answered or is in the hands of a worker, and that every accepted client is connected or
  closed.  What a server needs of the handler of its requests is the locale \<open>tcp_service\<close>; under its laws
  every turn of every actor keeps the invariant or ends in a named fault, and \<open>guarded_steps\<close> lifts this to
  schedules.
\<close>

section \<open>Traces\<close>

text \<open>The selector has reported that the client has sent something.\<close>

definition reported :: "kernel \<Rightarrow> syscall list \<Rightarrow> int \<Rightarrow> bool" where
  "reported kern log fd \<longleftrightarrow> (\<exists>l sel l' ev. log = l @ Epoll_Wait sel 1 1000 # l' \<and>
    ev \<in> set (snd (kern l (Epoll_Wait sel 1 1000))) \<and> ev_fd ev = fd \<and> ev_events ev AND EPOLLIN \<noteq> 0)"

text \<open>The rules of a service: how many bytes it asks for; \<open>sr_got l fd r buf\<close> when a \<open>recv\<close> from \<open>fd\<close> after the
  calls \<open>l\<close> may have returned \<open>r\<close> and left \<open>buf\<close>; \<open>sr_ok l fd msg\<close> when \<open>msg\<close> answers what it has received.\<close>

record service_rule =
  sr_size :: int
  sr_got :: "syscall list \<Rightarrow> int \<Rightarrow> int \<Rightarrow> char list \<Rightarrow> bool"
  sr_ok :: "syscall list \<Rightarrow> int \<Rightarrow> string \<Rightarrow> bool"

text \<open>A call is in place after the calls \<open>log\<close>: a client is only read from after it was reported, and what is
  sent answers a request that was received from the same descriptor before.\<close>

fun call_ok :: "kernel \<Rightarrow> service_rule \<Rightarrow> syscall list \<Rightarrow> syscall \<Rightarrow> bool" where
  "call_ok kern R log (Recv fd n) = (n = sr_size R \<and> reported kern log fd)"
| "call_ok kern R log (Send fd msg) = (\<exists>l l'. log = l @ Recv fd (sr_size R) # l' \<and>
    0 < fst (kern l (Recv fd (sr_size R))) \<and> sr_ok R l fd msg)"
| "call_ok kern R log _ = True"

definition log_ok :: "kernel \<Rightarrow> service_rule \<Rightarrow> syscall list \<Rightarrow> bool" where
  "log_ok kern R log \<longleftrightarrow> (\<forall>l c l'. log = l @ c # l' \<longrightarrow> call_ok kern R l c)"

text \<open>Every client that was accepted is in \<open>A\<close> or has been closed since.\<close>

definition all_kept :: "kernel \<Rightarrow> int \<Rightarrow> int set \<Rightarrow> syscall list \<Rightarrow> bool" where
  "all_kept kern srv A log \<longleftrightarrow> (\<forall>l l'. log = l @ Accept srv # l' \<longrightarrow> fst (kern l (Accept srv)) \<noteq> -1 \<longrightarrow>
    fst (kern l (Accept srv)) \<in> A \<or> Close (fst (kern l (Accept srv))) \<in> set l')"

text \<open>Every request that was received has been answered since, or a worker of \<open>J\<close> holds it.\<close>

definition all_answered :: "kernel \<Rightarrow> service_rule \<Rightarrow> job_pc list \<Rightarrow> syscall list \<Rightarrow> bool" where
  "all_answered kern R J log \<longleftrightarrow> (\<forall>l fd n l'. log = l @ Recv fd n # l' \<longrightarrow> 0 < fst (kern l (Recv fd n)) \<longrightarrow>
    (\<exists>msg. Send fd msg \<in> set l' \<and> sr_ok R l fd msg) \<or>
    (\<exists>r buf. 0 < r \<and> Job_Received fd r buf \<in> set J \<and> sr_got R l fd r buf))"

text \<open>How many requests were received from a descriptor, how many answers were sent to it, and how many
  requests from it the workers hold.\<close>

definition received_from :: "kernel \<Rightarrow> int \<Rightarrow> syscall list \<Rightarrow> nat" where
  "received_from kern fd log = length (filter (\<lambda>i.
    case log ! i of Recv fd' n \<Rightarrow> fd' = fd \<and> 0 < fst (kern (take i log) (Recv fd' n)) | _ \<Rightarrow> False) [0..<length log])"

definition sent_to :: "int \<Rightarrow> syscall list \<Rightarrow> nat" where
  "sent_to fd log = length (filter (\<lambda>c. case c of Send fd' msg \<Rightarrow> fd' = fd | _ \<Rightarrow> False) log)"

fun holds :: "int \<Rightarrow> job_pc \<Rightarrow> bool" where
  "holds fd (Job_Received fd' r buf) = (fd' = fd \<and> 0 < r)"
| "holds fd _ = False"

definition in_hand :: "int \<Rightarrow> job_pc list \<Rightarrow> nat" where
  "in_hand fd J = length (filter (holds fd) J)"

definition balanced :: "kernel \<Rightarrow> job_pc list \<Rightarrow> syscall list \<Rightarrow> bool" where
  "balanced kern J log \<longleftrightarrow> (\<forall>fd. received_from kern fd log = sent_to fd log + in_hand fd J)"

lemma log_ok_Nil [simp]: "log_ok kern R []" and all_kept_Nil [simp]: "all_kept kern srv A []"
  and all_answered_Nil [simp]: "all_answered kern R J []"
  by (simp_all add: log_ok_def all_kept_def all_answered_def)

lemma log_ok_snoc [simp]: "log_ok kern R (log @ [c]) \<longleftrightarrow> log_ok kern R log \<and> call_ok kern R log c"
  unfolding log_ok_def snoc_split by blast

lemma counts_Nil [simp]: "received_from kern fd [] = 0" "sent_to fd [] = 0" "in_hand fd [] = 0"
  by (simp_all add: received_from_def sent_to_def in_hand_def)

lemma in_hand_append [simp]: "in_hand fd (xs @ ys) = in_hand fd xs + in_hand fd ys"
  and in_hand_Cons [simp]: "in_hand fd (j # ys) = (if holds fd j then 1 else 0) + in_hand fd ys"
  by (simp_all add: in_hand_def)

lemma sent_to_snoc [simp]: "sent_to fd (log @ [c]) = sent_to fd log + (case c of Send fd' msg \<Rightarrow> if fd' = fd then 1 else 0 | _ \<Rightarrow> 0)"
  by (simp add: sent_to_def split: syscall.split)

lemma received_from_snoc [simp]:
  "received_from kern fd (log @ [c]) = received_from kern fd log +
    (case c of Recv fd' n \<Rightarrow> if fd' = fd \<and> 0 < fst (kern log (Recv fd' n)) then 1 else 0 | _ \<Rightarrow> 0)"
proof -
  let ?P = "\<lambda>log i. case log ! i of Recv fd' n \<Rightarrow> fd' = fd \<and> 0 < fst (kern (take i log) (Recv fd' n)) | _ \<Rightarrow> False"
  have "filter (?P (log @ [c])) [0..<length log] = filter (?P log) [0..<length log]"
    by (rule filter_cong) (simp_all add: nth_append split: syscall.split)
  then show ?thesis by (simp add: received_from_def split: syscall.split)
qed

lemma all_kept_snoc:
  assumes "all_kept kern srv A log" and "c = Accept srv \<longrightarrow> fst (kern log (Accept srv)) \<in> insert (-1) A'"
    and "\<forall>fd \<in> A. fd \<in> A' \<or> c = Close fd"
  shows "all_kept kern srv A' (log @ [c])"
  unfolding all_kept_def snoc_split
proof (intro allI impI)
  fix l l'
  assume split: "l' = [] \<and> Accept srv = c \<and> l = log \<or> (\<exists>k. l' = k @ [c] \<and> log = l @ Accept srv # k)"
    and ok: "fst (kern l (Accept srv)) \<noteq> -1"
  from split show "fst (kern l (Accept srv)) \<in> A' \<or> Close (fst (kern l (Accept srv))) \<in> set l'"
  proof (elim disjE exE)
    assume "l' = [] \<and> Accept srv = c \<and> l = log"
    then show ?thesis using assms(2) ok by auto
  next
    fix k assume k: "l' = k @ [c] \<and> log = l @ Accept srv # k"
    then have "fst (kern l (Accept srv)) \<in> A \<or> Close (fst (kern l (Accept srv))) \<in> set k"
      using assms(1) ok unfolding all_kept_def by blast
    then show ?thesis using k assms(3) by auto
  qed
qed

lemma all_answered_snoc:
  assumes "all_answered kern R J log"
    and "\<And>fd n. c = Recv fd n \<Longrightarrow> 0 < fst (kern log (Recv fd n)) \<Longrightarrow> \<exists>r buf. 0 < r \<and> Job_Received fd r buf \<in> set J' \<and> sr_got R log fd r buf"
    and "\<And>l fd r buf. 0 < r \<Longrightarrow> Job_Received fd r buf \<in> set J \<Longrightarrow> sr_got R l fd r buf \<Longrightarrow>
      Job_Received fd r buf \<in> set J' \<or> (\<exists>msg. c = Send fd msg \<and> sr_ok R l fd msg)"
  shows "all_answered kern R J' (log @ [c])"
  unfolding all_answered_def snoc_split
proof (intro allI impI)
  fix l fd n l'
  assume split: "l' = [] \<and> Recv fd n = c \<and> l = log \<or> (\<exists>k. l' = k @ [c] \<and> log = l @ Recv fd n # k)"
    and some: "0 < fst (kern l (Recv fd n))"
  from split show "(\<exists>msg. Send fd msg \<in> set l' \<and> sr_ok R l fd msg) \<or>
    (\<exists>r buf. 0 < r \<and> Job_Received fd r buf \<in> set J' \<and> sr_got R l fd r buf)"
  proof (elim disjE exE)
    fix k assume k: "l' = k @ [c] \<and> log = l @ Recv fd n # k"
    then consider msg where "Send fd msg \<in> set k" "sr_ok R l fd msg"
      | r buf where "0 < r" "Job_Received fd r buf \<in> set J" "sr_got R l fd r buf"
      using assms(1) some unfolding all_answered_def by blast
    then show ?thesis
    proof cases
      case 1
      then show ?thesis using k by auto
    next
      case 2
      from assms(3)[OF this] show ?thesis using 2 k by auto
    qed
  qed (use assms(2) some in auto)
qed

lemma all_answered_mono:
  assumes "all_answered kern R J log" and "\<And>fd r buf. 0 < r \<Longrightarrow> Job_Received fd r buf \<in> set J \<Longrightarrow> Job_Received fd r buf \<in> set J'"
  shows "all_answered kern R J' log"
  unfolding all_answered_def
proof (intro allI impI)
  fix l fd n l'
  assume "log = l @ Recv fd n # l'" "0 < fst (kern l (Recv fd n))"
  then have "(\<exists>msg. Send fd msg \<in> set l' \<and> sr_ok R l fd msg) \<or> (\<exists>r buf. 0 < r \<and> Job_Received fd r buf \<in> set J \<and> sr_got R l fd r buf)"
    using assms(1) unfolding all_answered_def by blast
  then show "(\<exists>msg. Send fd msg \<in> set l' \<and> sr_ok R l fd msg) \<or>
      (\<exists>r buf. 0 < r \<and> Job_Received fd r buf \<in> set J' \<and> sr_got R l fd r buf)" using assms(2) by blast
qed

fun quiet :: "syscall \<Rightarrow> bool" where
  "quiet (Recv fd n) = False"
| "quiet (Send fd msg) = False"
| "quiet (Accept fd) = False"
| "quiet _ = True"

lemma quiet_call_ok: "quiet c \<Longrightarrow> call_ok kern R log c" and quiet_accept: "quiet c \<Longrightarrow> c \<noteq> Accept fd"
  and quiet_recv: "quiet c \<Longrightarrow> c \<noteq> Recv fd n"
  and quiet_counts: "quiet c \<Longrightarrow> received_from kern fd (log @ [c]) = received_from kern fd log"
    "quiet c \<Longrightarrow> sent_to fd (log @ [c]) = sent_to fd log"
  by (cases c; simp)+

text \<open>\<open>trace_ok\<close>: the invariants of the calls made so far.\<close>

definition trace_ok :: "kernel \<Rightarrow> service_rule \<Rightarrow> int \<Rightarrow> int set \<Rightarrow> job_pc list \<Rightarrow> syscall list \<Rightarrow> bool" where
  "trace_ok kern R srv A J log \<longleftrightarrow> log_ok kern R log \<and> all_kept kern srv A log \<and> all_answered kern R J log \<and> balanced kern J log"

lemma trace_Nil: "trace_ok kern R srv A [] []"
  by (simp add: trace_ok_def balanced_def)

lemma trace_quiet:
  assumes "trace_ok kern R srv A J log" and "\<forall>c \<in> set cs. quiet c" and "\<forall>fd \<in> A. fd \<in> A' \<or> Close fd \<in> set cs"
  shows "trace_ok kern R srv A' J (log @ cs)"
  using assms(2,3)
proof (induction cs arbitrary: A' rule: rev_induct)
  case Nil
  then have "A \<subseteq> A'" by auto
  then show ?case using assms(1) by (auto simp: trace_ok_def all_kept_def)
next
  case (snoc c cs)
  let ?B = "A' \<union> {fd. c = Close fd}"
  have "trace_ok kern R srv ?B J (log @ cs)" by (rule snoc.IH) (use snoc.prems in auto)
  then have old: "log_ok kern R (log @ cs)" "all_kept kern srv ?B (log @ cs)" "all_answered kern R J (log @ cs)"
    "balanced kern J (log @ cs)" by (simp_all add: trace_ok_def)
  have "quiet c" using snoc.prems(1) by simp
  note c = quiet_call_ok[OF this] quiet_accept[OF this] quiet_recv[OF this] quiet_counts[OF this]
  have "log_ok kern R ((log @ cs) @ [c])" unfolding log_ok_snoc using old(1) c(1) by blast
  moreover have "all_kept kern srv A' ((log @ cs) @ [c])"
    by (rule all_kept_snoc[OF old(2)]) (use c(2) in auto)
  moreover have "all_answered kern R J ((log @ cs) @ [c])"
    by (rule all_answered_snoc[OF old(3)]) (use c(3) in auto)
  moreover have "balanced kern J ((log @ cs) @ [c])" unfolding balanced_def c(4,5) using old(4) by (simp add: balanced_def)
  ultimately show ?case by (simp add: trace_ok_def)
qed

lemma trace_accept:
  assumes "trace_ok kern R srv A J log"
  shows "trace_ok kern R srv (A \<union> ({fst (kern log (Accept srv))} - {-1})) J (log @ [Accept srv])"
proof -
  have "all_kept kern srv (A \<union> ({fst (kern log (Accept srv))} - {-1})) (log @ [Accept srv])"
    by (rule all_kept_snoc[of kern srv A]) (use assms in \<open>auto simp: trace_ok_def\<close>)
  moreover have "all_answered kern R J (log @ [Accept srv])"
    by (rule all_answered_snoc[of kern R J]) (use assms in \<open>auto simp: trace_ok_def\<close>)
  ultimately show ?thesis using assms by (simp add: trace_ok_def balanced_def)
qed

text \<open>Jobs that hold no request do not matter.\<close>

lemma trace_jobs:
  assumes "trace_ok kern R srv A (xs @ j # ys) log" and "\<And>fd. \<not> holds fd j" and "\<And>fd k. k \<in> set js \<Longrightarrow> \<not> holds fd k"
  shows "trace_ok kern R srv A (xs @ js @ ys) log"
proof -
  have js: "in_hand fd js = 0" for fd using assms(3) by (simp add: in_hand_def filter_empty_conv)
  have "0 < r \<Longrightarrow> j \<noteq> Job_Received fd r buf" for fd r buf using assms(2)[of fd] by auto
  then have "all_answered kern R (xs @ js @ ys) log"
    using all_answered_mono[of kern R "xs @ j # ys" log "xs @ js @ ys"] assms(1) by (auto simp: trace_ok_def)
  moreover have "balanced kern (xs @ js @ ys) log" using assms(1,2) js by (simp add: trace_ok_def balanced_def)
  ultimately show ?thesis using assms(1) by (simp add: trace_ok_def)
qed

lemma trace_take:
  assumes "trace_ok kern R srv A J log"
  shows "trace_ok kern R srv A (J @ [Job_Start w]) log"
  using assms all_answered_mono[of kern R J log "J @ [Job_Start w]"] by (auto simp: trace_ok_def balanced_def)

text \<open>A worker receives.\<close>

lemma trace_recv:
  assumes "trace_ok kern R srv A (xs @ Job_Start w # ys) log" and "reported kern log fd"
    and "r = fst (kern log (Recv fd (sr_size R)))" and "sr_got R log fd r buf"
  shows "trace_ok kern R srv A (xs @ Job_Received fd r buf # ys) (log @ [Recv fd (sr_size R)])"
proof -
  have "all_answered kern R (xs @ Job_Received fd r buf # ys) (log @ [Recv fd (sr_size R)])"
    by (rule all_answered_snoc[of kern R "xs @ Job_Start w # ys"]) (use assms in \<open>auto simp: trace_ok_def\<close>)
  moreover have "all_kept kern srv A (log @ [Recv fd (sr_size R)])"
    by (rule all_kept_snoc[of kern srv A]) (use assms(1) in \<open>auto simp: trace_ok_def\<close>)
  moreover have "log_ok kern R (log @ [Recv fd (sr_size R)])" using assms(1,2) by (simp add: trace_ok_def)
  moreover have "balanced kern (xs @ Job_Received fd r buf # ys) (log @ [Recv fd (sr_size R)])"
    using assms(1,3) by (auto simp: trace_ok_def balanced_def)
  ultimately show ?thesis by (simp add: trace_ok_def)
qed

text \<open>A worker sends the answer to what it holds.\<close>

lemma trace_send:
  assumes "trace_ok kern R srv A (xs @ Job_Received fd r buf # ys) log" and "0 < r"
    and "log = l @ Recv fd (sr_size R) # l'" and "r = fst (kern l (Recv fd (sr_size R)))" and "sr_got R l fd r buf"
    and "\<forall>l. sr_got R l fd r buf \<longrightarrow> sr_ok R l fd msg" and "\<And>fd k. k \<in> set js \<Longrightarrow> \<not> holds fd k"
  shows "trace_ok kern R srv A (xs @ js @ ys) (log @ [Send fd msg])"
proof -
  have js: "in_hand fd js = 0" for fd using assms(7) by (simp add: in_hand_def filter_empty_conv)
  have "all_answered kern R (xs @ js @ ys) (log @ [Send fd msg])"
    by (rule all_answered_snoc[of kern R "xs @ Job_Received fd r buf # ys"]) (use assms(1,6) in \<open>auto simp: trace_ok_def\<close>)
  moreover have "all_kept kern srv A (log @ [Send fd msg])"
    by (rule all_kept_snoc[of kern srv A]) (use assms(1) in \<open>auto simp: trace_ok_def\<close>)
  moreover have "log_ok kern R (log @ [Send fd msg])"
    unfolding log_ok_snoc call_ok.simps using assms(1-6) by (auto simp: trace_ok_def)
  moreover have "balanced kern (xs @ js @ ys) (log @ [Send fd msg])"
    using assms(1,2) js by (auto simp: trace_ok_def balanced_def split: if_splits)
  ultimately show ?thesis by (simp add: trace_ok_def)
qed

lemma quiet_lists: "\<forall>c \<in> set (disc_calls sel fd). quiet c" "\<forall>c \<in> set (create_calls port v6 F flags). quiet c"
  by (auto simp: disc_calls_def create_calls_def server_calls_def split: prod.splits)

lemma quiet_disc: "\<forall>c \<in> set (concat (map (disc_calls sel) q)). quiet c"
  using quiet_lists(1) by auto

lemma closes_each: "fd \<in> set q \<Longrightarrow> Close fd \<in> set (concat (map (disc_calls sel) q))"
  by (auto simp: disc_calls_def)

lemma reported_append: "reported kern log fd \<Longrightarrow> reported kern (log @ cs) fd"
  unfolding reported_def by (metis append.assoc append_Cons)

lemma reported_now:
  "ev \<in> set (snd (kern log (Epoll_Wait sel 1 1000))) \<Longrightarrow> ev_events ev AND EPOLLIN \<noteq> 0 \<Longrightarrow>
    reported kern (log @ [Epoll_Wait sel 1 1000]) (ev_fd ev)"
  unfolding reported_def by blast

section \<open>The operations on a client book\<close>

lemma rep_accept:
  assumes "ep_rep m (srv, lis, sel, sht) (Suc n) s a" and "epoll_documented kern" and "accept_documented kern"
    and "length fds = 1" and "trace_ok kern R srv (a_clients a) J (a_log a)"
  shows "case endpoint_accept kern fds 1 t fl s of Inl e \<Rightarrow> e = Uninit_Read | Inr (c, fds', s') \<Rightarrow>
    length fds' = 1 \<and> (\<exists>a' cs. ep_rep m (srv, lis, sel, sht) n s' a' \<and> a_log a' = a_log a @ cs \<and>
      trace_ok kern R srv (a_clients a') J (a_log a'))"
proof -
  note f = rep_fds[OF assms(1)]
  obtain r evs where k: "kern (a_log a) (Epoll_Wait lis 1 t) = (r, evs)" by fastforce
  let ?w = "Epoll_Wait lis 1 t"
  let ?s = "s\<lparr>e_log := a_log a @ [?w]\<rparr>" and ?a = "a\<lparr>a_log := a_log a @ [?w]\<rparr>"
  have w: "ep_rep m (srv, lis, sel, sht) (Suc n) ?s ?a" using rep_call[OF assms(1), of "[?w]"] f by simp
  have tw: "trace_ok kern R srv (a_clients a) J (a_log a @ [?w])" using trace_quiet[OF assms(5), of "[?w]"] by simp
  show ?thesis
  proof (cases evs)
    case Nil
    then show ?thesis using k f by (simp add: endpoint_accept_def sys_def)
  next
    case (Cons ev rest)
    show ?thesis
    proof (cases "ev_events ev AND EPOLLHUP = 0")
      case False
      then have "endpoint_accept kern fds 1 t fl s = Inr (-1, fds, ?s)"
        using k f Cons by (simp add: endpoint_accept_def sys_def)
      then show ?thesis using assms(4) tw rep_mono[OF w, of n] by auto
    next
      case True
      have run: "endpoint_accept kern fds 1 t fl s = accept_loop kern fl fds 1 0 ?s"
        using k f Cons True by (simp add: endpoint_accept_def sys_def)
      let ?l = "a_log a @ [?w]"
      let ?fd = "fst (kern ?l (Accept srv))"
      let ?acc = "accepted kern srv sel fl 1 ?l"
      from rep_accept_loop[of m srv lis sel sht 1 n ?s ?a kern 1 0 fds fl] w assms(3,4) obtain s' where
        s': "accept_loop kern fl fds 1 0 ?s = Inr (int (length (fst ?acc)), fst ?acc @ drop (length (fst ?acc)) fds, s')"
        "ep_rep m (srv, lis, sel, sht) n s' (?a\<lparr>a_clients := a_clients a \<union> set (fst ?acc), a_log := snd ?acc\<rparr>)"
        by auto
      let ?c = "Epoll_Ctl sel EPOLL_CTL_ADD ?fd (Some \<lparr>ev_events = fl OR EPOLLRDHUP, ev_fd = ?fd\<rparr>)"
      have acc: "?acc = (if ?fd = -1 then ([], ?l @ [Accept srv]) else ([?fd], ?l @ [Accept srv, ?c]))"
        by (simp add: Let_def)
      have tr: "trace_ok kern R srv (a_clients a \<union> set (fst ?acc)) J (snd ?acc)"
        using trace_accept[OF tw] trace_quiet[OF trace_accept[OF tw], of "[?c]"] unfolding acc by auto
      have "\<exists>cs. snd ?acc = a_log a @ cs" unfolding acc by auto
      moreover have "length (fst ?acc @ drop (length (fst ?acc)) fds) = 1" using assms(4) unfolding acc by auto
      ultimately show ?thesis using run s' tr
        by (auto intro!: exI[of _ "?a\<lparr>a_clients := a_clients a \<union> set (fst ?acc), a_log := snd ?acc\<rparr>"] simp del: accepted.simps)
    qed
  qed
qed

section \<open>The invariant\<close>

definition job_ok :: "kernel \<Rightarrow> syscall list \<Rightarrow> 64 word \<Rightarrow> bool" where
  "job_ok kern log w \<longleftrightarrow> fd_ok (to_int w) \<and>
    ((word_of_int (sint w div 2 ^ 32) :: 32 word) AND EPOLLIN \<noteq> 0 \<longrightarrow> reported kern log (to_int w))"

definition event_ok :: "kernel \<Rightarrow> syscall list \<Rightarrow> int list \<Rightarrow> int list \<Rightarrow> int \<Rightarrow> bool" where
  "event_ok kern log client event_flag count \<longleftrightarrow> length client = 1 \<and> length event_flag = 1 \<and>
    (0 < count \<longrightarrow> fd_ok (client ! 0) \<and> 0 \<le> event_flag ! 0 \<and> event_flag ! 0 < 2 ^ 31 \<and>
      ((word_of_int (event_flag ! 0) :: 32 word) AND EPOLLIN \<noteq> 0 \<longrightarrow> reported kern log (client ! 0)))"

fun accept_pc_ok :: "accept_pc \<Rightarrow> bool" where
  "accept_pc_ok (Accept_Hungups new_client) = (length new_client = 1)"
| "accept_pc_ok (Accept_Call new_client) = (length new_client = 1)"
| "accept_pc_ok (Accept_Test new_client count) = (length new_client = 1)"
| "accept_pc_ok Accept_Returned = True"

fun event_pc_ok :: "kernel \<Rightarrow> syscall list \<Rightarrow> event_pc \<Rightarrow> bool" where
  "event_pc_ok kern log (Event_Wait client event_flag) = (length client = 1 \<and> length event_flag = 1)"
| "event_pc_ok kern log (Event_Test client event_flag count) = event_ok kern log client event_flag count"
| "event_pc_ok kern log (Event_Post client event_flag count) = event_ok kern log client event_flag count"
| "event_pc_ok kern log Event_Returned = True"

text \<open>The client that a job in hand is about, and what is known of the job.\<close>

fun job_client :: "job_pc \<Rightarrow> int" where
  "job_client (Job_Start w) = to_int w"
| "job_client (Job_Received fd r buf) = fd"
| "job_client (Job_Disconnect fd) = fd"

fun job_pc_ok :: "kernel \<Rightarrow> service_rule \<Rightarrow> syscall list \<Rightarrow> job_pc \<Rightarrow> bool" where
  "job_pc_ok kern R log (Job_Start w) = job_ok kern log w"
| "job_pc_ok kern R log (Job_Received fd r buf) = (fd_ok fd \<and> (\<exists>l l'. log = l @ Recv fd (sr_size R) # l' \<and>
    r = fst (kern l (Recv fd (sr_size R))) \<and> sr_got R l fd r buf))"
| "job_pc_ok kern R log (Job_Disconnect fd) = fd_ok fd"

text \<open>The types that the program relies on without stating them: the arrays of one element that the threads pass
  around keep that length, the integers that travel through the pool decode to descriptors, and no more
  jobs are in hand than there are workers.\<close>

definition well_typed :: "tcp_server \<Rightarrow> bool" where
  "well_typed sv \<longleftrightarrow> accept_pc_ok (sv_accept sv) \<and>
    (case sv_event sv of Event_Returned \<Rightarrow> True
      | Event_Wait client event_flag \<Rightarrow> length client = 1 \<and> length event_flag = 1
      | Event_Test client event_flag count \<Rightarrow> length client = 1 \<and> length event_flag = 1
      | Event_Post client event_flag count \<Rightarrow> length client = 1 \<and> length event_flag = 1) \<and>
    (\<forall>w \<in> set (sv_jobs sv). fd_ok (to_int w)) \<and> (\<forall>j \<in> set (sv_running sv). fd_ok (job_client j)) \<and> length (sv_running sv) \<le> 5"

text \<open>How far \<open>main\<close> is says which threads have returned.\<close>

definition phase_ok :: "tcp_server \<Rightarrow> bool" where
  "phase_ok sv \<longleftrightarrow>
    (sv_main sv \<noteq> Main_Input \<longrightarrow> sv_stop sv) \<and>
    (sv_main sv \<in> {Main_Join_Event, Main_Join_Pool, Main_Close, Main_Returned} \<longrightarrow> sv_accept sv = Accept_Returned) \<and>
    (sv_main sv \<in> {Main_Join_Pool, Main_Close, Main_Returned} \<longrightarrow> sv_event sv = Event_Returned) \<and>
    (sv_main sv \<in> {Main_Close, Main_Returned} \<longrightarrow> sv_running sv = []) \<and> length (sv_running sv) \<le> 5"

definition threads_ok :: "kernel \<Rightarrow> service_rule \<Rightarrow> tcp_server \<Rightarrow> bool" where
  "threads_ok kern R sv \<longleftrightarrow> phase_ok sv \<and> accept_pc_ok (sv_accept sv) \<and>
    event_pc_ok kern (e_log (sv_ep sv)) (sv_event sv) \<and>
    (\<forall>w \<in> set (sv_jobs sv). job_ok kern (e_log (sv_ep sv)) w) \<and>
    (\<forall>j \<in> set (sv_running sv). job_pc_ok kern R (e_log (sv_ep sv)) j)"

definition released :: "(ptr \<Rightarrow> cell list option) \<Rightarrow> int \<times> int \<times> int \<times> int \<Rightarrow> ep \<Rightarrow> bool" where
  "released m F e \<longleftrightarrow> mem (e_heap e) = m \<and> e_clients_lock e = Destroyed \<and> e_queue_lock e = Destroyed \<and>
    (\<exists>log clients. e_log e = log @ close_calls F clients)"

definition server_inv :: "kernel \<Rightarrow> service_rule \<Rightarrow> (ptr \<Rightarrow> cell list option) \<Rightarrow> int \<times> int \<times> int \<times> int \<Rightarrow> nat \<Rightarrow> tcp_server \<Rightarrow> bool" where
  "server_inv kern R m F n sv \<longleftrightarrow> threads_ok kern R sv \<and>
    (if sv_main sv = Main_Returned then released m F (sv_ep sv) \<and> trace_ok kern R (fst F) {} (sv_running sv) (e_log (sv_ep sv))
     else \<exists>a. ep_rep m F n (sv_ep sv) a \<and> trace_ok kern R (fst F) (a_clients a) (sv_running sv) (a_log a))"

text \<open>The documented behaviour of the system calls.\<close>

definition kernel_ok :: "kernel \<Rightarrow> bool" where
  "kernel_ok kern \<longleftrightarrow> accept_documented kern \<and> epoll_documented kern \<and> flags_documented kern"

text \<open>The faults of the threads.\<close>

definition thread_faults :: "fault set" where
  "thread_faults = {Uninit_Read, Shift_Range, Signed_Overflow}"

lemma job_ok_append: "job_ok kern log w \<Longrightarrow> job_ok kern (log @ cs) w"
  by (auto simp: job_ok_def reported_append)

lemma event_pc_ok_append: "event_pc_ok kern log pc \<Longrightarrow> event_pc_ok kern (log @ cs) pc"
  by (cases pc) (auto simp: event_ok_def reported_append)

lemma job_pc_ok_append: "job_pc_ok kern R log j \<Longrightarrow> job_pc_ok kern R (log @ cs) j"
proof (cases j)
  case (Job_Received fd r buf)
  assume "job_pc_ok kern R log j"
  then obtain l l' where l: "fd_ok fd" "log = l @ Recv fd (sr_size R) # l'" "r = fst (kern l (Recv fd (sr_size R)))" "sr_got R l fd r buf"
    using Job_Received by auto
  then have "log @ cs = l @ Recv fd (sr_size R) # (l' @ cs)" by simp
  then show ?thesis unfolding Job_Received job_pc_ok.simps using l(1,3,4) by blast
qed (auto simp: job_ok_append)

text \<open>A thread that moves leaves the others as they are, while the calls only grow.\<close>

lemma threads_ok_upd:
  assumes "threads_ok kern R sv" and "e_log e = e_log (sv_ep sv) @ cs"
  shows "accept_pc_ok pc \<Longrightarrow> sv_accept sv \<noteq> Accept_Returned \<Longrightarrow> threads_ok kern R (sv\<lparr>sv_ep := e, sv_accept := pc\<rparr>)"
    and "event_pc_ok kern (e_log e) epc \<Longrightarrow> sv_event sv \<noteq> Event_Returned \<Longrightarrow> threads_ok kern R (sv\<lparr>sv_ep := e, sv_event := epc\<rparr>)"
    and "xs @ j # ys = sv_running sv \<Longrightarrow> length js \<le> 1 \<Longrightarrow> \<forall>k \<in> set js. job_pc_ok kern R (e_log e) k \<Longrightarrow>
      threads_ok kern R (sv\<lparr>sv_ep := e, sv_running := xs @ js @ ys\<rparr>)"
proof -
  have t: "phase_ok sv" "accept_pc_ok (sv_accept sv)" "event_pc_ok kern (e_log e) (sv_event sv)"
    "\<forall>w \<in> set (sv_jobs sv). job_ok kern (e_log e) w" "\<forall>j \<in> set (sv_running sv). job_pc_ok kern R (e_log e) j"
    using assms by (simp_all add: threads_ok_def job_ok_append job_pc_ok_append event_pc_ok_append)
  show "accept_pc_ok pc \<Longrightarrow> sv_accept sv \<noteq> Accept_Returned \<Longrightarrow> threads_ok kern R (sv\<lparr>sv_ep := e, sv_accept := pc\<rparr>)"
    using t by (simp add: threads_ok_def phase_ok_def)
  show "event_pc_ok kern (e_log e) epc \<Longrightarrow> sv_event sv \<noteq> Event_Returned \<Longrightarrow> threads_ok kern R (sv\<lparr>sv_ep := e, sv_event := epc\<rparr>)"
    using t by (simp add: threads_ok_def phase_ok_def)
  assume J: "xs @ j # ys = sv_running sv" and js: "length js \<le> 1" "\<forall>k \<in> set js. job_pc_ok kern R (e_log e) k"
  have "\<forall>k \<in> set (xs @ js @ ys). job_pc_ok kern R (e_log e) k" using t(5) js(2) unfolding J[symmetric] by auto
  moreover have "sv_running sv \<noteq> []" "length (xs @ js @ ys) \<le> length (sv_running sv)" using js(1) unfolding J[symmetric] by simp_all
  ultimately show "threads_ok kern R (sv\<lparr>sv_ep := e, sv_running := xs @ js @ ys\<rparr>)"
    using t(1-4) unfolding threads_ok_def phase_ok_def by simp
qed

lemma server_inv_rep:
  assumes "server_inv kern R m F n sv" and "sv_main sv \<noteq> Main_Returned"
  obtains a where "threads_ok kern R sv" and "ep_rep m F n (sv_ep sv) a" and "e_log (sv_ep sv) = a_log a"
    and "trace_ok kern R (fst F) (a_clients a) (sv_running sv) (a_log a)"
  using assms that by (auto simp: server_inv_def ep_rep_def)

lemma server_inv_mono: "server_inv kern R m F n sv \<Longrightarrow> k \<le> n \<Longrightarrow> server_inv kern R m F k sv"
  using rep_mono by (fastforce simp: server_inv_def)

text \<open>A step of a thread on the endpoint.\<close>

lemma server_inv_step:
  assumes "threads_ok kern R sv'" and "sv_main sv' \<noteq> Main_Returned" and "ep_rep m F n (sv_ep sv') a"
    and "trace_ok kern R (fst F) (a_clients a) (sv_running sv') (a_log a)"
  shows "server_inv kern R m F n sv'"
  using assms by (auto simp: server_inv_def)

lemma main_returned_threads:
  assumes "threads_ok kern R sv" and "sv_main sv = Main_Returned"
  shows "sv_accept sv = Accept_Returned" and "sv_event sv = Event_Returned" and "sv_running sv = []"
  using assms by (auto simp: threads_ok_def phase_ok_def)

section \<open>Every step keeps the invariant\<close>

lemma accept_turn_ok:
  assumes "server_inv kern R m F (2 + n) sv" and "kernel_ok kern" and "again \<in> {Accept_Call, Accept_Hungups}"
  shows "case accept_turn again kern sv of Inl e \<Rightarrow> e \<in> thread_faults | Inr sv' \<Rightarrow> server_inv kern R m F n sv'"
proof (cases "sv_accept sv = Accept_Returned")
  case True
  then show ?thesis using server_inv_mono[OF assms(1), of n] by (simp add: accept_turn_def)
next
  case False
  obtain srv lis sel sht where F: "F = (srv, lis, sel, sht)" by (cases F)
  have run: "sv_main sv \<noteq> Main_Returned" using False main_returned_threads assms(1) by (auto simp: server_inv_def)
  obtain a where inv: "threads_ok kern R sv" "ep_rep m F (2 + n) (sv_ep sv) a" "e_log (sv_ep sv) = a_log a"
    "trace_ok kern R (fst F) (a_clients a) (sv_running sv) (a_log a)" by (rule server_inv_rep[OF assms(1) run])
  show ?thesis
  proof (cases "sv_accept sv")
    case (Accept_Hungups cl)
    then have len: "length cl = 1" using inv(1) by (simp add: threads_ok_def)
    let ?cs = "concat (map (disc_calls sel) (a_queue a))"
    from rep_hungups[OF rep_mono[OF inv(2), of n], of kern] F obtain s' where
      s': "endpoint_close_hungups kern (sv_ep sv) = Inr (int (length (a_queue a)), s')"
      "ep_rep m F n s' (a\<lparr>a_clients := a_clients a - set (a_queue a), a_queue := [], a_log := a_log a @ ?cs\<rparr>)" by auto
    have log: "e_log s' = e_log (sv_ep sv) @ ?cs" using s'(2) inv(3) by (simp add: ep_rep_def)
    have "trace_ok kern R (fst F) (a_clients a - set (a_queue a)) (sv_running sv) (a_log a @ ?cs)"
      by (rule trace_quiet[OF inv(4)]) (use quiet_disc closes_each in blast)+
    with threads_ok_upd(1)[OF inv(1) log, of "Accept_Call cl"] s' Accept_Hungups run len show ?thesis
      by (auto simp: accept_turn_def intro!: server_inv_step)
  next
    case (Accept_Call cl)
    then have len: "length cl = 1" using inv(1) by (simp add: threads_ok_def)
    have "ep_rep m (srv, lis, sel, sht) (Suc n) (sv_ep sv) a" by (rule rep_mono[OF inv(2)[unfolded F]]) simp
    from rep_accept[OF this _ _ len, of kern R "sv_running sv" 1000 accept_flags] assms(2) inv(4) F
    have acc: "case endpoint_accept kern cl 1 1000 accept_flags (sv_ep sv) of Inl e \<Rightarrow> e = Uninit_Read | Inr (c, fds', s') \<Rightarrow>
      length fds' = 1 \<and> (\<exists>a' cs. ep_rep m (srv, lis, sel, sht) n s' a' \<and> a_log a' = a_log a @ cs \<and>
        trace_ok kern R srv (a_clients a') (sv_running sv) (a_log a'))" by (simp add: kernel_ok_def)
    show ?thesis
    proof (cases "endpoint_accept kern cl 1 1000 accept_flags (sv_ep sv)")
      case (Inl e)
      then show ?thesis using acc Accept_Call by (simp add: accept_turn_def thread_faults_def)
    next
      case (Inr r)
      obtain c fds' s' where r: "r = (c, fds', s')" by (cases r)
      obtain a' cs where a': "length fds' = 1" "ep_rep m F n s' a'" "a_log a' = a_log a @ cs"
        "trace_ok kern R (fst F) (a_clients a') (sv_running sv) (a_log a')" using acc Inr r F by auto
      have log: "e_log s' = e_log (sv_ep sv) @ cs" using a'(2,3) inv(3) by (simp add: ep_rep_def)
      from threads_ok_upd(1)[OF inv(1) log, of "Accept_Test fds' c"] a' Accept_Call Inr r run show ?thesis
        by (auto simp: accept_turn_def intro!: server_inv_step)
    qed
  next
    case (Accept_Test cl c)
    from threads_ok_upd(1)[OF inv(1), of "sv_ep sv" "[]"] Accept_Test inv run assms(3) rep_mono[OF inv(2), of n] show ?thesis
      by (auto simp: accept_turn_def threads_ok_def phase_ok_def intro!: server_inv_step)
  qed (use False in simp)
qed

lemma event_thread_ok:
  assumes "server_inv kern R m F (2 + n) sv" and "kernel_ok kern"
  shows "case event_thread kern sv of Inl e \<Rightarrow> e \<in> thread_faults | Inr sv' \<Rightarrow> server_inv kern R m F n sv'"
proof (cases "sv_event sv = Event_Returned")
  case True
  then show ?thesis using server_inv_mono[OF assms(1), of n] by (simp add: event_thread_def)
next
  case False
  obtain srv lis sel sht where F: "F = (srv, lis, sel, sht)" by (cases F)
  have run: "sv_main sv \<noteq> Main_Returned" using False main_returned_threads assms(1) by (auto simp: server_inv_def)
  obtain a where inv: "threads_ok kern R sv" "ep_rep m F (2 + n) (sv_ep sv) a" "e_log (sv_ep sv) = a_log a"
    "trace_ok kern R (fst F) (a_clients a) (sv_running sv) (a_log a)" by (rule server_inv_rep[OF assms(1) run])
  have doc: "epoll_documented kern" "flags_documented kern" using assms(2) by (simp_all add: kernel_ok_def)
  show ?thesis
  proof (cases "sv_event sv")
    case (Event_Wait cl fl)
    then have len: "length cl = 1" "length fl = 1" using inv(1) by (simp_all add: threads_ok_def)
    let ?w = "Epoll_Wait sel 1 1000"
    obtain r evs where k: "kern (a_log a) ?w = (r, evs)" by fastforce
    then have k': "kern (a_log a) (Epoll_Wait sel (min 1 42) 1000) = (r, evs)" by simp
    note d = epoll_documentedD[OF doc(1) k]
    have "length evs \<le> 1" using d(1,2) by auto
    then have "ep_rep m (srv, lis, sel, sht) (2 * length evs + n) (sv_ep sv) a"
      by (intro rep_mono[OF inv(2)[unfolded F]]) simp
    from rep_wait_event[OF this doc(1) k', of cl fl] len obtain s' where
      s': "endpoint_wait_event kern cl fl 1 1000 (sv_ep sv) =
        Inr (r, map ev_fd evs @ drop (length evs) cl, map (\<lambda>ev. sint (ev_events ev)) evs @ drop (length evs) fl, s')"
      "ep_rep m F n s' (a\<lparr>a_queue := rev (hangups evs) @ a_queue a, a_log := a_log a @ [?w]\<rparr>)" using F by auto
    have log: "e_log s' = e_log (sv_ep sv) @ [?w]" using s'(2) inv(3) by (simp add: ep_rep_def)
    have tr: "trace_ok kern R (fst F) (a_clients a) (sv_running sv) (a_log a @ [?w])" by (rule trace_quiet[OF inv(4)]) simp_all
    have "event_ok kern (e_log s') (map ev_fd evs @ drop (length evs) cl) (map (\<lambda>ev. sint (ev_events ev)) evs @ drop (length evs) fl) r"
    proof (cases "0 < r")
      case True
      then have "r = 1" using d(2) by linarith
      then obtain ev where ev: "evs = [ev]" using d(1) by (cases evs) auto
      have "0 \<le> sint (ev_events ev)" using doc(2) k ev unfolding flags_documented_def by (metis list.set_intros(1) snd_conv)
      moreover have "ev_events ev AND EPOLLIN \<noteq> 0 \<Longrightarrow> reported kern (e_log s') (ev_fd ev)"
        using reported_now[of ev kern "a_log a" sel] k ev log inv(3) by simp
      ultimately show ?thesis using d(3) ev len event_bound[of "ev_events ev"] by (simp add: event_ok_def)
    next
      case False
      then show ?thesis using d(1) len by (simp add: event_ok_def)
    qed
    with threads_ok_upd(2)[OF inv(1) log, of "Event_Test (map ev_fd evs @ drop (length evs) cl)
        (map (\<lambda>ev. sint (ev_events ev)) evs @ drop (length evs) fl) r"] s' tr Event_Wait run show ?thesis
      by (auto simp: event_thread_def intro!: server_inv_step)
  next
    case (Event_Test cl fl c)
    from threads_ok_upd(2)[OF inv(1), of "sv_ep sv" "[]"] Event_Test inv run rep_mono[OF inv(2), of n] show ?thesis
      by (auto simp: event_thread_def threads_ok_def phase_ok_def intro!: server_inv_step)
  next
    case (Event_Post cl fl c)
    then have ev: "event_ok kern (a_log a) cl fl c" using inv(1,3) by (simp add: threads_ok_def)
    show ?thesis
    proof (cases "event_arg (cl ! 0) (fl ! 0)")
      case (Inl e)
      then have "e = Shift_Range \<or> e = Signed_Overflow"
        by (auto simp: event_arg_def chk_long_def rbind_def split: if_splits)
      then show ?thesis using Event_Post Inl by (auto simp: event_thread_def thread_faults_def)
    next
      case (Inr w)
      have w: "job_ok kern (a_log a) w" if "0 < c"
      proof -
        have "fd_ok (cl ! 0)" "0 \<le> fl ! 0" "fl ! 0 < 2 ^ 31" using ev that by (simp_all add: event_ok_def)
        note e = event_word[OF this]
        have "w = word_of_int (cl ! 0 + fl ! 0 * 2 ^ 32)" using e(1) Inr by simp
        then have "to_int w = cl ! 0" "sint w div 2 ^ 32 = fl ! 0" using e(2,3) by simp_all
        then show ?thesis using ev that by (simp add: event_ok_def job_ok_def)
      qed
      have "threads_ok kern R (sv\<lparr>sv_jobs := (if c > 0 then sv_jobs sv @ [w] else sv_jobs sv), sv_event := Event_Wait cl fl\<rparr>)"
        using inv(1,3) w ev Event_Post False by (auto simp: threads_ok_def phase_ok_def event_ok_def)
      then show ?thesis using Event_Post Inr run inv rep_mono[OF inv(2), of n]
        by (auto simp: event_thread_def intro!: server_inv_step)
    qed
  qed (use False in simp)
qed

lemma worker_take_ok:
  assumes "server_inv kern R m F (2 + n) sv"
  shows "case worker_take sv of Inl e \<Rightarrow> e \<in> thread_faults | Inr sv' \<Rightarrow> server_inv kern R m F n sv'"
proof -
  have idle: "server_inv kern R m F n sv" by (rule server_inv_mono[OF assms]) simp
  show ?thesis
  proof (cases "sv_jobs sv")
    case (Cons job jobs)
    show ?thesis
    proof (cases "length (sv_running sv) < 5 \<and> sv_main sv \<noteq> Main_Close \<and> sv_main sv \<noteq> Main_Returned")
      case True
      then have "server_inv kern R m F n (sv\<lparr>sv_jobs := jobs, sv_running := sv_running sv @ [Job_Start job]\<rparr>)"
        using idle Cons by (auto simp: server_inv_def threads_ok_def phase_ok_def trace_take)
      then show ?thesis using Cons True by (simp add: worker_take_def)
    next
      case False
      then have "worker_take sv = Inr sv" using Cons by (auto simp: worker_take_def)
      then show ?thesis using idle by simp
    qed
  qed (simp add: worker_take_def idle)
qed

lemma main_thread_ok:
  assumes "server_inv kern R m F (2 + n) sv"
  shows "case main_thread kern sv of Inl e \<Rightarrow> e \<in> thread_faults | Inr sv' \<Rightarrow> server_inv kern R m F n sv'"
proof -
  have idle: "server_inv kern R m F n sv" by (rule server_inv_mono[OF assms]) simp
  show ?thesis
  proof (cases "sv_main sv")
    case Main_Close
    then have run: "sv_main sv \<noteq> Main_Returned" by simp
    obtain a where inv: "threads_ok kern R sv" "ep_rep m F n (sv_ep sv) a" "e_log (sv_ep sv) = a_log a"
      "trace_ok kern R (fst F) (a_clients a) (sv_running sv) (a_log a)" by (rule server_inv_rep[OF idle run])
    let ?cl = "sorted_list_of_set (a_clients a)"
    from rep_close[OF inv(2), of kern] obtain s' where s': "endpoint_close kern (sv_ep sv) = Inr s'" "mem (e_heap s') = m"
      "e_log s' = a_log a @ close_calls F ?cl" "e_clients_lock s' = Destroyed" "e_queue_lock s' = Destroyed" by auto
    have "finite (a_clients a)" using inv(2) elems_are_clients(2) unfolding ep_rep_def ep_data_def by blast
    then have "fd \<in> a_clients a \<Longrightarrow> Close fd \<in> set (close_calls F ?cl)" for fd
      using closes_each[of fd ?cl "fst (snd (snd F))"] by (auto simp: close_calls_def split_beta)
    then have "trace_ok kern R (fst F) {} (sv_running sv) (e_log s')"
      unfolding s'(3) by (intro trace_quiet[OF inv(4)]) (use quiet_disc in \<open>auto simp: close_calls_def split: prod.splits\<close>)
    moreover have "threads_ok kern R (sv\<lparr>sv_ep := s', sv_main := Main_Returned\<rparr>)"
      using inv(1,3) s'(3) Main_Close by (auto simp: threads_ok_def phase_ok_def job_ok_append job_pc_ok_append event_pc_ok_append)
    moreover have "released m F s'" using s' by (auto simp: released_def)
    ultimately show ?thesis using Main_Close s'(1) by (simp add: main_thread_def server_inv_def)
  qed (use idle in \<open>auto simp: main_thread_def server_inv_def threads_ok_def phase_ok_def\<close>)
qed

lemma main_closes:
  assumes "server_inv kern R m F n sv" and "sv_main sv = Main_Close"
  shows "\<exists>e. main_thread kern sv = Inr (sv\<lparr>sv_ep := e, sv_main := Main_Returned\<rparr>)"
proof -
  have "sv_main sv \<noteq> Main_Returned" using assms(2) by simp
  then obtain a where "ep_rep m F n (sv_ep sv) a" by (rule server_inv_rep[OF assms(1)])
  then show ?thesis using rep_close[of m F n "sv_ep sv" a kern] assms(2) by (auto simp: main_thread_def)
qed

section \<open>What the servers need of their handler\<close>

text \<open>What a \<open>recv\<close> that behaves as documented leaves in a buffer.\<close>

lemma store_documented:
  assumes "recv_documented kern net" and "fst (kern log (Recv fd n)) = r" and "n \<le> int (length buf)"
  shows "\<exists>b. store_data buf r (net log fd) = Inr b \<and> length b = length buf \<and>
    (0 < r \<longrightarrow> r \<le> n \<and> int (length (net log fd)) = r \<and> take (nat r) b = net log fd)"
proof (cases "r \<le> 0")
  case False
  have "r = -1 \<or> 0 \<le> r \<and> r \<le> n \<and> int (length (net log fd)) = r"
    using assms(1,2) unfolding recv_documented_def by (metis insertI1)
  then have "r \<le> n" "int (length (net log fd)) = r" using False by auto
  then show ?thesis using False assms(3) by (auto simp: store_data_def)
qed (simp add: store_data_def)

text \<open>The laws of a handler, which hold in a \<open>world\<close> that behaves as documented.  The first stage makes one call of
  \<open>recv\<close> and keeps what it got; the second does nothing when there was no message and otherwise sends one
  message, which answers every request that would have left the same buffer.\<close>

locale tcp_service =
  fixes kern :: kernel
    and accept :: "tcp_server \<Rightarrow> tcp_server result"
    and h :: handler
    and world :: bool
    and faults :: "fault set"
    and R :: service_rule
  assumes accept_law: "\<exists>again \<in> {Accept_Call, Accept_Hungups}. accept = accept_turn again kern"
    and kernel_law: "world \<Longrightarrow> kernel_ok kern"
    and thread_faults_named: "thread_faults \<subseteq> faults"
    and receive_law: "world \<Longrightarrow> case h_receive h fd e of Inl f \<Rightarrow> f \<in> faults
      | Inr (r, buf, e') \<Rightarrow> e' = e\<lparr>e_log := e_log e @ [Recv fd (sr_size R)]\<rparr> \<and>
          r = fst (kern (e_log e) (Recv fd (sr_size R))) \<and> sr_got R (e_log e) fd r buf"
    and respond_law: "world \<Longrightarrow> sr_got R l fd r buf \<Longrightarrow> case h_respond h fd r buf e of Inl f \<Rightarrow> f \<in> faults
      | Inr (gone, e') \<Rightarrow> r \<le> 0 \<and> e' = e \<and> \<not> gone \<or>
          0 < r \<and> (\<exists>msg. e' = e\<lparr>e_log := e_log e @ [Send fd msg]\<rparr> \<and> (\<forall>l. sr_got R l fd r buf \<longrightarrow> sr_ok R l fd msg))"
begin

lemma perform_ok:
  assumes "server_inv kern R m F (2 + n) sv" and "world"
  shows "case worker_perform h kern i sv of Inl e \<Rightarrow> e \<in> faults | Inr sv' \<Rightarrow> server_inv kern R m F n sv'"
proof (cases "i < length (sv_running sv)")
  case False
  then show ?thesis using server_inv_mono[OF assms(1), of n] by (simp add: worker_perform_def)
next
  case True
  then have run: "sv_main sv \<noteq> Main_Returned" using main_returned_threads(3)[of kern R sv] assms(1) by (auto simp: server_inv_def)
  obtain a where inv: "threads_ok kern R sv" "ep_rep m F (2 + n) (sv_ep sv) a" "e_log (sv_ep sv) = a_log a"
    "trace_ok kern R (fst F) (a_clients a) (sv_running sv) (a_log a)" by (rule server_inv_rep[OF assms(1) run])
  let ?e = "sv_ep sv" and ?log = "a_log a"
  define xs ys where "xs = take i (sv_running sv)" and "ys = drop (Suc i) (sv_running sv)"
  define j where "j = sv_running sv ! i"
  have J: "xs @ j # ys = sv_running sv" using True unfolding xs_def ys_def j_def by (rule id_take_nth_drop [symmetric])
  have step: "worker_perform h kern i sv = rbind (job_turn h kern j ?e) (\<lambda>(next, e). Inr (sv\<lparr>sv_ep := e,
      sv_running := xs @ (case next of None \<Rightarrow> [] | Some k \<Rightarrow> [k]) @ ys\<rparr>))"
    using True by (simp add: worker_perform_def xs_def ys_def j_def)
  have job: "job_pc_ok kern R ?log j" using inv(1,3) True by (simp add: threads_ok_def j_def)
  note tr = inv(4)[folded J]
  have rep: "ep_rep m F n ?e a" "ep_rep m F (Suc n) ?e a" by (rule rep_mono[OF inv(2)]; simp)+
  have finish: "server_inv kern R m F n (sv\<lparr>sv_ep := e, sv_running := xs @ js @ ys\<rparr>)"
    if "ep_rep m F n e a'" "a_log a' = ?log @ cs" "trace_ok kern R (fst F) (a_clients a') (xs @ js @ ys) (a_log a')"
      and "length js \<le> 1" "\<forall>k \<in> set js. job_pc_ok kern R (?log @ cs) k" for e a' cs js
    using threads_ok_upd(3)[OF inv(1) _ J that(4), of e cs] that run inv(3) by (auto simp: ep_rep_def intro!: server_inv_step)
  show ?thesis
  proof (cases j)
    case (Job_Start w)
    let ?fd = "to_int w"
    show ?thesis
    proof (cases "(word_of_int (sint w div 2 ^ 32) :: 32 word) AND EPOLLIN = 0")
      case True
      have "trace_ok kern R (fst F) (a_clients a) (xs @ [] @ ys) ?log" by (rule trace_jobs[OF tr]) (simp_all add: Job_Start)
      then show ?thesis using finish[of ?e a "[]" "[]"] rep(1) Job_Start True step by (simp add: job_turn_def)
    next
      case False
      have fd: "fd_ok ?fd" "reported kern ?log ?fd" using job False Job_Start by (simp_all add: job_ok_def)
      have turn: "job_turn h kern j ?e = rbind (h_receive h ?fd ?e) (\<lambda>(r, buf, e). Inr (Some (Job_Received ?fd r buf), e))"
        using False Job_Start by (simp add: job_turn_def Let_def)
      show ?thesis
      proof (cases "h_receive h ?fd ?e")
        case (Inl f)
        then show ?thesis using receive_law[OF assms(2), where fd = ?fd and e = ?e] turn step by simp
      next
        case (Inr q)
        obtain r buf e' where q: "q = (r, buf, e')" by (cases q)
        have r: "e' = ?e\<lparr>e_log := ?log @ [Recv ?fd (sr_size R)]\<rparr>" "r = fst (kern ?log (Recv ?fd (sr_size R)))" "sr_got R ?log ?fd r buf"
          using receive_law[OF assms(2), where fd = ?fd and e = ?e] unfolding Inr q inv(3) sum.case prod.case by blast+
        have "trace_ok kern R (fst F) (a_clients a) (xs @ [Job_Received ?fd r buf] @ ys) (?log @ [Recv ?fd (sr_size R)])"
          using trace_recv[OF _ fd(2) r(2,3)] tr Job_Start by simp
        moreover have "job_pc_ok kern R (?log @ [Recv ?fd (sr_size R)]) (Job_Received ?fd r buf)" using fd(1) r(2,3) by auto
        ultimately have "server_inv kern R m F n (sv\<lparr>sv_ep := e', sv_running := xs @ [Job_Received ?fd r buf] @ ys\<rparr>)"
          using rep_call[OF rep(1), of "[Recv ?fd (sr_size R)]"] r(1) inv(3)
          by (intro finish[where a' = "a\<lparr>a_log := ?log @ [Recv ?fd (sr_size R)]\<rparr>" and cs = "[Recv ?fd (sr_size R)]"]) simp_all
        then show ?thesis using step turn Inr q by simp
      qed
    qed
  next
    case (Job_Received fd r buf)
    then obtain l l' where got: "fd_ok fd" "?log = l @ Recv fd (sr_size R) # l'" "r = fst (kern l (Recv fd (sr_size R)))"
      "sr_got R l fd r buf" using job by auto
    note law = respond_law[OF assms(2) got(4), where e = ?e]
    have turn: "job_turn h kern j ?e = rbind (h_respond h fd r buf ?e) (\<lambda>(gone, e). Inr (if gone then Some (Job_Disconnect fd) else None, e))"
      using Job_Received by (simp add: job_turn_def)
    show ?thesis
    proof (cases "h_respond h fd r buf ?e")
      case (Inl f)
      then show ?thesis using law turn step by simp
    next
      case (Inr q)
      obtain gone e' where q: "q = (gone, e')" by (cases q)
      let ?js = "if gone then [Job_Disconnect fd] else []"
      have res: "worker_perform h kern i sv = Inr (sv\<lparr>sv_ep := e', sv_running := xs @ ?js @ ys\<rparr>)"
        using step turn Inr q by simp
      have js: "length ?js \<le> 1" "\<forall>k \<in> set ?js. job_pc_ok kern R (?log @ cs) k" "k \<in> set ?js \<Longrightarrow> \<not> holds fd' k" for cs k fd'
        using got(1) by (simp_all split: if_splits)
      consider "r \<le> 0" "e' = ?e" | msg where "0 < r" "e' = ?e\<lparr>e_log := ?log @ [Send fd msg]\<rparr>" "\<forall>l. sr_got R l fd r buf \<longrightarrow> sr_ok R l fd msg"
        using law Inr q inv(3) by auto
      then have "server_inv kern R m F n (sv\<lparr>sv_ep := e', sv_running := xs @ ?js @ ys\<rparr>)"
      proof cases
        case 1
        have "trace_ok kern R (fst F) (a_clients a) (xs @ ?js @ ys) ?log"
          by (rule trace_jobs[OF tr _ js(3)]) (use 1(1) Job_Received in simp_all)
        then show ?thesis using rep(1) 1(2) js(1) js(2)[of "[]"]
          by (intro finish[where a' = a and cs = "[]"]) simp_all
      next
        case (2 msg)
        have "trace_ok kern R (fst F) (a_clients a) (xs @ ?js @ ys) (?log @ [Send fd msg])"
          by (rule trace_send[OF tr[unfolded Job_Received] 2(1) got(2-4) 2(3) js(3)])
        then show ?thesis using rep_call[OF rep(1), of "[Send fd msg]"] 2(2) inv(3) js(1) js(2)[of "[Send fd msg]"]
          by (intro finish[where a' = "a\<lparr>a_log := ?log @ [Send fd msg]\<rparr>" and cs = "[Send fd msg]"]) simp_all
      qed
      then show ?thesis using res by simp
    qed
  next
    case (Job_Disconnect fd)
    let ?cs = "disc_calls (fst (snd (snd F))) fd"
    have "fd_ok fd" using job Job_Disconnect by simp
    from rep_disconnect[OF rep(2) this, of kern] obtain e' where e': "endpoint_disconnect_client kern fd ?e = Inr (0, e')"
      "ep_rep m F n e' (a\<lparr>a_clients := a_clients a - {fd}, a_log := ?log @ ?cs\<rparr>)" by auto
    have "trace_ok kern R (fst F) (a_clients a) (xs @ [] @ ys) ?log"
      by (rule trace_jobs[OF tr]) (simp_all add: Job_Disconnect)
    then have "trace_ok kern R (fst F) (a_clients a - {fd}) (xs @ [] @ ys) (?log @ ?cs)"
      by (rule trace_quiet) (use quiet_lists(1) in \<open>auto simp: disc_calls_def\<close>)
    then have "server_inv kern R m F n (sv\<lparr>sv_ep := e', sv_running := xs @ [] @ ys\<rparr>)"
      using e'(2) by (intro finish[where a' = "a\<lparr>a_clients := a_clients a - {fd}, a_log := ?log @ ?cs\<rparr>" and cs = ?cs]) simp_all
    then show ?thesis using step e'(1) Job_Disconnect by (simp add: job_turn_def)
  qed
qed

lemma turn_ok:
  assumes "server_inv kern R m F (2 + n) sv" and "world"
  shows "case tcp_step accept kern h p sv of Inl e \<Rightarrow> e \<in> faults | Inr sv' \<Rightarrow> server_inv kern R m F n sv'"
proof -
  note k = kernel_law[OF assms(2)]
  obtain again where again: "again \<in> {Accept_Call, Accept_Hungups}" "accept = accept_turn again kern" using accept_law by blast
  show ?thesis
  proof (cases p)
    case Acceptor
    then show ?thesis using accept_turn_ok[OF assms(1) k again(1)] again(2) thread_faults_named by (auto split: sum.splits)
  next
    case Processor
    then show ?thesis using event_thread_ok[OF assms(1) k] thread_faults_named by (auto split: sum.splits)
  next
    case Taker
    then show ?thesis using worker_take_ok[OF assms(1)] thread_faults_named by (auto split: sum.splits)
  next
    case (Performer i)
    then show ?thesis using perform_ok[OF assms] by simp
  next
    case Main_Thread
    then show ?thesis using main_thread_ok[OF assms(1)] thread_faults_named by (auto split: sum.splits)
  qed
qed

end

sublocale tcp_service \<subseteq> guarded_steps "\<lambda>n sv. world \<and> server_inv kern R m F n sv" "tcp_step accept kern h" 2 faults
  for m F
proof
  fix n sv p
  assume inv: "world \<and> server_inv kern R m F (2 + n) sv"
  then show "case tcp_step accept kern h p sv of Inl e \<Rightarrow> e \<in> faults | Inr sv' \<Rightarrow> world \<and> server_inv kern R m F n sv'"
    using turn_ok[of m F n sv p] by (cases "tcp_step accept kern h p sv") simp_all
qed

section \<open>Runs\<close>

text \<open>A server that starts with \<open>tcp_start\<close> and follows a schedule.\<close>

context tcp_service begin

lemma run_inv:
  assumes "world" and "ample (Suc (2 * length sched)) (e_heap e)" and "2 * length sched < 2 ^ 31"
    and "e_log e = []" and "accept_pc_ok pc"
  shows "\<exists>sv0. tcp_start pc kern e = Inr sv0 \<and>
    (case rbind (tcp_start pc kern e) (rfold (tcp_step accept kern h) sched) of
      Inl f \<Rightarrow> f \<in> faults
    | Inr sv \<Rightarrow> server_inv kern R (mem (e_heap e)) (ep_fds (sv_ep sv0)) 0 sv)"
proof -
  from rep_create[OF assms(2,3), of kern 7999 False] obtain s flags where s:
    "endpoint_create kern 7999 False e = Inr s" "e_log s = create_calls 7999 False (ep_fds s) flags"
    "ep_rep (mem (e_heap e)) (ep_fds s) (2 * length sched) s \<lparr>a_clients = {}, a_queue = [], a_log = e_log s\<rparr>"
    using assms(4) by auto
  let ?sv = "\<lparr>sv_ep = s, sv_stop = False, sv_accept = pc, sv_event = Event_Wait [-1] [-1],
      sv_jobs = [], sv_running = [], sv_main = Main_Input\<rparr>"
  have start: "tcp_start pc kern e = Inr ?sv" using s(1) by (simp add: tcp_start_def)
  have "trace_ok kern R (fst (ep_fds s)) {} [] ([] @ e_log s)"
    unfolding s(2) by (rule trace_quiet[OF trace_Nil, of _ "{}"]) (use quiet_lists(2) in simp_all)
  then have "server_inv kern R (mem (e_heap e)) (ep_fds s) (2 * length sched + 0) ?sv"
    using s(3) assms(5) by (auto simp: server_inv_def threads_ok_def phase_ok_def)
  then have "case rfold (tcp_step accept kern h) sched ?sv of Inl f \<Rightarrow> f \<in> faults
      | Inr sv \<Rightarrow> server_inv kern R (mem (e_heap e)) (ep_fds s) 0 sv"
    using run_ok[of "mem (e_heap e)" "ep_fds s" sched 0 ?sv] assms(1)
    by (simp split: sum.splits)
  then show ?thesis using start by (simp split: sum.splits)
qed

lemma run_inr:
  assumes "world" and "ample (Suc (2 * length sched)) (e_heap e)" and "2 * length sched < 2 ^ 31"
    and "e_log e = []" and "accept_pc_ok pc"
    and "rbind (tcp_start pc kern e) (rfold (tcp_step accept kern h) sched) = Inr sv"
  obtains sv0 A where "tcp_start pc kern e = Inr sv0"
    and "server_inv kern R (mem (e_heap e)) (ep_fds (sv_ep sv0)) 0 sv"
    and "trace_ok kern R (e_srv_fd (sv_ep sv0)) A (sv_running sv) (e_log (sv_ep sv))"
    and "sv_main sv = Main_Returned \<longrightarrow> A = {}"
proof -
  obtain sv0 where sv0: "tcp_start pc kern e = Inr sv0"
    "server_inv kern R (mem (e_heap e)) (ep_fds (sv_ep sv0)) 0 sv"
    using run_inv[OF assms(1-5)] assms(6) by auto
  have "\<exists>A. trace_ok kern R (e_srv_fd (sv_ep sv0)) A (sv_running sv) (e_log (sv_ep sv)) \<and> (sv_main sv = Main_Returned \<longrightarrow> A = {})"
    using sv0(2) by (auto simp: server_inv_def ep_fds_def ep_rep_def split: if_splits)
  then show thesis using that[OF sv0] by blast
qed

lemma job_pc_client: "job_pc_ok kern R log j \<Longrightarrow> fd_ok (job_client j)"
  by (cases j) (auto simp: job_ok_def)

lemma run_well_typed:
  assumes "world" and "ample (Suc (2 * length sched)) (e_heap e)" and "2 * length sched < 2 ^ 31"
    and "e_log e = []" and "accept_pc_ok pc"
    and "rbind (tcp_start pc kern e) (rfold (tcp_step accept kern h) sched) = Inr sv"
  shows "well_typed sv"
proof -
  obtain sv0 A where "tcp_start pc kern e = Inr sv0" and inv: "server_inv kern R (mem (e_heap e)) (ep_fds (sv_ep sv0)) 0 sv"
    and "trace_ok kern R (e_srv_fd (sv_ep sv0)) A (sv_running sv) (e_log (sv_ep sv))" and "sv_main sv = Main_Returned \<longrightarrow> A = {}"
    by (rule run_inr[OF assms])
  then have t: "threads_ok kern R sv" by (simp add: server_inv_def)
  then have "\<forall>j \<in> set (sv_running sv). fd_ok (job_client j)" using job_pc_client by (auto simp: threads_ok_def)
  moreover have "\<forall>w \<in> set (sv_jobs sv). fd_ok (to_int w)" using t by (simp add: threads_ok_def job_ok_def)
  moreover have "accept_pc_ok (sv_accept sv)" "event_pc_ok kern (e_log (sv_ep sv)) (sv_event sv)" "length (sv_running sv) \<le> 5"
    using t by (simp_all add: threads_ok_def phase_ok_def)
  ultimately show ?thesis by (cases "sv_event sv") (simp_all add: well_typed_def event_ok_def)
qed

lemma run_replies:
  assumes "world" and "ample (Suc (2 * length sched)) (e_heap e)" and "2 * length sched < 2 ^ 31"
    and "e_log e = []" and "accept_pc_ok pc"
    and "rbind (tcp_start pc kern e) (rfold (tcp_step accept kern h) sched) = Inr sv"
  shows "(\<forall>l fd msg l'. e_log (sv_ep sv) = l @ Send fd msg # l' \<longrightarrow>
      (\<exists>k k'. l = k @ Recv fd (sr_size R) # k' \<and> reported kern k fd \<and> 0 < fst (kern k (Recv fd (sr_size R))) \<and> sr_ok R k fd msg)) \<and>
    (\<forall>l fd n l'. e_log (sv_ep sv) = l @ Recv fd n # l' \<and> 0 < fst (kern l (Recv fd n)) \<longrightarrow>
      (\<exists>msg. Send fd msg \<in> set l' \<and> sr_ok R l fd msg) \<or>
      (\<exists>r buf. 0 < r \<and> Job_Received fd r buf \<in> set (sv_running sv) \<and> sr_got R l fd r buf)) \<and>
    (\<forall>fd. received_from kern fd (e_log (sv_ep sv)) = sent_to fd (e_log (sv_ep sv)) + in_hand fd (sv_running sv))"
proof -
  obtain sv0 A where "tcp_start pc kern e = Inr sv0" "server_inv kern R (mem (e_heap e)) (ep_fds (sv_ep sv0)) 0 sv"
    and t: "trace_ok kern R (e_srv_fd (sv_ep sv0)) A (sv_running sv) (e_log (sv_ep sv))" and "sv_main sv = Main_Returned \<longrightarrow> A = {}"
    by (rule run_inr[OF assms])
  then have good: "log_ok kern R (e_log (sv_ep sv))" "all_answered kern R (sv_running sv) (e_log (sv_ep sv))"
    "balanced kern (sv_running sv) (e_log (sv_ep sv))" by (simp_all add: trace_ok_def)
  have "\<exists>k k'. l = k @ Recv fd (sr_size R) # k' \<and> reported kern k fd \<and> 0 < fst (kern k (Recv fd (sr_size R))) \<and> sr_ok R k fd msg"
    if log: "e_log (sv_ep sv) = l @ Send fd msg # l'" for l fd msg l'
  proof -
    have "call_ok kern R l (Send fd msg)" using good(1) log unfolding log_ok_def by blast
    then obtain k k' where k: "l = k @ Recv fd (sr_size R) # k'" "0 < fst (kern k (Recv fd (sr_size R)))" "sr_ok R k fd msg" by auto
    have "e_log (sv_ep sv) = k @ Recv fd (sr_size R) # (k' @ Send fd msg # l')" using log k(1) by simp
    then have "call_ok kern R k (Recv fd (sr_size R))" using good(1) unfolding log_ok_def by blast
    then show ?thesis using k by auto
  qed
  then show ?thesis using good(2,3) unfolding all_answered_def balanced_def by blast
qed

lemma run_shutdown:
  assumes "world" and "ample (Suc (2 * length sched)) (e_heap e)" and "2 * length sched < 2 ^ 31"
    and "e_log e = []" and "accept_pc_ok pc"
    and "rbind (tcp_start pc kern e) (rfold (tcp_step accept kern h) sched) = Inr sv" and "sv_main sv = Main_Returned"
  shows "\<exists>sv0 log clients. tcp_start pc kern e = Inr sv0 \<and> sv_accept sv = Accept_Returned \<and> sv_event sv = Event_Returned \<and>
    sv_running sv = [] \<and> mem (e_heap (sv_ep sv)) = mem (e_heap e) \<and>
    e_clients_lock (sv_ep sv) = Destroyed \<and> e_queue_lock (sv_ep sv) = Destroyed \<and>
    e_log (sv_ep sv) = log @ close_calls (ep_fds (sv_ep sv0)) clients \<and>
    (\<forall>l l'. e_log (sv_ep sv) = l @ Accept (e_srv_fd (sv_ep sv0)) # l' \<and> fst (kern l (Accept (e_srv_fd (sv_ep sv0)))) \<noteq> -1 \<longrightarrow>
      Close (fst (kern l (Accept (e_srv_fd (sv_ep sv0))))) \<in> set l')"
proof -
  obtain sv0 A where s: "tcp_start pc kern e = Inr sv0" "server_inv kern R (mem (e_heap e)) (ep_fds (sv_ep sv0)) 0 sv"
    "trace_ok kern R (e_srv_fd (sv_ep sv0)) A (sv_running sv) (e_log (sv_ep sv))" "sv_main sv = Main_Returned \<longrightarrow> A = {}"
    by (rule run_inr[OF assms(1-6)])
  have "all_kept kern (e_srv_fd (sv_ep sv0)) {} (e_log (sv_ep sv))" using s(3,4) assms(7) by (simp add: trace_ok_def)
  then have "\<forall>l l'. e_log (sv_ep sv) = l @ Accept (e_srv_fd (sv_ep sv0)) # l' \<and> fst (kern l (Accept (e_srv_fd (sv_ep sv0)))) \<noteq> -1 \<longrightarrow>
      Close (fst (kern l (Accept (e_srv_fd (sv_ep sv0))))) \<in> set l'" unfolding all_kept_def by blast
  moreover have "released (mem (e_heap e)) (ep_fds (sv_ep sv0)) (sv_ep sv)" "threads_ok kern R sv"
    using s(2) assms(7) by (simp_all add: server_inv_def)
  ultimately show ?thesis using s(1) main_returned_threads[of kern R sv] assms(7) unfolding released_def by blast
qed

end

end
