(* ===== verification/Server_Properties.thy ===== *)
theory Server_Properties
  imports Server_Invariants
begin

text \<open>
  The properties of the whole calculator server under every schedule, and a run in which it accepts a
  client, answers it and is shut down.
\<close>

section \<open>The handler of the calculator\<close>

text \<open>The world: the kernel and the network behave as documented; the last conjunct is the size of the
  buffer of \<open>calc_request\<close>.\<close>

definition world_ok :: "kernel \<Rightarrow> net \<Rightarrow> (syscall list \<Rightarrow> char list) \<Rightarrow> bool" where
  "world_ok kern net junk \<longleftrightarrow> kernel_ok kern \<and> recv_documented kern net \<and> (\<forall>log. length (junk log) = 128)"

definition server_faults :: "fault set" where
  "server_faults = {Uninit_Read, Shift_Range, Signed_Overflow, Div_By_Zero}"

text \<open>\<open>msg\<close> is the calculator's answer to \<open>data\<close>.\<close>

definition calc_answer :: "string \<Rightarrow> string \<Rightarrow> bool" where
  "calc_answer data msg \<longleftrightarrow> (if 127 \<le> length data then msg = ''Request too long. Goodbye'' @ [LF] else calc_reply data = Inr msg)"

definition calc_rule :: "net \<Rightarrow> service_rule" where
  "calc_rule net = \<lparr>sr_size = 128,
    sr_got = (\<lambda>l fd r buf. length buf = 128 \<and> (0 < r \<longrightarrow> r \<le> 128 \<and> int (length (net l fd)) = r \<and> take (nat r) buf = net l fd)),
    sr_ok = (\<lambda>l fd msg. calc_answer (net l fd) msg)\<rparr>"

lemma calc_rule_simps [simp]:
  "sr_size (calc_rule net) = 128" "sr_ok (calc_rule net) l fd msg = calc_answer (net l fd) msg"
  "sr_got (calc_rule net) l fd r buf \<longleftrightarrow>
    length buf = 128 \<and> (0 < r \<longrightarrow> r \<le> 128 \<and> int (length (net l fd)) = r \<and> take (nat r) buf = net l fd)"
  by (simp_all add: calc_rule_def)

lemma calc_receives:
  assumes "world_ok kern net junk"
  shows "case h_receive (calc_handler kern net junk) fd e of Inl f \<Rightarrow> f \<in> server_faults
    | Inr (r, buf, e') \<Rightarrow> e' = e\<lparr>e_log := e_log e @ [Recv fd (sr_size (calc_rule net))]\<rparr> \<and>
        r = fst (kern (e_log e) (Recv fd (sr_size (calc_rule net)))) \<and> sr_got (calc_rule net) (e_log e) fd r buf"
proof -
  obtain r evs where k: "kern (e_log e) (Recv fd 128) = (r, evs)" by fastforce
  have w: "recv_documented kern net" "length (junk (e_log e)) = 128" using assms by (simp_all add: world_ok_def)
  obtain b where "store_data (junk (e_log e)) r (net (e_log e) fd) = Inr b" "length b = 128"
    "0 < r \<longrightarrow> r \<le> 128 \<and> int (length (net (e_log e) fd)) = r \<and> take (nat r) b = net (e_log e) fd"
    using store_documented[OF w(1), of "e_log e" fd 128 r "junk (e_log e)"] k w(2) by auto
  then show ?thesis using k by (simp add: calc_handler_def calc_receive_def sys_def REQ_SIZE_MAX_def)
qed

lemma calc_responds:
  assumes "sr_got (calc_rule net) l fd r buf"
  shows "case h_respond (calc_handler kern net junk) fd r buf e of Inl f \<Rightarrow> f \<in> server_faults
    | Inr (gone, e') \<Rightarrow> r \<le> 0 \<and> e' = e \<and> \<not> gone \<or>
        0 < r \<and> (\<exists>msg. e' = e\<lparr>e_log := e_log e @ [Send fd msg]\<rparr> \<and>
          (\<forall>l. sr_got (calc_rule net) l fd r buf \<longrightarrow> sr_ok (calc_rule net) l fd msg))"
proof (cases "0 < r")
  case False
  then show ?thesis by (simp add: calc_handler_def calc_respond_def)
next
  case True
  let ?data = "take (nat r) buf"
  have got: "length buf = 128" "r \<le> 128" using assms True by simp_all
  then have data: "length ?data = nat r" "?data \<noteq> []" "length ?data \<le> 128" using True by auto
  have all: "(\<forall>l. sr_got (calc_rule net) l fd r buf \<longrightarrow> sr_ok (calc_rule net) l fd msg)" if "calc_answer ?data msg" for msg
  proof (intro allI impI)
    fix l assume "sr_got (calc_rule net) l fd r buf"
    then have "?data = net l fd" using True by simp
    then show "sr_ok (calc_rule net) l fd msg" using that by simp
  qed
  have "h_respond (calc_handler kern net junk) fd r buf e = calc_respond kern fd (int (length ?data)) buf e"
    using data(1) True by (simp add: calc_handler_def)
  also have "\<dots> = (if 127 \<le> length ?data then Inr (True, e\<lparr>e_log := e_log e @ [Send fd (''Request too long. Goodbye'' @ [LF])]\<rparr>)
     else rbind (calc_reply ?data) (\<lambda>msg. Inr (False, e\<lparr>e_log := e_log e @ [Send fd msg]\<rparr>)))"
    by (rule calc_respond_reply) (use data got in simp_all)
  finally have run: "h_respond (calc_handler kern net junk) fd r buf e = \<dots>" .
  show ?thesis
  proof (cases "127 \<le> length ?data")
    case long: True
    have "calc_answer ?data (''Request too long. Goodbye'' @ [LF])" using long by (simp add: calc_answer_def)
    from all[OF this] show ?thesis unfolding run using long True by auto
  next
    case short: False
    show ?thesis
    proof (cases "calc_reply ?data")
      case (Inl f)
      then show ?thesis unfolding run using short calc_reply_faults[OF Inl] by (auto simp: server_faults_def)
    next
      case (Inr msg)
      then have "calc_answer ?data msg" unfolding calc_answer_def if_not_P[OF short] .
      from all[OF this] show ?thesis unfolding run using short Inr True by auto
    qed
  qed
qed

interpretation calc: tcp_service kern "accept_thread kern" "calc_handler kern net junk" "world_ok kern net junk"
    server_faults "calc_rule net"
  for kern net junk
proof
  show "\<exists>again\<in>{Accept_Call, Accept_Hungups}. accept_thread kern = accept_turn again kern" by (simp add: accept_thread_def)
  show "world_ok kern net junk \<Longrightarrow> kernel_ok kern" by (simp add: world_ok_def)
  show "thread_faults \<subseteq> server_faults" by (simp add: thread_faults_def server_faults_def)
qed (rule calc_receives, assumption, rule calc_responds)

text \<open>A run of the server is a run of the service.\<close>

lemma server_run_service:
  "server_run kern net junk sched e =
    rbind (tcp_start (Accept_Hungups [-1]) kern e) (rfold (tcp_step (accept_thread kern) kern (calc_handler kern net junk)) sched)"
  by (simp add: server_run_def server_start_def server_step_def)

lemma hungups_pc: "accept_pc_ok (Accept_Hungups [-1])"
  by simp

section \<open>Properties\<close>

text \<open>C1: What the calculator server answers, under every schedule of its threads and its workers, with the stages of the jobs
  interleaved in any way, and for every kernel and network that behave as documented.  Whatever it sends to a descriptor
  is the calculator's answer (the reply to fewer than 127 bytes, the goodbye otherwise) to bytes that it received from that descriptor
  earlier, and it only reads from a descriptor after the selector has reported it.  Every message that it
  received has since been answered on its descriptor, or is in the hands of a worker.  And per descriptor
  exactly as many answers were sent as messages received, less those in hand, so that no request is answered
  twice.  Nothing is claimed of what happens between the two: the descriptor may have been closed and may
  belong to another client by then.\<close>

theorem server_replies:
  assumes "world_ok kern net junk" and "ample (Suc (2 * length sched)) (e_heap e)" and "2 * length sched < 2 ^ 31"
    and "e_log e = []" and "server_run kern net junk sched e = Inr sv"
  shows "(\<forall>l fd msg l'. e_log (sv_ep sv) = l @ Send fd msg # l' \<longrightarrow> (\<exists>k k'. l = k @ Recv fd 128 # k' \<and> reported kern k fd \<and>
      0 < fst (kern k (Recv fd 128)) \<and>
      (length (net k fd) < 127 \<and> calc_reply (net k fd) = Inr msg \<or>
       127 \<le> length (net k fd) \<and> msg = ''Request too long. Goodbye'' @ [LF]))) \<and>
    (\<forall>l fd n l'. e_log (sv_ep sv) = l @ Recv fd n # l' \<and> 0 < fst (kern l (Recv fd n)) \<longrightarrow>
      (\<exists>msg. Send fd msg \<in> set l' \<and> calc_answer (net l fd) msg) \<or>
      (\<exists>r buf. Job_Received fd r buf \<in> set (sv_running sv) \<and> 0 < r \<and> take (nat r) buf = net l fd)) \<and>
    (\<forall>fd. received_from kern fd (e_log (sv_ep sv)) = sent_to fd (e_log (sv_ep sv)) + in_hand fd (sv_running sv))"
proof -
  note run = calc.run_replies[OF assms(1-4) hungups_pc assms(5)[unfolded server_run_service], unfolded calc_rule_simps]
  note sent = run[THEN conjunct1] and held = run[THEN conjunct2, THEN conjunct1] and count = run[THEN conjunct2, THEN conjunct2]
  show ?thesis
  proof (intro conjI)
    show "\<forall>l fd msg l'. e_log (sv_ep sv) = l @ Send fd msg # l' \<longrightarrow> (\<exists>k k'. l = k @ Recv fd 128 # k' \<and> reported kern k fd \<and>
      0 < fst (kern k (Recv fd 128)) \<and>
      (length (net k fd) < 127 \<and> calc_reply (net k fd) = Inr msg \<or>
       127 \<le> length (net k fd) \<and> msg = ''Request too long. Goodbye'' @ [LF]))"
    proof (intro allI impI)
      fix l fd msg l' assume "e_log (sv_ep sv) = l @ Send fd msg # l'"
      then obtain k k' where k: "l = k @ Recv fd 128 # k'" "reported kern k fd" "0 < fst (kern k (Recv fd 128))"
        "calc_answer (net k fd) msg" using sent by blast
      from k(4) have "length (net k fd) < 127 \<and> calc_reply (net k fd) = Inr msg \<or>
          127 \<le> length (net k fd) \<and> msg = ''Request too long. Goodbye'' @ [LF]"
        by (cases "127 \<le> length (net k fd)") (simp_all add: calc_answer_def)
      with k(1-3) show "\<exists>k k'. l = k @ Recv fd 128 # k' \<and> reported kern k fd \<and> 0 < fst (kern k (Recv fd 128)) \<and>
        (length (net k fd) < 127 \<and> calc_reply (net k fd) = Inr msg \<or>
         127 \<le> length (net k fd) \<and> msg = ''Request too long. Goodbye'' @ [LF])" by blast
    qed
    show "\<forall>l fd n l'. e_log (sv_ep sv) = l @ Recv fd n # l' \<and> 0 < fst (kern l (Recv fd n)) \<longrightarrow>
      (\<exists>msg. Send fd msg \<in> set l' \<and> calc_answer (net l fd) msg) \<or>
      (\<exists>r buf. Job_Received fd r buf \<in> set (sv_running sv) \<and> 0 < r \<and> take (nat r) buf = net l fd)"
      using held by blast
  qed (rule count)
qed

text \<open>C2: Shutting the calculator down releases the endpoint.  When \<open>main\<close> has returned, under every schedule, both threads
  have returned, no worker has a job in its hands, the endpoint's heap holds exactly the blocks it held before, the
  two locks of the endpoint are destroyed, the last calls are those of \<open>endpoint_close\<close>, and every client that was ever
  accepted has been closed after it was accepted.  The heap of this model holds the blocks of the endpoint alone; those of
  the pool, of which one is never freed, are the subject of \<open>Pool_Memory.pool_memory\<close>.\<close>

theorem server_shutdown:
  assumes "world_ok kern net junk" and "ample (Suc (2 * length sched)) (e_heap e)" and "2 * length sched < 2 ^ 31"
    and "e_log e = []" and "server_run kern net junk sched e = Inr sv" and "sv_main sv = Main_Returned"
  shows "\<exists>sv0 log clients. server_start kern e = Inr sv0 \<and> sv_accept sv = Accept_Returned \<and> sv_event sv = Event_Returned \<and>
    sv_running sv = [] \<and> mem (e_heap (sv_ep sv)) = mem (e_heap e) \<and>
    e_clients_lock (sv_ep sv) = Destroyed \<and> e_queue_lock (sv_ep sv) = Destroyed \<and>
    e_log (sv_ep sv) = log @ close_calls (ep_fds (sv_ep sv0)) clients \<and>
    (\<forall>l l'. e_log (sv_ep sv) = l @ Accept (e_srv_fd (sv_ep sv0)) # l' \<and> fst (kern l (Accept (e_srv_fd (sv_ep sv0)))) \<noteq> -1 \<longrightarrow>
      Close (fst (kern l (Accept (e_srv_fd (sv_ep sv0))))) \<in> set l')"
unfolding server_start_def by (rule calc.run_shutdown[OF assms(1-4) hungups_pc assms(5)[unfolded server_run_service] assms(6)])

text \<open>C16: The faults of the server, under every schedule: the uninitialised event of \<open>endpoint_accept\<close> after a
  timeout, the shift of the initial event flag -1 after a first timeout, and the overflows and the
  division by zero of a request.  Nothing is used after it was freed or closed, no lock is misused,
  no access leaves its array.\<close>

theorem server_run_faults:
  assumes "world_ok kern net junk" and "ample (Suc (2 * length sched)) (e_heap e)" and "2 * length sched < 2 ^ 31"
    and "e_log e = []" and "server_run kern net junk sched e = Inl f"
  shows "f \<in> {Uninit_Read, Shift_Range, Signed_Overflow, Div_By_Zero}"
  using calc.run_inv[OF assms(1-4) hungups_pc] assms(5) by (auto simp: server_faults_def server_run_service)

text \<open>C18: The types that the calculator relies on without stating them, in every state of every run: the arrays
  \<open>new_client\<close>, \<open>client\<close> and \<open>event_flag\<close> hold one element, every job that waits or is in the hands of a
  worker decodes to a valid descriptor, and at most five jobs are in hand.\<close>

theorem server_well_typed:
  assumes "world_ok kern net junk" and "ample (Suc (2 * length sched)) (e_heap e)" and "2 * length sched < 2 ^ 31"
    and "e_log e = []" and "server_run kern net junk sched e = Inr sv"
  shows "well_typed sv"
  by (rule calc.run_well_typed[OF assms(1-4) hungups_pc assms(5)[unfolded server_run_service]])

section \<open>A run\<close>

text \<open>A kernel and a network on which the server accepts the client 7, answers its request, and is shut down.\<close>

definition calc_world :: kernel where
  "calc_world log c = (case c of
      Epoll_Wait fd n t \<Rightarrow>
        if fd = 4 \<and> 1 \<le> n then (1, [\<lparr>ev_events = (if Accept 3 \<in> set log then EPOLLHUP else EPOLLIN), ev_fd = 3\<rparr>])
        else if fd = 5 \<and> 1 \<le> n \<and> Recv 7 128 \<notin> set log then (1, [\<lparr>ev_events = EPOLLIN, ev_fd = 7\<rparr>])
        else (-1, [])
    | Recv fd n \<Rightarrow> (if 7 \<le> n then 7 else -1, [])
    | Recvfrom fd n \<Rightarrow> (-1, [])
    | _ \<Rightarrow> demo_kernel log c)"

abbreviation (input) calc_client :: net where
  "calc_client \<equiv> calc_net ''c 6 * 7''"

definition demo_schedule :: "actor list" where
  "demo_schedule = [Acceptor, Acceptor, Processor, Processor, Processor, Taker, Performer 0, Performer 0, Acceptor, Processor, Processor,
    Acceptor, Acceptor, Main_Thread, Main_Thread, Main_Thread, Main_Thread]"

lemma demo_run:
  "case server_run calc_world calc_client (\<lambda>_. zeros 128) demo_schedule ep40 of
     Inl f \<Rightarrow> False
   | Inr sv \<Rightarrow> sv_main sv = Main_Close \<and> Send 7 (''6 * 7 = 42'' @ [LF]) \<in> set (e_log (sv_ep sv))"
  by code_simp

lemma calc_world_ok: "world_ok calc_world calc_client (\<lambda>_. zeros 128)"
  by (auto simp: world_ok_def kernel_ok_def accept_documented_def epoll_documented_def flags_documented_def recv_documented_def
      calc_world_def calc_net_def fd_ok_def EPOLLIN_def EPOLLHUP_def)

lemma demo_start:
  "ample (Suc (2 * length demo_schedule)) (e_heap ep40)" "2 * length demo_schedule < 2 ^ 31" "e_log ep40 = []"
  "ample (Suc (2 * length (demo_schedule @ [Main_Thread]))) (e_heap ep40)" "2 * length (demo_schedule @ [Main_Thread]) < 2 ^ 31"
  using ample_mono[OF demo_ample] by (simp_all add: demo_schedule_def ep40_def ep0_def)

text \<open>The last turn is that of \<open>main\<close>, which closes the endpoint.\<close>

lemma demo_shutdown:
  obtains sv where "server_run calc_world calc_client (\<lambda>_. zeros 128) (demo_schedule @ [Main_Thread]) ep40 = Inr sv"
    and "sv_main sv = Main_Returned"
proof -
  obtain sv where sv: "server_run calc_world calc_client (\<lambda>_. zeros 128) demo_schedule ep40 = Inr sv" "sv_main sv = Main_Close"
    using demo_run by (auto split: sum.splits)
  obtain sv0 A where "tcp_start (Accept_Hungups [-1]) calc_world ep40 = Inr sv0"
    and inv: "server_inv calc_world (calc_rule calc_client) (mem (e_heap ep40)) (ep_fds (sv_ep sv0)) 0 sv"
    and "trace_ok calc_world (calc_rule calc_client) (e_srv_fd (sv_ep sv0)) A (sv_running sv) (e_log (sv_ep sv))"
    and "sv_main sv = Main_Returned \<longrightarrow> A = {}"
    by (rule calc.run_inr[OF calc_world_ok demo_start(1-3) hungups_pc sv(1)[unfolded server_run_service]])
  obtain e where "main_thread calc_world sv = Inr (sv\<lparr>sv_ep := e, sv_main := Main_Returned\<rparr>)"
    using main_closes[OF inv sv(2)] by blast
  then show thesis using that[of "sv\<lparr>sv_ep := e, sv_main := Main_Returned\<rparr>"] sv(1)
    by (cases "server_start calc_world ep40") (simp_all add: server_run_def server_step_def rfold_append)
qed

lemma server_replies_witness:
  "\<exists>sv l l' k k'. server_run calc_world calc_client (\<lambda>_. zeros 128) demo_schedule ep40 = Inr sv \<and>
    e_log (sv_ep sv) = l @ Send 7 (''6 * 7 = 42'' @ [LF]) # l' \<and> l = k @ Recv 7 128 # k' \<and> reported calc_world k 7 \<and>
    received_from calc_world 7 (e_log (sv_ep sv)) = sent_to 7 (e_log (sv_ep sv)) + in_hand 7 (sv_running sv)"
proof -
  obtain sv where sv: "server_run calc_world calc_client (\<lambda>_. zeros 128) demo_schedule ep40 = Inr sv"
    "Send 7 (''6 * 7 = 42'' @ [LF]) \<in> set (e_log (sv_ep sv))"
    using demo_run by (auto split: sum.splits)
  obtain l l' where l: "e_log (sv_ep sv) = l @ Send 7 (''6 * 7 = 42'' @ [LF]) # l'" using split_list[OF sv(2)] by blast
  note replies = server_replies[OF calc_world_ok demo_start(1-3) sv(1)]
  then obtain k k' where "l = k @ Recv 7 128 # k'" "reported calc_world k 7" using l by blast
  then show ?thesis using replies sv(1) l by blast
qed

lemma server_shutdown_witness:
  "\<exists>sv. server_run calc_world calc_client (\<lambda>_. zeros 128) (demo_schedule @ [Main_Thread]) ep40 = Inr sv \<and>
    mem (e_heap (sv_ep sv)) = (\<lambda>_. None) \<and> e_clients_lock (sv_ep sv) = Destroyed"
proof -
  obtain sv where sv: "server_run calc_world calc_client (\<lambda>_. zeros 128) (demo_schedule @ [Main_Thread]) ep40 = Inr sv"
    "sv_main sv = Main_Returned" by (rule demo_shutdown)
  have "mem (e_heap ep40) = (\<lambda>_. None)" by (simp add: ep40_def)
  with server_shutdown[OF calc_world_ok demo_start(4,5,3) sv] sv(1) show ?thesis by auto
qed

lemma server_well_typed_witness:
  "\<exists>sv. server_run calc_world calc_client (\<lambda>_. zeros 128) demo_schedule ep40 = Inr sv \<and> well_typed sv"
proof -
  obtain sv where sv: "server_run calc_world calc_client (\<lambda>_. zeros 128) demo_schedule ep40 = Inr sv"
    using demo_run by (auto split: sum.splits)
  from server_well_typed[OF calc_world_ok demo_start(1-3) sv] sv show ?thesis by blast
qed

text \<open>A first wait of the processor that times out ends in a shift of -1.\<close>

lemma server_run_faults_witness:
  "\<exists>f. server_run (\<lambda>log c. if c = Epoll_Wait 5 1 1000 then (0, []) else calc_world log c) calc_client (\<lambda>_. zeros 128)
      [Processor, Processor, Processor] ep40 = Inl f \<and> f \<in> {Uninit_Read, Shift_Range, Signed_Overflow, Div_By_Zero}"
proof -
  let ?k = "\<lambda>log c. if c = Epoll_Wait 5 1 1000 then (0, []) else calc_world log c"
  have w: "world_ok ?k calc_client (\<lambda>_. zeros 128)"
    by (auto simp: world_ok_def kernel_ok_def accept_documented_def epoll_documented_def flags_documented_def recv_documented_def
      calc_world_def calc_net_def fd_ok_def EPOLLIN_def EPOLLHUP_def)
  have am: "ample (Suc (2 * length [Processor, Processor, Processor])) (e_heap ep40)"
    by (rule ample_mono[OF demo_ample]) simp
  have run: "server_run ?k calc_client (\<lambda>_. zeros 128) [Processor, Processor, Processor] ep40 = Inl Shift_Range" by code_simp
  from server_run_faults[OF w am _ demo_start(3) run] run show ?thesis by auto
qed

section \<open>An answer to the wrong client\<close>

text \<open>Two events of the client 7 are in the hands of two workers.  The first has received its request; the
  second receives 127 bytes, so that it says goodbye and disconnects the client; then the listener accepts a
  new client, to which the system gives the descriptor 7 again; and the first worker answers.\<close>

definition reuse_world :: kernel where
  "reuse_world log c = (case c of
      Epoll_Wait fd n t \<Rightarrow>
        if fd = 4 \<and> 1 \<le> n then (1, [\<lparr>ev_events = EPOLLIN, ev_fd = 3\<rparr>])
        else if fd = 5 \<and> 1 \<le> n then (1, [\<lparr>ev_events = EPOLLIN, ev_fd = 7\<rparr>])
        else (-1, [])
    | Recv fd n \<Rightarrow> (if 127 \<le> n then if Recv 7 128 \<in> set log then 127 else 7 else -1, [])
    | Recvfrom fd n \<Rightarrow> (-1, [])
    | Accept fd \<Rightarrow> (7, [])
    | _ \<Rightarrow> demo_kernel log c)"

definition reuse_net :: net where
  "reuse_net log fd = (if Recv 7 128 \<in> set log then replicate 127 (CHR ''x'') else ''c 6 * 7'')"

definition reuse_schedule :: "actor list" where
  "reuse_schedule = [Acceptor, Acceptor, Acceptor, Processor, Processor, Processor, Taker, Processor, Processor, Processor, Taker,
    Performer 0, Performer 1, Performer 1, Performer 1, Acceptor, Performer 0]"

lemma reuse_world_ok: "world_ok reuse_world reuse_net (\<lambda>_. zeros 128)"
  by (auto simp: world_ok_def kernel_ok_def accept_documented_def epoll_documented_def flags_documented_def recv_documented_def
      reuse_world_def reuse_net_def fd_ok_def EPOLLIN_def)

lemma reuse_run:
  "case server_run reuse_world reuse_net (\<lambda>_. zeros 128) reuse_schedule ep40 of
     Inl f \<Rightarrow> False
   | Inr sv \<Rightarrow> let log = e_log (sv_ep sv); l1 = take 16 log; l2 = take 4 (drop 17 log); l3 = take 1 (drop 22 log); l4 = take 1 (drop 24 log)
       in log = l1 @ Recv 7 128 # l2 @ Close 7 # l3 @ Accept 3 # l4 @ [Send 7 (''6 * 7 = 42'' @ [LF])] \<and>
          reuse_net l1 7 = ''c 6 * 7'' \<and> Recv 7 128 \<notin> set l4"
  by code_simp

text \<open>C5: A reply can reach another client than the one that sent the request.  There is a kernel and a network that behave as
  documented, and a schedule, under which the calculator receives \<open>c 6 * 7\<close> from the descriptor 7, closes
  it, accepts a new client with the same number, and then sends the result to this client, from which it
  has received nothing.\<close>

theorem reply_to_other_client:
  "\<exists>sv l1 l2 l3 l4. world_ok reuse_world reuse_net (\<lambda>_. zeros 128) \<and>
    server_run reuse_world reuse_net (\<lambda>_. zeros 128) reuse_schedule ep40 = Inr sv \<and>
    e_log (sv_ep sv) = l1 @ Recv 7 128 # l2 @ Close 7 # l3 @ Accept 3 # l4 @ [Send 7 (''6 * 7 = 42'' @ [LF])] \<and>
    reuse_net l1 7 = ''c 6 * 7'' \<and> fst (reuse_world (l1 @ Recv 7 128 # l2 @ Close 7 # l3) (Accept 3)) = 7 \<and>
    Recv 7 128 \<notin> set l4"
proof -
  obtain sv where sv: "server_run reuse_world reuse_net (\<lambda>_. zeros 128) reuse_schedule ep40 = Inr sv"
    using reuse_run by (auto split: sum.splits)
  have new: "fst (reuse_world l (Accept 3)) = 7" for l by (simp add: reuse_world_def)
  show ?thesis using reuse_run reuse_world_ok new unfolding sv sum.case Let_def by blast
qed

end
