(* ===== verification/Html_Server.thy ===== *)
theory Html_Server
  imports Server_Invariants
begin

text \<open>
  The HTTP server \<open>apps/Run_unix_srv.c\<close> as a whole: what its handler may have done when it returns,
  on every request, and that its job obeys the laws of a service, so that the theorems of a TCP server
  hold for it under every schedule.
\<close>

section \<open>The faults of the request handler\<close>

text \<open>\<open>array_safe\<close>: the only faults are an access outside an array and an overflow of an \<open>int\<close> index.\<close>

definition array_safe :: "'a result \<Rightarrow> bool" where
  "array_safe r \<longleftrightarrow> (\<forall>f. r = Inl f \<longrightarrow> f = Out_Of_Bounds \<or> f = Signed_Overflow)"

named_theorems array_safe_ops

lemma array_safe_intros [array_safe_ops]:
  "array_safe (Inr x)" "array_safe (Inl Out_Of_Bounds)"
  "array_safe r \<Longrightarrow> (\<And>x. r = Inr x \<Longrightarrow> array_safe (k x)) \<Longrightarrow> array_safe (rbind r k)"
  "(b \<Longrightarrow> array_safe r) \<Longrightarrow> (\<not> b \<Longrightarrow> array_safe r') \<Longrightarrow> array_safe (if b then r else r')"
  by (cases r; simp add: array_safe_def)+

lemma array_safe_prod [array_safe_ops]: "(\<And>x y. p = (x, y) \<Longrightarrow> array_safe (f x y)) \<Longrightarrow> array_safe (case p of (x, y) \<Rightarrow> f x y)"
  by (cases p) simp

lemma array_safe_chars [array_safe_ops]:
  "array_safe (rd buf i)" "array_safe (wr buf i c)" "array_safe (copy_bytes dst d src s n)" "array_safe (c_strlen buf)"
  "array_safe (chk_int i)" "array_safe (c_memset0 buf k)" "array_safe (sprintf_to buf text)" "array_safe (store_data buf r msg)"
  by (simp_all add: array_safe_def rd_def wr_def copy_bytes_def c_strlen_def chk_int_def c_memset0_def sprintf_to_def store_data_def)

lemma array_safe_strings [array_safe_ops]:
  "array_safe (c_strcpy dst d src)" "array_safe (c_strncat dst src n)" "array_safe (send_string kern fd buf e)"
  unfolding c_strcpy_def c_strncat_def send_string_def by (intro array_safe_ops)+

lemma array_safe_scan_up [array_safe_ops]: "array_safe (scan_up P buf off i)"
proof (induction P buf off i rule: scan_up.induct)
  case (1 P buf off i)
  show ?case by (subst scan_up.simps) (intro array_safe_ops "1.IH"; (assumption | erule sym)?)
qed

lemma array_safe_scan_down [array_safe_ops]: "array_safe (scan_down P buf off i)"
proof (induction P buf off i rule: scan_down.induct)
  case (1 P buf off i)
  show ?case by (subst scan_down.simps) (intro array_safe_ops "1.IH"; (assumption | erule sym)?)
qed

lemma array_safe_header [array_safe_ops]:
  "array_safe (http_str_to_header dst buf off n)" "array_safe (http_header_to_str arr header k)"
  unfolding http_str_to_header_def http_header_to_str_def Let_def by (intro array_safe_ops)+

lemma array_safe_headers_loop [array_safe_ops]: "array_safe (headers_loop n str len dst i st e)"
proof (induction n str len dst i st e rule: headers_loop.induct)
  case (1 n str len dst i st e)
  show ?case by (subst headers_loop.simps) (intro array_safe_ops "1.IH"; (assumption | erule sym)?)
qed

lemma array_safe_headers [array_safe_ops]: "array_safe (http_str_to_headers dst n str len)"
  unfolding http_str_to_headers_def by (intro array_safe_ops)

lemma array_safe_find_headers_end [array_safe_ops]: "array_safe (find_headers_end b n i)"
proof (induction b n i rule: find_headers_end.induct)
  case (1 b n i)
  show ?case by (subst find_headers_end.simps) (intro array_safe_ops "1.IH"; (assumption | erule sym)?)
qed

lemma array_safe_list_items [array_safe_ops]: "array_safe (list_items n hb i ib ob)"
proof (induction n hb i ib ob rule: list_items.induct)
  case (1 n hb i ib ob)
  show ?case by (subst list_items.simps) (intro array_safe_ops "1.IH"; (assumption | erule sym)?)
qed

lemma html_respond_safe: "array_safe (html_respond kern ob hb rs fd r buf s)"
  unfolding html_respond_def Let_def by (intro array_safe_ops)

section \<open>What a string function has done when it returns\<close>

lemma strncat_done:
  assumes "c_strncat dst t n = Inr d" and "NUL \<notin> set t"
  shows "cstr d = cstr dst @ take n t \<and> NUL \<in> set d \<and> length d = length dst"
proof -
  obtain k where k: "c_strlen dst = Inr k" "k + length (take n t) < length dst"
    "d = take k dst @ take n t @ NUL # drop (k + length (take n t) + 1) dst"
    using assms(1) by (auto simp: c_strncat_def rbind_Inr_iff split: if_splits)
  have kc: "k = length (cstr dst)" using k(1) by (simp add: c_strlen_def split: if_splits)
  obtain d' where "c_strncat dst t n = Inr d'" "cstr d' = cstr dst @ take n t" "length d' = length dst" "NUL \<in> set d'"
    by (rule strncat_ok[OF refl _ assms(2), of dst n]) (use k(2) kc in simp)
  then show ?thesis using assms(1) by simp
qed

lemma strcpy_done:
  assumes "c_strcpy dst 0 (t @ NUL # r) = Inr d" and "NUL \<notin> set t" and "length t < 2 ^ 63"
  shows "cstr d = t \<and> NUL \<in> set d \<and> length d = length dst"
proof -
  have "unat (word_of_nat (length t + 1) :: 64 word) = length t + 1" using assms(3) by (intro unat_word_of_nat) simp
  then have "length t < length dst"
    using assms(1) unfolding c_strcpy_def c_strlen_append[OF assms(2)] rbind_simps copy_bytes_def
    by (simp only: split: if_splits) simp
  then have "c_strcpy dst 0 (t @ NUL # r) = Inr (put_cstr t dst)" "length (put_cstr t dst) = length dst"
    using strcpy_ok[of "t @ NUL # r" t dst] assms(2,3) by (simp_all add: cstr_append length_put_cstr)
  then show ?thesis using assms(1,2) by (simp add: put_cstr_def cstr_append)
qed

lemma rbind_pairE:
  assumes "rbind r (\<lambda>(x, y). f x y) = Inr z" and "\<And>x y. r = Inr (x, y) \<Longrightarrow> f x y = Inr z \<Longrightarrow> P"
  shows P
  using assms by (auto simp: rbind_Inr_iff)

lemma list_items_done: "list_items n hb i ib ob = Inr (ib', ob') \<Longrightarrow> length ib' = length ib"
proof (induction n hb i ib ob rule: list_items.induct)
  case (1 n hb i ib ob)
  show ?case
  proof (cases "i < n")
    case False
    then show ?thesis using "1.prems" by (subst (asm) list_items.simps) simp
  next
    case True
    obtain o1 x tail o2 k ib1 where s: "0 \<le> i \<and> i < int (length hb)" "c_strcpy ob 0 (''<li>'' @ [NUL]) = Inr o1"
      "http_header_to_str (drop 4 o1) (hb ! nat i) (word_of_nat (BUFFER_SIZE - 4)) = Inr (x, tail)"
      "c_strncat (take 4 o1 @ tail) ''</li>'' 6 = Inr o2" "c_strlen o2 = Inr k" "c_strncat ib (cstr o2) k = Inr ib1"
      "list_items n hb (i + 1) ib1 o2 = Inr (ib', ob')"
      using "1.prems" True by (subst (asm) list_items.simps) (auto simp: rbind_Inr_iff split: if_splits)
    have "NUL \<notin> set (cstr o2)" by (auto simp: cstr_def dest: set_takeWhileD)
    then have "length ib1 = length ib" using strncat_done[OF s(6)] by blast
    then show ?thesis using "1.IH"[OF True s(1,2,3) refl s(4,5,6,7)] by simp
  qed
qed


section \<open>What the handler has sent when it returns\<close>

definition page :: "string \<Rightarrow> string" where
  "page body = html_page_begin @ body @ html_page_end"

definition ok_response :: "string \<Rightarrow> string" where
  "ok_response body = response_text (int (length (page body)) - 1) @ page body"

lemma response_text_chars: "NUL \<notin> set (response_text n)"
  using dec_chars(2)[of NUL n] by (auto simp: response_text_def)

lemma page_parts: "length html_page_begin = 90" "length html_page_end = 12" "NUL \<notin> set html_page_begin" "NUL \<notin> set html_page_end"
  by (simp_all add: html_page_begin_def html_page_end_def)

lemma cstr_chars: "NUL \<notin> set (cstr b)"
  by (auto simp: cstr_def dest: set_takeWhileD)

lemma content_length:
  assumes "k < 2 ^ 62"
  shows "sint (word_of_nat (length html_page_begin) + word_of_nat k + word_of_nat (length html_page_end) - (1 :: 64 word)) = int k + 101"
proof -
  have "word_of_nat (length html_page_begin) + word_of_nat k + word_of_nat (length html_page_end) - (1 :: 64 word) = word_of_nat (k + 101)"
    by (simp add: page_parts)
  moreover have "sint (word_of_int (int (k + 101)) :: 64 word) = int (k + 101)"
    unfolding sint_sbintrunc' using assms by (simp add: signed_take_bit_int_eq_self)
  ultimately show ?thesis unfolding page_parts by (simp add: algebra_simps)
qed

text \<open>The end of the handler, from the list of items on.\<close>

lemma page_done:
  assumes "c_strlen in_buf = Inr k" and "c_strlen in_buf = Inr k'" and "k < 2 ^ 62"
    and "sprintf_to response (response_text (sint (word_of_nat (length html_page_begin) + word_of_nat k +
                   word_of_nat (length html_page_end) - (1 :: 64 word)))) = Inr r"
    and "c_strcpy o0 0 r = Inr o1" and "length response < 2 ^ 63"
    and "c_strncat o1 html_page_begin (length html_page_begin) = Inr o2"
    and "c_strncat o2 (cstr in_buf) k' = Inr o3"
    and "c_strncat o3 html_page_end (length html_page_end) = Inr o4"
    and "send_string kern fd o4 s = Inr s'"
  shows "s' = call kern (Send fd (ok_response (cstr in_buf))) s"
proof -
  let ?body = "cstr in_buf"
  have k: "k = length ?body" "k' = length ?body" using assms(1,2) by (simp_all add: c_strlen_def split: if_splits)
  have n: "sint (word_of_nat (length html_page_begin) + word_of_nat k + word_of_nat (length html_page_end) - (1 :: 64 word)) =
      int (length (page ?body)) - 1"
    unfolding content_length[OF assms(3)] using k by (simp add: page_def page_parts)
  let ?t = "response_text (int (length (page ?body)) - 1)"
  have r: "r = ?t @ NUL # drop (Suc (length ?t)) response" "length ?t < length response"
    using assms(4) unfolding n by (auto simp: sprintf_to_def split: if_splits)
  have o1: "cstr o1 = ?t" using strcpy_done[OF assms(5)[unfolded r(1)] response_text_chars] r(2) assms(6) by simp
  have o2: "cstr o2 = ?t @ html_page_begin" using strncat_done[OF assms(7) page_parts(3)] o1 by simp
  have o3: "cstr o3 = (?t @ html_page_begin) @ ?body" using strncat_done[OF assms(8) cstr_chars] o2 k by simp
  have o4: "cstr o4 = ((?t @ html_page_begin) @ ?body) @ html_page_end" "NUL \<in> set o4"
    using strncat_done[OF assms(9) page_parts(4)] o3 by simp_all
  then show ?thesis using assms(10) send_string_cstr[OF o4(2), of kern fd s] by (simp add: ok_response_def page_def)
qed

text \<open>What answers the bytes \<open>data\<close>: the refusal or a page, by the sixth byte.\<close>

definition html_message :: "string \<Rightarrow> string \<Rightarrow> bool" where
  "html_message data msg \<longleftrightarrow> msg = not_found_text \<and> (6 \<le> length data \<longrightarrow> data ! 5 \<noteq> CHR '' '') \<or>
    (\<exists>body. msg = ok_response body) \<and> (6 \<le> length data \<longrightarrow> data ! 5 = CHR '' '')"

lemma html_respond_done:
  assumes "html_respond kern out_buf hb response fd (int (length data)) buf s = Inr s'" and "take (length data) buf = data"
    and "data \<noteq> []" and "length data \<le> 4095" and "length buf = 4096" and "length response = 128"
  shows "\<exists>msg. s' = s\<lparr>e_log := e_log s @ [Send fd msg]\<rparr> \<and> html_message data msg"
proof -
  let ?b = "data @ NUL # drop (Suc (length data)) buf"
  have b: "wr buf (int (length data)) NUL = Inr ?b" using terminated[OF assms(2)] assms(4,5) by simp
  have b5: "rd ?b 5 = Inr (?b ! 5)" and lenb: "length ?b = 4096" using assms(4,5) by (simp_all add: rd_def)
  have c5: "6 \<le> length data \<Longrightarrow> ?b ! 5 = data ! 5" by (simp add: nth_append)
  have pos: "\<not> int (length data) \<le> 0" using assms(3) by simp
  note run = assms(1)[unfolded html_respond_def Let_def b rbind_simps if_not_P[OF pos] b5]
  show ?thesis
  proof (cases "?b ! 5 = CHR '' ''")
    case refuse: False
    obtain o1 where o1: "c_strcpy out_buf 0 (not_found_text @ [NUL]) = Inr o1" "send_string kern fd o1 s = Inr s'"
      using run refuse by (auto simp: rbind_Inr_iff)
    have nul: "NUL \<notin> set not_found_text" "length not_found_text < 2 ^ 63" by (simp_all add: not_found_text_def)
    have "s' = call kern (Send fd not_found_text) s"
      using strcpy_done[OF o1(1) nul] o1(2) send_string_cstr[of o1 kern fd s] by simp
    then show ?thesis using refuse c5 by (auto simp: call_def sys_def html_message_def)
  next
    case root: True
    then have space: "\<not> ?b ! 5 \<noteq> CHR '' ''" by simp
    note run3 = run[unfolded if_not_P[OF space]]
    obtain hs he n hc hb' ib ib' o0 m rs o1 o2 m' o3 o4 where t: "c_memset0 ?b BUFFER_SIZE = Inr ib"
      "list_items hc hb' 0 ib out_buf = Inr (ib', o0)" "c_strlen ib' = Inr m"
      "sprintf_to response (response_text (sint (word_of_nat (length html_page_begin) + word_of_nat m +
                 word_of_nat (length html_page_end) - (1 :: 64 word)))) = Inr rs"
      "c_strcpy o0 0 rs = Inr o1" "c_strncat o1 html_page_begin (length html_page_begin) = Inr o2"
      "c_strlen ib' = Inr m'" "c_strncat o2 (cstr ib') m' = Inr o3"
      "c_strncat o3 html_page_end (length html_page_end) = Inr o4" "send_string kern fd o4 s = Inr s'"
      using run3 by (elim rbind_pairE rbind_InrE) (rule that; assumption)
    have "length ib' = 4096" using list_items_done[OF t(2)] t(1) lenb by (auto simp: c_memset0_def BUFFER_SIZE_def split: if_splits)
    moreover have "length (cstr ib') \<le> length ib'" by (simp add: cstr_def length_takeWhile_le)
    ultimately have small: "m < 2 ^ 62" using t(3) by (simp add: c_strlen_def split: if_splits)
    have "s' = call kern (Send fd (ok_response (cstr ib'))) s"
      by (rule page_done[OF t(3,7) small t(4,5) _ t(6,8,9,10)]) (simp add: assms(6))
    then show ?thesis using root c5 by (auto simp: call_def sys_def html_message_def)
  qed
qed

section \<open>The handler of the HTTP server\<close>

text \<open>A well-formed request for \<open>/\<close> whose page fits the buffer.\<close>

definition root_request :: "string \<Rightarrow> string \<Rightarrow> header_line list \<Rightarrow> bool" where
  "root_request req v ls \<longleftrightarrow> req = get_root v ls \<and> length req \<le> 4095 \<and> CR \<notin> set v \<and> ls \<noteq> [] \<and> length ls \<le> 48 \<and>
    (\<forall>l \<in> set ls. line_ok l \<and> line_fits l) \<and> length (ok_response (items ls)) < 4096"

definition html_rule :: "net \<Rightarrow> service_rule" where
  "html_rule net = \<lparr>sr_size = 4095,
    sr_got = (\<lambda>l fd r buf. length buf = 4096 \<and> (0 < r \<longrightarrow> r \<le> 4095 \<and> int (length (net l fd)) = r \<and> take (nat r) buf = net l fd)),
    sr_ok = (\<lambda>l fd msg. html_message (net l fd) msg \<and> (\<forall>v ls. root_request (net l fd) v ls \<longrightarrow> msg = ok_response (items ls)))\<rparr>"

lemma html_rule_simps [simp]:
  "sr_size (html_rule net) = 4095"
  "sr_ok (html_rule net) l fd msg \<longleftrightarrow> html_message (net l fd) msg \<and> (\<forall>v ls. root_request (net l fd) v ls \<longrightarrow> msg = ok_response (items ls))"
  "sr_got (html_rule net) l fd r buf \<longleftrightarrow>
    length buf = 4096 \<and> (0 < r \<longrightarrow> r \<le> 4095 \<and> int (length (net l fd)) = r \<and> take (nat r) buf = net l fd)"
  by (simp_all add: html_rule_def)

text \<open>The sizes of the arrays in the frame of \<open>html_answer\<close>.\<close>

definition frame_ok :: "html_frame \<Rightarrow> bool" where
  "frame_ok f \<longleftrightarrow> length (hf_in_buf f) = 4096 \<and> length (hf_out_buf f) = 4096 \<and> length (hf_response f) = 128 \<and>
    length (hf_header_buffer f) = 48 \<and> (\<forall>hr \<in> set (hf_header_buffer f). header_ok hr)"

definition html_world_ok :: "kernel \<Rightarrow> net \<Rightarrow> (syscall list \<Rightarrow> html_frame) \<Rightarrow> bool" where
  "html_world_ok kern net junk \<longleftrightarrow> kernel_ok kern \<and> recv_documented kern net \<and> (\<forall>log. frame_ok (junk log))"

definition html_faults :: "fault set" where
  "html_faults = {Uninit_Read, Shift_Range, Signed_Overflow, Out_Of_Bounds}"

lemma root_request_sent:
  assumes "root_request data v ls" and "take (length data) buf = data" and "length buf = 4096" and "frame_ok f"
  shows "html_respond kern (hf_out_buf f) (hf_header_buffer f) (hf_response f) fd (int (length data)) buf s =
    Inr (s\<lparr>e_log := e_log s @ [Send fd (ok_response (items ls))]\<rparr>)"
proof -
  have f: "length (hf_out_buf f) = 4096" "length (hf_response f) = 128"
    "length (hf_header_buffer f) = 48" "\<forall>hr \<in> set (hf_header_buffer f). header_ok hr" using assms(4) by (simp_all add: frame_ok_def)
  have r: "data = get_root v ls" "length (get_root v ls) \<le> 4095" "CR \<notin> set v" "ls \<noteq> []" "length ls \<le> 48"
    "\<forall>l \<in> set ls. line_ok l" "\<forall>l \<in> set ls. line_fits l"
    "length (response_text (int (length (page_of ls)) - 1) @ page_of ls) < 4096"
    using assms(1) by (auto simp: root_request_def ok_response_def page_def page_of_def)
  have "html_respond kern (hf_out_buf f) (hf_header_buffer f) (hf_response f) fd (int (length (get_root v ls))) buf s =
    Inr (s\<lparr>e_log := e_log s @ [Send fd (response_text (int (length (page_of ls)) - 1) @ page_of ls)]\<rparr>)"
    by (rule html_respond_page) (use r f assms(2,3) in simp_all)
  then show ?thesis unfolding r(1) by (simp add: ok_response_def page_def page_of_def)
qed

lemma html_receives:
  assumes "html_world_ok kern net junk"
  shows "case h_receive (html_handler kern net junk) fd e of Inl f \<Rightarrow> f \<in> html_faults
    | Inr (r, buf, e') \<Rightarrow> e' = e\<lparr>e_log := e_log e @ [Recv fd (sr_size (html_rule net))]\<rparr> \<and>
        r = fst (kern (e_log e) (Recv fd (sr_size (html_rule net)))) \<and> sr_got (html_rule net) (e_log e) fd r buf"
proof -
  obtain r evs where k: "kern (e_log e) (Recv fd 4095) = (r, evs)" by fastforce
  have w: "recv_documented kern net" "length (hf_in_buf (junk (e_log e))) = 4096"
    using assms by (simp_all add: html_world_ok_def frame_ok_def)
  obtain b where "store_data (hf_in_buf (junk (e_log e))) r (net (e_log e) fd) = Inr b" "length b = 4096"
    "0 < r \<longrightarrow> r \<le> 4095 \<and> int (length (net (e_log e) fd)) = r \<and> take (nat r) b = net (e_log e) fd"
    using store_documented[OF w(1), of "e_log e" fd 4095 r "hf_in_buf (junk (e_log e))"] k w(2) by auto
  then show ?thesis using k by (simp add: html_handler_def html_receive_def sys_def BUFFER_SIZE_def)
qed

lemma html_responds:
  assumes "html_world_ok kern net junk" and "sr_got (html_rule net) l fd r buf"
  shows "case h_respond (html_handler kern net junk) fd r buf e of Inl f \<Rightarrow> f \<in> html_faults
    | Inr (gone, e') \<Rightarrow> r \<le> 0 \<and> e' = e \<and> \<not> gone \<or>
        0 < r \<and> (\<exists>msg. e' = e\<lparr>e_log := e_log e @ [Send fd msg]\<rparr> \<and>
          (\<forall>l. sr_got (html_rule net) l fd r buf \<longrightarrow> sr_ok (html_rule net) l fd msg))"
proof -
  let ?f = "junk (e_log e)"
  define run where "run = html_respond kern (hf_out_buf ?f) (hf_header_buffer ?f) (hf_response ?f) fd r buf e"
  have h: "h_respond (html_handler kern net junk) fd r buf e = rbind run (\<lambda>e. Inr (False, e))"
    by (simp add: html_handler_def run_def Let_def)
  have frame: "frame_ok ?f" using assms(1) by (simp add: html_world_ok_def)
  show ?thesis
  proof (cases run)
    case (Inl x)
    then have "x = Out_Of_Bounds \<or> x = Signed_Overflow"
      using html_respond_safe[of kern "hf_out_buf ?f" "hf_header_buffer ?f" "hf_response ?f" fd r buf e]
      by (simp add: array_safe_def run_def)
    then show ?thesis unfolding h using Inl by (auto simp: html_faults_def)
  next
    case (Inr e')
    show ?thesis
    proof (cases "0 < r")
      case False
      then have "e' = e" using Inr by (auto simp: run_def html_respond_def rbind_Inr_iff)
      then show ?thesis unfolding h using Inr False by simp
    next
      case True
      define data where "data = take (nat r) buf"
      have d: "length buf = 4096" "length data \<le> 4095" "data \<noteq> []" "r = int (length data)" "take (length data) buf = data"
        using assms(2) True by (auto simp: data_def)
      have resp: "length (hf_response ?f) = 128" using frame by (simp add: frame_ok_def)
      obtain msg where msg: "e' = e\<lparr>e_log := e_log e @ [Send fd msg]\<rparr>" "html_message data msg"
        using html_respond_done[OF Inr[unfolded run_def d(4)] d(5,3,2,1) resp] by blast
      have "msg = ok_response (items ls)" if "root_request data v ls" for v ls
        using root_request_sent[OF that d(5,1) frame, of kern fd e] Inr msg(1) unfolding run_def d(4)
        by (auto dest: arg_cong[where f = e_log])
      moreover have "net l fd = data" if "sr_got (html_rule net) l fd r buf" for l
        using that True by (simp add: data_def)
      ultimately have "\<forall>l. sr_got (html_rule net) l fd r buf \<longrightarrow> sr_ok (html_rule net) l fd msg"
        using msg(2) unfolding html_rule_simps(2) by metis
      then show ?thesis unfolding h Inr rbind_simps sum.case prod.case using msg(1) True by blast
    qed
  qed
qed

interpretation html: tcp_service kern "html_accept_thread kern" "html_handler kern net junk" "html_world_ok kern net junk"
    html_faults "html_rule net"
  for kern net junk
proof
  show "\<exists>again\<in>{Accept_Call, Accept_Hungups}. html_accept_thread kern = accept_turn again kern" by (simp add: html_accept_thread_def)
  show "html_world_ok kern net junk \<Longrightarrow> kernel_ok kern" by (simp add: html_world_ok_def)
  show "thread_faults \<subseteq> html_faults" by (auto simp: thread_faults_def html_faults_def)
qed (rule html_receives, assumption, rule html_responds)

lemma html_run_service:
  "html_server_run kern net junk sched e =
    rbind (tcp_start (Accept_Call [-1]) kern e) (rfold (tcp_step (html_accept_thread kern) kern (html_handler kern net junk)) sched)"
  by (simp add: html_server_run_def html_server_start_def html_server_step_def)

lemma call_pc: "accept_pc_ok (Accept_Call [-1])"
  by simp

section \<open>Properties\<close>

text \<open>C3: What the HTTP server sends, under every schedule of its threads and workers, with the stages of the jobs interleaved in
  any way, and for every kernel and network that behave as documented.  Whatever it sends to a descriptor answers bytes that
  it received from that descriptor earlier, which it only reads from after the selector has reported it: the refusal when the
  sixth byte of the request is not a blank, the start of a page otherwise, and the page that lists the headers when the request
  is a well-formed one for \<open>/\<close>.  Every message that it received has since been answered in this way on its
  descriptor, or is in the hands of a worker; and per descriptor exactly as many answers were sent as messages
  received, less those in hand.  Nothing is claimed of what happens between the two: the descriptor may have
  been closed and may belong to another client by then.\<close>

theorem html_server_replies:
  assumes "html_world_ok kern net junk" and "ample (Suc (2 * length sched)) (e_heap e)" and "2 * length sched < 2 ^ 31"
    and "e_log e = []" and "html_server_run kern net junk sched e = Inr sv"
  shows "(\<forall>l fd msg l'. e_log (sv_ep sv) = l @ Send fd msg # l' \<longrightarrow> (\<exists>k k'. l = k @ Recv fd 4095 # k' \<and> reported kern k fd \<and>
      0 < fst (kern k (Recv fd 4095)) \<and>
      (msg = not_found_text \<and> (6 \<le> length (net k fd) \<longrightarrow> net k fd ! 5 \<noteq> CHR '' '') \<or>
       (\<exists>body. msg = ok_response body) \<and> (6 \<le> length (net k fd) \<longrightarrow> net k fd ! 5 = CHR '' '')) \<and>
      (\<forall>v ls. root_request (net k fd) v ls \<longrightarrow> msg = ok_response (items ls)))) \<and>
    (\<forall>l fd n l'. e_log (sv_ep sv) = l @ Recv fd n # l' \<and> 0 < fst (kern l (Recv fd n)) \<longrightarrow>
      (\<exists>msg. Send fd msg \<in> set l' \<and> html_message (net l fd) msg) \<or>
      (\<exists>r buf. Job_Received fd r buf \<in> set (sv_running sv) \<and> 0 < r \<and> take (nat r) buf = net l fd)) \<and>
    (\<forall>fd. received_from kern fd (e_log (sv_ep sv)) = sent_to fd (e_log (sv_ep sv)) + in_hand fd (sv_running sv))"
proof -
  note run = html.run_replies[OF assms(1-4) call_pc assms(5)[unfolded html_run_service], unfolded html_rule_simps]
  note sent = run[THEN conjunct1, unfolded html_message_def] and held = run[THEN conjunct2, THEN conjunct1]
    and count = run[THEN conjunct2, THEN conjunct2]
  have "\<forall>l fd n l'. e_log (sv_ep sv) = l @ Recv fd n # l' \<and> 0 < fst (kern l (Recv fd n)) \<longrightarrow>
      (\<exists>msg. Send fd msg \<in> set l' \<and> html_message (net l fd) msg) \<or>
      (\<exists>r buf. Job_Received fd r buf \<in> set (sv_running sv) \<and> 0 < r \<and> take (nat r) buf = net l fd)"
    using held by blast
  then show ?thesis by (intro conjI) (rule sent, assumption, rule count)
qed

text \<open>C4: Shutting the HTTP server down releases the endpoint, under every schedule, as for the calculator:
  when \<open>main\<close> has returned both threads have returned, no worker has a job in its hands, the endpoint's heap holds
  exactly the blocks it held before, the two locks of the endpoint are destroyed, the last calls are those of
  \<open>endpoint_close\<close>, and every client that was ever accepted has been closed after it was accepted.  The
  pool, whose queue block is never freed, is not part of this heap (\<open>Pool_Memory.pool_memory\<close>).\<close>

theorem html_server_shutdown:
  assumes "html_world_ok kern net junk" and "ample (Suc (2 * length sched)) (e_heap e)" and "2 * length sched < 2 ^ 31"
    and "e_log e = []" and "html_server_run kern net junk sched e = Inr sv" and "sv_main sv = Main_Returned"
  shows "\<exists>sv0 log clients. html_server_start kern e = Inr sv0 \<and> sv_accept sv = Accept_Returned \<and> sv_event sv = Event_Returned \<and>
    sv_running sv = [] \<and> mem (e_heap (sv_ep sv)) = mem (e_heap e) \<and>
    e_clients_lock (sv_ep sv) = Destroyed \<and> e_queue_lock (sv_ep sv) = Destroyed \<and>
    e_log (sv_ep sv) = log @ close_calls (ep_fds (sv_ep sv0)) clients \<and>
    (\<forall>l l'. e_log (sv_ep sv) = l @ Accept (e_srv_fd (sv_ep sv0)) # l' \<and> fst (kern l (Accept (e_srv_fd (sv_ep sv0)))) \<noteq> -1 \<longrightarrow>
      Close (fst (kern l (Accept (e_srv_fd (sv_ep sv0))))) \<in> set l')"
  unfolding html_server_start_def
  by (rule html.run_shutdown[OF assms(1-4) call_pc assms(5)[unfolded html_run_service] assms(6)])

text \<open>C17: The faults of the HTTP server, under every schedule and for every byte sequence that clients send:
  those of the threads, and accesses outside the buffers or overflows of an index in the handler.  Nothing
  is used after it was freed or closed, no lock is misused and no null pointer is dereferenced.\<close>

theorem html_server_faults:
  assumes "html_world_ok kern net junk" and "ample (Suc (2 * length sched)) (e_heap e)" and "2 * length sched < 2 ^ 31"
    and "e_log e = []" and "html_server_run kern net junk sched e = Inl f"
  shows "f \<in> {Uninit_Read, Shift_Range, Signed_Overflow, Out_Of_Bounds}"
  using html.run_inv[OF assms(1-4) call_pc] assms(5) by (auto simp: html_faults_def html_run_service)

section \<open>Runs\<close>

text \<open>The client 7 connects, asks for \<open>/x\<close> and is refused.\<close>

definition html_world :: kernel where
  "html_world log c = (case c of
      Epoll_Wait fd n t \<Rightarrow>
        if fd = 4 \<and> 1 \<le> n then (1, [\<lparr>ev_events = (if Accept 3 \<in> set log then EPOLLHUP else EPOLLIN), ev_fd = 3\<rparr>])
        else if fd = 5 \<and> 1 \<le> n \<and> Recv 7 4095 \<notin> set log then (1, [\<lparr>ev_events = EPOLLIN, ev_fd = 7\<rparr>])
        else (-1, [])
    | Recv fd n \<Rightarrow> (if 7 \<le> n then 7 else -1, [])
    | Recvfrom fd n \<Rightarrow> (-1, [])
    | _ \<Rightarrow> demo_kernel log c)"

abbreviation (input) html_client :: net where
  "html_client \<equiv> calc_net ''GET /x ''"

definition demo_frame :: html_frame where
  "demo_frame = \<lparr>hf_in_buf = zeros 4096, hf_out_buf = zeros 4096, hf_header_buffer = replicate 48 blank_header, hf_response = zeros 128\<rparr>"

definition html_schedule :: "actor list" where
  "html_schedule = [Acceptor, Acceptor, Acceptor, Processor, Processor, Processor, Taker]"

lemma html_demo_run:
  "case html_server_run html_world html_client junk html_schedule ep40 of
     Inl f \<Rightarrow> False | Inr sv \<Rightarrow> sv_running sv = [Job_Start 4294967303]"
  by code_simp

lemma demo_frame_ok: "frame_ok demo_frame"
  using sample_ok by (simp add: frame_ok_def demo_frame_def header_ok_def blank_header_def)

lemma html_world_documented: "html_world_ok html_world html_client (\<lambda>_. demo_frame)"
  using demo_frame_ok
  by (auto simp: html_world_ok_def kernel_ok_def accept_documented_def epoll_documented_def flags_documented_def recv_documented_def
      html_world_def calc_net_def fd_ok_def EPOLLIN_def EPOLLHUP_def)

lemma html_demo_ample:
  "length sched \<le> 19 \<Longrightarrow> ample (Suc (2 * length sched)) (e_heap ep40)" "length sched \<le> 19 \<Longrightarrow> 2 * length sched < 2 ^ 31" "e_log ep40 = []"
  using ample_mono[OF demo_ample] by (simp_all add: ep40_def ep0_def)

text \<open>The two turns of the worker.\<close>

lemma html_demo_answer:
  obtains sv log where "html_server_run html_world html_client (\<lambda>_. demo_frame) (html_schedule @ [Performer 0, Performer 0]) ep40 = Inr sv"
    and "e_log (sv_ep sv) = log @ [Recv 7 4095, Send 7 not_found_text]"
proof -
  obtain sv where sv: "html_server_run html_world html_client (\<lambda>_. demo_frame) html_schedule ep40 = Inr sv"
    "sv_running sv = [Job_Start 4294967303]"
    using html_demo_run[of "\<lambda>_. demo_frame"] by (auto split: sum.splits)
  let ?f = demo_frame and ?e = "sv_ep sv" and ?d = "''GET /x ''"
  let ?e1 = "?e\<lparr>e_log := e_log ?e @ [Recv 7 4095]\<rparr>" and ?h = "html_handler html_world html_client (\<lambda>_. demo_frame)"
  have w: "to_int 4294967303 = 7" "(word_of_int (sint (4294967303 :: 64 word) div 2 ^ 32) :: 32 word) AND EPOLLIN \<noteq> 0"
    by (simp_all add: to_int_def EPOLLIN_def)
  have "h_receive ?h 7 ?e = Inr (7, ?d @ zeros 4089, ?e1)"
    using html_receive_data[of html_world ?e 7 html_client "zeros 4096"]
    by (simp add: html_handler_def html_world_def calc_net_def demo_frame_def)
  then have t1: "job_turn ?h html_world (Job_Start 4294967303) ?e = Inr (Some (Job_Received 7 7 (?d @ zeros 4089)), ?e1)"
    using w by (simp add: job_turn_def Let_def)
  have "html_respond html_world (hf_out_buf ?f) (hf_header_buffer ?f) (hf_response ?f) 7 (int (length ?d)) (?d @ zeros 4089) ?e1 =
      Inr (?e1\<lparr>e_log := e_log ?e1 @ [Send 7 not_found_text]\<rparr>)"
    by (rule html_respond_refuses) (simp_all add: demo_frame_def)
  then have t2: "job_turn ?h html_world (Job_Received 7 7 (?d @ zeros 4089)) ?e1 =
      Inr (None, ?e\<lparr>e_log := e_log ?e @ [Recv 7 4095, Send 7 not_found_text]\<rparr>)"
    by (simp add: job_turn_def html_handler_def Let_def)
  have "html_server_run html_world html_client (\<lambda>_. demo_frame) (html_schedule @ [Performer 0, Performer 0]) ep40 =
      Inr (sv\<lparr>sv_ep := ?e\<lparr>e_log := e_log ?e @ [Recv 7 4095, Send 7 not_found_text]\<rparr>, sv_running := []\<rparr>)"
    using sv t1 t2 by (cases "html_server_start html_world ep40")
      (simp_all add: html_server_run_def html_server_step_def rfold_append worker_perform_def)
  then show thesis by (rule that) simp
qed

lemma html_server_replies_witness:
  "\<exists>sv l k k'. html_server_run html_world html_client (\<lambda>_. demo_frame) (html_schedule @ [Performer 0, Performer 0]) ep40 = Inr sv \<and>
    e_log (sv_ep sv) = l @ [Send 7 not_found_text] \<and> l = k @ Recv 7 4095 # k' \<and> reported html_world k 7 \<and>
    received_from html_world 7 (e_log (sv_ep sv)) = sent_to 7 (e_log (sv_ep sv)) + in_hand 7 (sv_running sv)"
proof -
  obtain sv log where sv: "html_server_run html_world html_client (\<lambda>_. demo_frame) (html_schedule @ [Performer 0, Performer 0]) ep40 = Inr sv"
    "e_log (sv_ep sv) = log @ [Recv 7 4095, Send 7 not_found_text]" by (rule html_demo_answer)
  have len: "length (html_schedule @ [Performer 0, Performer 0]) \<le> 19" by (simp add: html_schedule_def)
  have split: "e_log (sv_ep sv) = (log @ [Recv 7 4095]) @ Send 7 not_found_text # []" using sv(2) by simp
  note replies = html_server_replies[OF html_world_documented html_demo_ample(1,2)[OF len] html_demo_ample(3) sv(1)]
  then obtain k k' where "log @ [Recv 7 4095] = k @ Recv 7 4095 # k'" "reported html_world k 7" using split by blast
  then show ?thesis using replies sv(1) split by blast
qed

text \<open>A run without requests: the client 7 is accepted, the sockets are hung up, and the server is shut down.\<close>

definition quiet_world :: kernel where
  "quiet_world log c = (case c of Epoll_Wait fd n t \<Rightarrow> if fd = 5 then (-1, []) else html_world log c | _ \<Rightarrow> html_world log c)"

definition quiet_schedule :: "actor list" where
  "quiet_schedule = [Acceptor, Acceptor, Acceptor, Processor, Acceptor, Processor, Acceptor,
    Main_Thread, Main_Thread, Main_Thread, Main_Thread]"

lemma quiet_run:
  "case html_server_run quiet_world html_client junk quiet_schedule ep40 of
     Inl f \<Rightarrow> False | Inr sv \<Rightarrow> sv_main sv = Main_Close \<and> Accept 3 \<in> set (e_log (sv_ep sv))"
  by code_simp

lemma quiet_documented: "html_world_ok quiet_world html_client (\<lambda>_. demo_frame)"
  using demo_frame_ok
  by (auto simp: html_world_ok_def kernel_ok_def accept_documented_def epoll_documented_def flags_documented_def recv_documented_def
      quiet_world_def html_world_def calc_net_def fd_ok_def EPOLLIN_def EPOLLHUP_def)

lemma quiet_shutdown:
  obtains sv where "html_server_run quiet_world html_client (\<lambda>_. demo_frame) (quiet_schedule @ [Main_Thread]) ep40 = Inr sv"
    and "sv_main sv = Main_Returned"
proof -
  let ?junk = "\<lambda>_ :: syscall list. demo_frame"
  obtain sv where sv: "html_server_run quiet_world html_client ?junk quiet_schedule ep40 = Inr sv" "sv_main sv = Main_Close"
    using quiet_run[of ?junk] by (auto split: sum.splits)
  have len: "length quiet_schedule \<le> 19" by (simp add: quiet_schedule_def)
  obtain sv0 A where "tcp_start (Accept_Call [-1]) quiet_world ep40 = Inr sv0"
    and inv: "server_inv quiet_world (html_rule html_client) (mem (e_heap ep40)) (ep_fds (sv_ep sv0)) 0 sv"
    and "trace_ok quiet_world (html_rule html_client) (e_srv_fd (sv_ep sv0)) A (sv_running sv) (e_log (sv_ep sv))"
    and "sv_main sv = Main_Returned \<longrightarrow> A = {}"
    by (rule html.run_inr[OF quiet_documented html_demo_ample(1,2)[OF len] html_demo_ample(3) call_pc sv(1)[unfolded html_run_service]])
  obtain e where "main_thread quiet_world sv = Inr (sv\<lparr>sv_ep := e, sv_main := Main_Returned\<rparr>)"
    using main_closes[OF inv sv(2)] by blast
  then show thesis using that[of "sv\<lparr>sv_ep := e, sv_main := Main_Returned\<rparr>"] sv(1)
    by (cases "html_server_start quiet_world ep40") (simp_all add: html_server_run_def html_server_step_def rfold_append)
qed

lemma html_server_shutdown_witness:
  "\<exists>sv. html_server_run quiet_world html_client (\<lambda>_. demo_frame) (quiet_schedule @ [Main_Thread]) ep40 = Inr sv \<and>
    mem (e_heap (sv_ep sv)) = (\<lambda>_. None) \<and> e_clients_lock (sv_ep sv) = Destroyed"
proof -
  obtain sv where sv: "html_server_run quiet_world html_client (\<lambda>_. demo_frame) (quiet_schedule @ [Main_Thread]) ep40 = Inr sv"
    "sv_main sv = Main_Returned" by (rule quiet_shutdown)
  have len: "length (quiet_schedule @ [Main_Thread]) \<le> 19" by (simp add: quiet_schedule_def)
  have "mem (e_heap ep40) = (\<lambda>_. None)" by (simp add: ep40_def)
  with html_server_shutdown[OF quiet_documented html_demo_ample(1,2)[OF len] html_demo_ample(3) sv] sv(1) show ?thesis by auto
qed

text \<open>When \<open>recv\<close> fails, the handler writes in front of its buffer.\<close>

definition failing_world :: kernel where
  "failing_world log c = (case c of Recv fd n \<Rightarrow> (-1, []) | _ \<Rightarrow> html_world log c)"

lemma failing_run:
  "case html_server_run failing_world html_client junk html_schedule ep40 of
     Inl f \<Rightarrow> False | Inr sv \<Rightarrow> sv_running sv = [Job_Start 4294967303]"
  by code_simp

lemma html_server_faults_witness:
  "\<exists>f. html_server_run failing_world html_client (\<lambda>_. demo_frame) (html_schedule @ [Performer 0, Performer 0]) ep40 = Inl f \<and>
    f = Out_Of_Bounds \<and> f \<in> {Uninit_Read, Shift_Range, Signed_Overflow, Out_Of_Bounds}"
proof -
  let ?h = "html_handler failing_world html_client (\<lambda>_. demo_frame)"
  obtain sv where sv: "html_server_run failing_world html_client (\<lambda>_. demo_frame) html_schedule ep40 = Inr sv"
    "sv_running sv = [Job_Start 4294967303]"
    using failing_run[of "\<lambda>_. demo_frame"] by (auto split: sum.splits)
  let ?e1 = "(sv_ep sv)\<lparr>e_log := e_log (sv_ep sv) @ [Recv 7 4095]\<rparr>"
  have w: "to_int 4294967303 = 7" "(word_of_int (sint (4294967303 :: 64 word) div 2 ^ 32) :: 32 word) AND EPOLLIN \<noteq> 0"
    by (simp_all add: to_int_def EPOLLIN_def)
  have "h_receive ?h 7 (sv_ep sv) = Inr (-1, zeros 4096, ?e1)"
    by (simp add: html_handler_def html_receive_def failing_world_def sys_def store_data_def demo_frame_def BUFFER_SIZE_def)
  then have t1: "job_turn ?h failing_world (Job_Start 4294967303) (sv_ep sv) = Inr (Some (Job_Received 7 (-1) (zeros 4096)), ?e1)"
    using w by (simp add: job_turn_def Let_def)
  have t2: "job_turn ?h failing_world (Job_Received 7 (-1) (zeros 4096)) ?e1 = Inl Out_Of_Bounds"
    by (simp add: job_turn_def html_handler_def html_respond_def wr_def Let_def)
  have run: "html_server_run failing_world html_client (\<lambda>_. demo_frame) (html_schedule @ [Performer 0, Performer 0]) ep40 = Inl Out_Of_Bounds"
    using sv t1 t2 by (cases "html_server_start failing_world ep40")
      (simp_all add: html_server_run_def html_server_step_def rfold_append worker_perform_def)
  have world: "html_world_ok failing_world html_client (\<lambda>_. demo_frame)"
    using demo_frame_ok
    by (auto simp: html_world_ok_def kernel_ok_def accept_documented_def epoll_documented_def flags_documented_def recv_documented_def
        failing_world_def html_world_def calc_net_def fd_ok_def EPOLLIN_def EPOLLHUP_def)
  have len: "length (html_schedule @ [Performer 0, Performer 0]) \<le> 19" by (simp add: html_schedule_def)
  from html_server_faults[OF world html_demo_ample(1,2)[OF len] html_demo_ample(3) run] run show ?thesis by simp
qed

end
