(* ===== verification/Server_Liveness.thy ===== *)
theory Server_Liveness
  imports Server_Properties Html_Server
begin

text \<open>
  The servers come to an end.  Once \<open>main\<close> has read its line of input, and so has set \<open>stop\<close>, every turn of a thread or
  worker that changes the server brings it closer to its end, and until \<open>main\<close> has returned one of accept thread,
  event thread, first worker and \<open>main\<close> can move; the locale \<open>fair_progress\<close> then gives that a fair schedule ends.
  This is about the two loops, the jobs and the joins of \<open>main\<close>; that the join of the pool may itself miss its signal is
  shown in \<open>Pool_Properties\<close> and is not part of the contract with which the pool enters here.
\<close>

section \<open>The work that is left\<close>

fun accept_left :: "accept_pc \<Rightarrow> nat" where
  "accept_left (Accept_Hungups c) = 3" | "accept_left (Accept_Call c) = 2" | "accept_left (Accept_Test c n) = 1"
| "accept_left Accept_Returned = 0"

fun event_left :: "event_pc \<Rightarrow> nat" where
  "event_left (Event_Post c f n) = 7" | "event_left (Event_Wait c f) = 2" | "event_left (Event_Test c f n) = 1"
| "event_left Event_Returned = 0"

fun main_left :: "main_pc \<Rightarrow> nat" where
  "main_left Main_Join_Accept = 4" | "main_left Main_Join_Event = 3" | "main_left Main_Join_Pool = 2" | "main_left Main_Close = 1"
| "main_left Main_Returned = 0" | "main_left Main_Input = 5"

text \<open>A job in hand counts its stages, at most three; a job that waits counts four, since it has to be taken as well.\<close>

fun job_left :: "job_pc \<Rightarrow> nat" where
  "job_left (Job_Start w) = 3" | "job_left (Job_Received fd n buf) = 2" | "job_left (Job_Disconnect fd) = 1"

definition work_left :: "tcp_server \<Rightarrow> nat" where
  "work_left sv = accept_left (sv_accept sv) + event_left (sv_event sv) + 4 * length (sv_jobs sv) +
    sum_list (map job_left (sv_running sv)) + main_left (sv_main sv)"

definition stopped :: "tcp_server \<Rightarrow> bool" where
  "stopped sv \<longleftrightarrow> sv_stop sv \<and> sv_main sv \<noteq> Main_Input"

definition crew :: "actor set" where
  "crew = {Acceptor, Processor, Performer 0, Main_Thread}"

lemma accept_turn_left:
  assumes "stopped sv" and "accept_turn again kern sv = Inr sv'"
  shows "stopped sv' \<and> sv_main sv' = sv_main sv \<and> (sv' = sv \<or> work_left sv' < work_left sv)"
  using assms by (cases "sv_accept sv") (auto simp: accept_turn_def stopped_def work_left_def rbind_Inr_iff)

lemma event_thread_left:
  assumes "stopped sv" and "event_thread kern sv = Inr sv'"
  shows "stopped sv' \<and> sv_main sv' = sv_main sv \<and> (sv' = sv \<or> work_left sv' < work_left sv)"
  using assms by (cases "sv_event sv") (auto simp: event_thread_def stopped_def work_left_def rbind_Inr_iff)

lemma take_left:
  assumes "stopped sv" and "worker_take sv = Inr sv'"
  shows "stopped sv' \<and> sv_main sv' = sv_main sv \<and> (sv' = sv \<or> work_left sv' < work_left sv)"
  using assms by (auto simp: worker_take_def stopped_def work_left_def split: list.splits if_splits)

text \<open>A stage leaves nothing, or a later stage.\<close>

lemma job_turn_left:
  assumes "job_turn h kern j e = Inr (next, e')"
  shows "(case next of None \<Rightarrow> 0 | Some k \<Rightarrow> job_left k) < job_left j"
  using assms by (cases j) (auto simp: job_turn_def Let_def rbind_Inr_iff split: if_splits)

lemma perform_left:
  assumes "stopped sv" and "worker_perform h kern i sv = Inr sv'"
  shows "stopped sv' \<and> sv_main sv' = sv_main sv \<and> (sv' = sv \<or> work_left sv' < work_left sv)"
proof (cases "i < length (sv_running sv)")
  case True
  let ?J = "sv_running sv"
  obtain nxt e where t: "job_turn h kern (?J ! i) (sv_ep sv) = Inr (nxt, e)"
    "sv' = sv\<lparr>sv_ep := e, sv_running := take i ?J @ (case nxt of None \<Rightarrow> [] | Some job \<Rightarrow> [job]) @ drop (Suc i) ?J\<rparr>"
    using assms(2) True by (auto simp: worker_perform_def rbind_Inr_iff)
  have "sum_list (map job_left ?J) = sum_list (map job_left (take i ?J @ ?J ! i # drop (Suc i) ?J))"
    using True by (simp only: id_take_nth_drop [symmetric])
  then show ?thesis using assms(1) job_turn_left[OF t(1)] t(2) by (simp add: stopped_def work_left_def split: option.splits)
qed (use assms in \<open>simp add: worker_perform_def\<close>)

lemma main_left_step:
  assumes "stopped sv" and "main_thread kern sv = Inr sv'"
  shows "stopped sv' \<and> (sv_main sv = Main_Returned \<longrightarrow> sv' = sv) \<and> (sv' = sv \<or> work_left sv' < work_left sv)"
  using assms by (cases "sv_main sv") (auto simp: main_thread_def stopped_def work_left_def rbind_Inr_iff split: if_splits)

lemma tcp_step_left:
  assumes "stopped sv" and "tcp_step (accept_turn again kern) kern h p sv = Inr sv'"
  shows "stopped sv' \<and> (sv_main sv = Main_Returned \<longrightarrow> sv_main sv' = Main_Returned) \<and> (sv' = sv \<or> work_left sv' < work_left sv)"
  using assms accept_turn_left[OF assms(1)] event_thread_left[OF assms(1)] take_left[OF assms(1)] perform_left[OF assms(1)]
    main_left_step[OF assms(1)] by (cases p) fastforce+

text \<open>Who makes no progress has returned or waits for another.\<close>

lemma accept_idle: "stopped sv \<Longrightarrow> accept_turn again kern sv = Inr sv \<Longrightarrow> sv_accept sv = Accept_Returned"
  by (cases "sv_accept sv") (auto simp: accept_turn_def stopped_def rbind_Inr_iff dest!: arg_cong[of _ _ sv_accept])

lemma event_idle: "stopped sv \<Longrightarrow> event_thread kern sv = Inr sv \<Longrightarrow> sv_event sv = Event_Returned"
  by (cases "sv_event sv") (auto simp: event_thread_def stopped_def rbind_Inr_iff dest!: arg_cong[of _ _ sv_event])

lemma perform_idle:
  assumes "stopped sv" and "worker_perform h kern 0 sv = Inr sv"
  shows "sv_running sv = []"
proof (cases "sv_running sv")
  case (Cons j J)
  obtain nxt e where t: "job_turn h kern j (sv_ep sv) = Inr (nxt, e)"
    "sv = sv\<lparr>sv_ep := e, sv_running := (case nxt of None \<Rightarrow> [] | Some job \<Rightarrow> [job]) @ J\<rparr>"
    using assms(2) Cons by (auto simp: worker_perform_def rbind_Inr_iff)
  from arg_cong[OF t(2), of "\<lambda>sv. sum_list (map job_left (sv_running sv))"] job_turn_left[OF t(1)] Cons
  show ?thesis by (simp split: option.splits)
qed

lemma main_idle:
  assumes "stopped sv" and "main_thread kern sv = Inr sv"
  shows "sv_main sv = Main_Returned \<or> sv_accept sv \<noteq> Accept_Returned \<or> sv_event sv \<noteq> Event_Returned \<or> sv_running sv \<noteq> []"
  using assms
  by (cases "sv_main sv") (auto simp: main_thread_def stopped_def rbind_Inr_iff split: if_splits dest!: arg_cong[of _ _ sv_main])

lemma crew_enabled:
  assumes "stopped sv" and "sv_main sv \<noteq> Main_Returned"
  shows "\<exists>p \<in> crew. tcp_step (accept_turn again kern) kern h p sv \<noteq> Inr sv"
  using accept_idle[OF assms(1), of again kern] event_idle[OF assms(1), of kern] perform_idle[OF assms(1), of h kern]
    main_idle[OF assms(1), of kern] assms(2)
  by (auto simp: crew_def)

interpretation shutting_down: fair_progress "tcp_step (accept_turn again kern) kern h" stopped "\<lambda>sv. sv_main sv = Main_Returned"
    work_left crew
  for again kern h
proof
  show "stopped sv'" if "stopped sv" "tcp_step (accept_turn again kern) kern h p sv = Inr sv'" for sv p sv'
    using tcp_step_left[OF that] by simp
  show "sv' = sv \<or> work_left sv' < work_left sv" if "stopped sv" "tcp_step (accept_turn again kern) kern h p sv = Inr sv'" for sv p sv'
    using tcp_step_left[OF that] by simp
  show "\<exists>p \<in> crew. tcp_step (accept_turn again kern) kern h p sv \<noteq> Inr sv" if "stopped sv" "sv_main sv \<noteq> Main_Returned" for sv
    by (rule crew_enabled[OF that])
  show "sv_main sv' = Main_Returned" if "stopped sv" "sv_main sv = Main_Returned" "tcp_step (accept_turn again kern) kern h p sv = Inr sv'"
    for sv p sv'
    using tcp_step_left[OF that(1,3)] that(2) by simp
qed

text \<open>Whoever has input sets \<open>stop\<close>.\<close>

lemma tcp_step_input:
  assumes "tcp_step (accept_turn again kern) kern h p sv = Inr sv'" and "sv_main sv \<noteq> Main_Input \<longrightarrow> sv_stop sv"
  shows "sv_main sv' \<noteq> Main_Input \<longrightarrow> sv_stop sv'"
proof (cases p)
  case Acceptor
  then show ?thesis using assms by (cases "sv_accept sv") (auto simp: accept_turn_def rbind_Inr_iff)
next
  case Processor
  then show ?thesis using assms by (cases "sv_event sv") (auto simp: event_thread_def rbind_Inr_iff)
next
  case Taker
  then show ?thesis using assms by (auto simp: worker_take_def split: list.splits if_splits)
next
  case (Performer i)
  then show ?thesis using assms by (auto simp: worker_perform_def rbind_Inr_iff split: if_splits)
next
  case Main_Thread
  then show ?thesis using assms by (cases "sv_main sv") (auto simp: main_thread_def rbind_Inr_iff split: if_splits)
qed

lemma tcp_run_stopped:
  assumes "rbind (tcp_start pc kern e) (rfold (tcp_step (accept_turn again kern) kern h) sched) = Inr sv"
    and "sv_main sv \<noteq> Main_Input"
  shows "stopped sv"
proof -
  obtain sv0 where sv0: "tcp_start pc kern e = Inr sv0" "rfold (tcp_step (accept_turn again kern) kern h) sched sv0 = Inr sv"
    using assms(1) by (auto simp: rbind_Inr_iff)
  have "sv_main sv0 \<noteq> Main_Input \<longrightarrow> sv_stop sv0" using sv0(1) by (auto simp: tcp_start_def rbind_Inr_iff)
  from rfold_invariant[of "\<lambda>sv. sv_main sv \<noteq> Main_Input \<longrightarrow> sv_stop sv", OF this _ sv0(2)] tcp_step_input assms(2)
  show ?thesis unfolding stopped_def by metis
qed

lemma work_bound: "work_left sv \<le> 15 + 4 * length (sv_jobs sv) + 3 * length (sv_running sv)"
proof -
  have "accept_left (sv_accept sv) \<le> 3" by (cases "sv_accept sv") simp_all
  moreover have "event_left (sv_event sv) \<le> 7" by (cases "sv_event sv") simp_all
  moreover have "main_left (sv_main sv) \<le> 5" by (cases "sv_main sv") simp_all
  moreover have "job_left j \<le> 3" for j by (cases j) simp_all
  then have "sum_list (map job_left (sv_running sv)) \<le> sum_list (map (\<lambda>j. 3) (sv_running sv))" by (intro sum_list_mono)
  then have "sum_list (map job_left (sv_running sv)) \<le> 3 * length (sv_running sv)" by (simp add: sum_list_triv)
  ultimately show ?thesis unfolding work_left_def by linarith
qed

lemma tcp_run_finishes:
  assumes "rbind (tcp_start pc kern e) (rfold (tcp_step (accept_turn again kern) kern h) sched) = Inr sv"
    and "sv_main sv \<noteq> Main_Input" and "\<forall>r \<in> set rounds. crew \<subseteq> set r"
    and "15 + 4 * length (sv_jobs sv) + 3 * length (sv_running sv) < length rounds"
    and "rfold (tcp_step (accept_turn again kern) kern h) (concat rounds) sv = Inr sv'"
  shows "sv_main sv' = Main_Returned"
  using shutting_down.rounds_finish[OF assms(5) tcp_run_stopped[OF assms(1,2)] assms(3)] work_bound[of sv] assms(4) by simp

section \<open>Properties\<close>

text \<open>C6: Once \<open>main\<close> has its input, both servers shut down.  Whatever the kernel answers, whatever was scheduled before and whatever
  the clients send: in a schedule of more than \<open>15 + 4 * |jobs| + 3 * |running|\<close> rounds, in each of which the accept
  thread, the event thread, a worker with a job in hand and \<open>main\<close> have a turn (any other turns may come between), no thread waits
  for ever, so that \<open>main\<close> has joined them all, closed the endpoint and returned, unless a turn runs into a fault.  The pool is
  here its contract, whose join happens as soon as no job is in hand; the signal that \<open>w_join\<close> of \<open>workers.c\<close> can lose is the subject
  of \<open>Pool_Properties\<close>.\<close>

theorem servers_shut_down:
  assumes "\<forall>r \<in> set rounds. {Acceptor, Processor, Performer 0, Main_Thread} \<subseteq> set r"
    and "sv_main sv \<noteq> Main_Input" and "15 + 4 * length (sv_jobs sv) + 3 * length (sv_running sv) < length rounds"
  shows "(server_run kern net junk sched e = Inr sv \<and> rfold (server_step kern net junk) (concat rounds) sv = Inr sv' \<longrightarrow>
      sv_main sv' = Main_Returned) \<and>
    (html_server_run kern net frames sched e = Inr sv \<and> rfold (html_server_step kern net frames) (concat rounds) sv = Inr sv' \<longrightarrow>
      sv_main sv' = Main_Returned)"
proof (intro conjI impI)
  have crew: "\<forall>r \<in> set rounds. crew \<subseteq> set r" using assms(1) by (simp add: crew_def)
  show "sv_main sv' = Main_Returned"
    if "server_run kern net junk sched e = Inr sv \<and> rfold (server_step kern net junk) (concat rounds) sv = Inr sv'"
    using tcp_run_finishes[OF _ assms(2) crew assms(3)] that
    unfolding server_run_def server_start_def server_step_def accept_thread_def by blast
  show "sv_main sv' = Main_Returned"
    if "html_server_run kern net frames sched e = Inr sv \<and> rfold (html_server_step kern net frames) (concat rounds) sv = Inr sv'"
    using tcp_run_finishes[OF _ assms(2) crew assms(3)] that
    unfolding html_server_run_def html_server_start_def html_server_step_def html_accept_thread_def by blast
qed

lemma demo_end:
  "case server_run calc_world calc_client (\<lambda>_. zeros 128) demo_schedule ep40 of
     Inl f \<Rightarrow> False
   | Inr sv \<Rightarrow> sv_accept sv = Accept_Returned \<and> sv_event sv = Event_Returned \<and> sv_jobs sv = [] \<and> sv_running sv = []"
  by code_simp

lemma servers_shut_down_witness:
  "\<exists>sv sv'. server_run calc_world calc_client (\<lambda>_. zeros 128) demo_schedule ep40 = Inr sv \<and> sv_main sv = Main_Close \<and>
    rfold (server_step calc_world calc_client (\<lambda>_. zeros 128))
      (concat (replicate 16 [Acceptor, Processor, Performer 0, Main_Thread])) sv = Inr sv' \<and> sv_main sv' = Main_Returned"
proof -
  let ?r = "[Acceptor, Processor, Performer 0, Main_Thread]"
    and ?step = "server_step calc_world calc_client (\<lambda>_. zeros 128)"
  obtain sv where sv: "server_run calc_world calc_client (\<lambda>_. zeros 128) demo_schedule ep40 = Inr sv" "sv_main sv = Main_Close"
    "sv_accept sv = Accept_Returned" "sv_event sv = Event_Returned" "sv_jobs sv = []" "sv_running sv = []"
    using demo_run demo_end by (auto split: sum.splits)
  obtain sv1 where "server_run calc_world calc_client (\<lambda>_. zeros 128) (demo_schedule @ [Main_Thread]) ep40 = Inr sv1"
    by (rule demo_shutdown)
  then have "main_thread calc_world sv = Inr sv1"
    using sv(1) by (auto simp: server_run_def server_step_def rfold_append rbind_Inr_iff)
  then obtain e where e: "main_thread calc_world sv = Inr (sv\<lparr>sv_ep := e, sv_main := Main_Returned\<rparr>)"
    using sv(2) by (auto simp: main_thread_def rbind_Inr_iff)
  let ?sv = "sv\<lparr>sv_ep := e, sv_main := Main_Returned\<rparr>"
  note turns = server_step_def accept_thread_def accept_turn_def event_thread_def worker_perform_def
  have first: "rfold ?step ?r sv = Inr ?sv" using sv(3,4,6) e by (simp add: turns)
  have "\<forall>p \<in> set (concat (replicate 15 ?r)). ?step p ?sv = Inr ?sv" using sv(3,4,6) by (auto simp: turns main_thread_def)
  then have "rfold ?step (concat (replicate 15 ?r)) ?sv = Inr ?sv" by (rule rfold_idle)
  moreover have "concat (replicate 16 ?r) = ?r @ concat (replicate 15 ?r)" by (simp add: numeral_eq_Suc)
  ultimately have run: "rfold ?step (concat (replicate 16 ?r)) sv = Inr ?sv" by (simp only: rfold_append first rbind_simps)
  have "sv_main ?sv = Main_Returned"
    using servers_shut_down[of "replicate 16 ?r" sv calc_world calc_client "\<lambda>_. zeros 128" demo_schedule ep40 ?sv] sv run by simp
  then show ?thesis using sv(1,2) run by blast
qed

end
