(* ===== verification/Epoll_Experiments.thy ===== *)
theory Epoll_Experiments
  imports Endpoint Interfaces
begin

text \<open>
  The two stand-alone programs that try out how an epoll instance wakes a waiting thread:
  \<open>apps/Server_example.c\<close>, a server that greets every client and hangs up, and \<open>apps/Epoll_test.c\<close>.
  Both have a thread that waits on the instance and a \<open>main\<close> that ends the wait by adding an eventfd
  that is readable from the start; they are actors that take turns in any order, a turn being one call
  (or the calls of one function), and a join waits by leaving the state as it is.  \<open>errno\<close> is a function
  of the calls made before.  An \<open>eventfd_t\<close> has 64 bits, so the descriptor of the eventfd is converted
  back and forth.  What the programs print is left out.
\<close>

section \<open>A server that greets its clients\<close>

type_synonym errno = "syscall list \<Rightarrow> int"

datatype side_pc = Side_Wait | Side_Accept | Side_Send int | Side_Flush int | Side_Returned

datatype example_pc = Example_Input | Example_Signal | Example_Join | Example_Close | Example_Returned

record example =
  x_ep_instance :: int
  x_signaler :: "64 word"
  x_srv_fd :: int
  x_event :: "epoll_event option"
  x_side :: side_pc
  x_main :: example_pc
  x_log :: "syscall list"

definition create_epoll_event_test :: "int \<Rightarrow> 32 word \<Rightarrow> epoll_event" where
  "create_epoll_event_test fd events = \<lparr>ev_events = events, ev_fd = fd\<rparr>"

definition flush_and_close :: "kernel \<Rightarrow> int \<Rightarrow> syscall list \<Rightarrow> syscall list" where
  "flush_and_close kern socket_fd log =
    (let (_, log) = log_sys kern (Shutdown socket_fd SHUT_WR) log;
         (_, log) = log_sys kern (Close socket_fd) log
     in log)"

definition example_server_socket :: "kernel \<Rightarrow> int \<Rightarrow> syscall list \<Rightarrow> int \<times> syscall list" where
  "example_server_socket kern PORT_NUMBER log =
    (let (srv_fd, log) = log_sys kern (Socket AF_INET SOCK_STREAM 0) log;
         (flags, log) = log_sys kern (Fcntl_Getfl srv_fd) log;
         (_, log) = log_sys kern (Fcntl_Setfl srv_fd (word_of_int flags OR O_NONBLOCK)) log;
         (_, log) = log_sys kern (Bind srv_fd \<lparr>sin_family = AF_INET, sin_port = htons PORT_NUMBER, sin_addr = 0\<rparr>) log;
         (_, log) = log_sys kern (Listen srv_fd 512) log
     in (srv_fd, log))"

definition greeting :: string where
  "greeting = ''Connection established <3 Goodbye!'' @ [LF]"

text \<open>The thread \<open>side_proc\<close>.  The structure \<open>event\<close> is not initialised: \<open>x_event\<close> is \<open>None\<close> until
  \<open>epoll_wait\<close> has stored an event, and keeps the last one.\<close>

definition example_side :: "kernel \<Rightarrow> errno \<Rightarrow> example \<Rightarrow> example result" where
  "example_side kern err s = (case x_side s of
      Side_Wait \<Rightarrow>
        (let c = Epoll_Wait (x_ep_instance s) 1 1000;
             (event_count, log) = log_sys kern c (x_log s);
             event = (case snd (kern (x_log s) c) of [] \<Rightarrow> x_event s | ev # _ \<Rightarrow> Some ev);
             s = s\<lparr>x_event := event, x_log := log\<rparr>
         in if event_count = 0 then Inr s
            else if event_count = -1 \<and> err log = EINTR then Inr s
            else case event of
                None \<Rightarrow> Inl Uninit_Read
              | Some ev \<Rightarrow> Inr (s\<lparr>x_side := if word_of_int (ev_fd ev) = x_signaler s then Side_Returned else Side_Accept\<rparr>))
    | Side_Accept \<Rightarrow>
        (let (new_socket, log) = log_sys kern (Accept (x_srv_fd s)) (x_log s)
         in Inr (s\<lparr>x_log := log, x_side := if new_socket \<noteq> -1 then Side_Send new_socket else Side_Wait\<rparr>))
    | Side_Send new_socket \<Rightarrow>
        (let (_, log) = log_sys kern (Send new_socket greeting) (x_log s)
         in Inr (s\<lparr>x_log := log, x_side := Side_Flush new_socket\<rparr>))
    | Side_Flush new_socket \<Rightarrow> Inr (s\<lparr>x_log := flush_and_close kern new_socket (x_log s), x_side := Side_Accept\<rparr>)
    | Side_Returned \<Rightarrow> Inr s)"

text \<open>\<open>main\<close> up to the start of the thread, and the rest of it.\<close>

definition example_start :: "kernel \<Rightarrow> example" where
  "example_start kern =
    (let (ep_instance, log) = log_sys kern (Epoll_Create 0) [];
         (srv_fd, log) = example_server_socket kern 7999 log;
         srv_events = create_epoll_event_test srv_fd (EPOLLIN OR EPOLLET OR EPOLLWAKEUP);
         (_, log) = log_sys kern (Epoll_Ctl ep_instance EPOLL_CTL_ADD srv_fd (Some srv_events)) log;
         (signaler, log) = log_sys kern (Eventfd 1 0) log
     in \<lparr>x_ep_instance = ep_instance, x_signaler = word_of_int signaler, x_srv_fd = srv_fd, x_event = None,
         x_side = Side_Wait, x_main = Example_Input, x_log = log\<rparr>)"

definition example_main :: "kernel \<Rightarrow> example \<Rightarrow> example result" where
  "example_main kern s = (case x_main s of
      Example_Input \<Rightarrow> Inr (s\<lparr>x_main := Example_Signal\<rparr>)
    | Example_Signal \<Rightarrow>
        (let signaler_events = create_epoll_event_test (to_int (x_signaler s)) EPOLLIN;
             (_, log) = log_sys kern (Epoll_Ctl (x_ep_instance s) EPOLL_CTL_ADD (to_int (x_signaler s)) (Some signaler_events)) (x_log s)
         in Inr (s\<lparr>x_log := log, x_main := Example_Join\<rparr>))
    | Example_Join \<Rightarrow> Inr (if x_side s = Side_Returned then s\<lparr>x_main := Example_Close\<rparr> else s)
    | Example_Close \<Rightarrow>
        (let (_, log) = log_sys kern (Close (to_int (x_signaler s))) (x_log s);
             (_, log) = log_sys kern (Close (x_ep_instance s)) log
         in Inr (s\<lparr>x_log := log, x_main := Example_Returned\<rparr>))
    | Example_Returned \<Rightarrow> Inr s)"

datatype example_actor = Example_Side | Example_Main

fun example_step :: "kernel \<Rightarrow> errno \<Rightarrow> example_actor \<Rightarrow> example \<Rightarrow> example result" where
  "example_step kern err Example_Side s = example_side kern err s"
| "example_step kern err Example_Main s = example_main kern s"

definition example_run :: "kernel \<Rightarrow> errno \<Rightarrow> example_actor list \<Rightarrow> example result" where
  "example_run kern err sched = rfold (example_step kern err) sched (example_start kern)"

text \<open>What is owed to a client that was accepted, and what is still owed to the last one.\<close>

definition farewell :: "int \<Rightarrow> syscall list" where
  "farewell fd = [Send fd greeting, Shutdown fd SHUT_WR, Close fd]"

fun owed :: "side_pc \<Rightarrow> syscall list" where
  "owed (Side_Send fd) = farewell fd"
| "owed (Side_Flush fd) = tl (farewell fd)"
| "owed _ = []"

fun is_ctl :: "syscall \<Rightarrow> bool" where
  "is_ctl (Epoll_Ctl sel op fd ev) = True"
| "is_ctl _ = False"

definition clients_greeted :: "kernel \<Rightarrow> int \<Rightarrow> syscall list \<Rightarrow> syscall list \<Rightarrow> bool" where
  "clients_greeted kern srv due log \<longleftrightarrow> (\<forall>l l'. log = l @ Accept srv # l' \<longrightarrow> fst (kern l (Accept srv)) \<noteq> -1 \<longrightarrow>
    (\<exists>k. filter (\<lambda>c. \<not> is_ctl c) l' @ due = farewell (fst (kern l (Accept srv))) @ k))"

lemma greeted_other:
  assumes "clients_greeted kern srv due log" and "c \<noteq> Accept srv"
    and "due = (if is_ctl c then due' else c # due') \<or> due = [] \<and> due' = []"
  shows "clients_greeted kern srv due' (log @ [c])"
  unfolding clients_greeted_def snoc_split
proof (intro allI impI)
  fix l l'
  assume "l' = [] \<and> Accept srv = c \<and> l = log \<or> (\<exists>k. l' = k @ [c] \<and> log = l @ Accept srv # k)"
    and ok: "fst (kern l (Accept srv)) \<noteq> -1"
  then obtain k where k: "l' = k @ [c]" "log = l @ Accept srv # k" using assms(2) by auto
  then obtain r where "filter (\<lambda>c. \<not> is_ctl c) k @ due = farewell (fst (kern l (Accept srv))) @ r"
    using assms(1) ok unfolding clients_greeted_def by blast
  then show "\<exists>r. filter (\<lambda>c. \<not> is_ctl c) l' @ due' = farewell (fst (kern l (Accept srv))) @ r"
    using k(1) assms(3) by (auto split: if_splits)
qed

lemma greeted_accept:
  assumes "clients_greeted kern srv [] log" and "fst (kern log (Accept srv)) = fd"
  shows "clients_greeted kern srv (if fd \<noteq> -1 then farewell fd else []) (log @ [Accept srv])"
  unfolding clients_greeted_def snoc_split
proof (intro allI impI)
  fix l l'
  assume split: "l' = [] \<and> Accept srv = Accept srv \<and> l = log \<or> (\<exists>k. l' = k @ [Accept srv] \<and> log = l @ Accept srv # k)"
    and ok: "fst (kern l (Accept srv)) \<noteq> -1"
  from split show "\<exists>r. filter (\<lambda>c. \<not> is_ctl c) l' @ (if fd \<noteq> -1 then farewell fd else []) = farewell (fst (kern l (Accept srv))) @ r"
  proof (elim disjE exE)
    fix k assume k: "l' = k @ [Accept srv] \<and> log = l @ Accept srv # k"
    then obtain r where "filter (\<lambda>c. \<not> is_ctl c) k = farewell (fst (kern l (Accept srv))) @ r"
      using assms(1) ok unfolding clients_greeted_def by fastforce
    then show ?thesis using k by simp
  qed (use assms(2) ok in auto)
qed

text \<open>The invariant of the program.\<close>

definition example_inv :: "kernel \<Rightarrow> example \<Rightarrow> bool" where
  "example_inv kern s \<longleftrightarrow>
    x_ep_instance s = x_ep_instance (example_start kern) \<and> x_signaler s = x_signaler (example_start kern) \<and>
    x_srv_fd s = x_srv_fd (example_start kern) \<and>
    clients_greeted kern (x_srv_fd s) (owed (x_side s)) (x_log s) \<and>
    (x_main s \<in> {Example_Close, Example_Returned} \<longrightarrow> x_side s = Side_Returned) \<and>
    (x_main s = Example_Returned \<longrightarrow>
      (\<exists>log. x_log s = log @ [Close (to_int (x_signaler s)), Close (x_ep_instance s)]))"

lemma example_inv_start: "example_inv kern (example_start kern)"
proof -
  have "clients_greeted kern srv [] log" if "\<forall>c \<in> set log. c \<noteq> Accept srv" for srv log
    using that by (auto simp: clients_greeted_def)
  then show ?thesis
    by (simp add: example_inv_def example_start_def example_server_socket_def log_sys_def Let_def)
qed

lemma example_greeted: "example_inv kern s \<Longrightarrow> clients_greeted kern (x_srv_fd s) (owed (x_side s)) (x_log s)"
  unfolding example_inv_def by blast

text \<open>A turn of the thread keeps what \<open>main\<close> has done.\<close>

lemma example_side_inv:
  assumes "example_inv kern s" and "example_side kern err s = Inr s'"
  shows "example_inv kern s'"
proof (cases "x_side s")
  case Side_Wait
  let ?c = "Epoll_Wait (x_ep_instance s) 1 1000"
  have "clients_greeted kern (x_srv_fd s) [] (x_log s @ [?c])"
    by (rule greeted_other[of kern _ "[]"]) (use example_greeted[OF assms(1)] Side_Wait in simp_all)
  moreover have "x_main s \<notin> {Example_Close, Example_Returned}" using assms(1) Side_Wait by (auto simp: example_inv_def)
  ultimately show ?thesis
    using assms Side_Wait
    by (auto simp: example_inv_def example_side_def log_sys_def Let_def split: if_splits list.splits option.splits)
next
  case Side_Accept
  let ?fd = "fst (kern (x_log s) (Accept (x_srv_fd s)))"
  have "clients_greeted kern (x_srv_fd s) (if ?fd \<noteq> -1 then farewell ?fd else []) (x_log s @ [Accept (x_srv_fd s)])"
    by (rule greeted_accept) (use example_greeted[OF assms(1)] Side_Accept in simp_all)
  then show ?thesis using assms Side_Accept
    by (auto simp: example_inv_def example_side_def log_sys_def Let_def split: if_splits)
next
  case (Side_Send fd)
  have "clients_greeted kern (x_srv_fd s) (tl (farewell fd)) (x_log s @ [Send fd greeting])"
    by (rule greeted_other[of kern _ "farewell fd"]) (use example_greeted[OF assms(1)] Side_Send in \<open>simp_all add: farewell_def\<close>)
  then show ?thesis using assms Side_Send
    by (auto simp: example_inv_def example_side_def log_sys_def Let_def)
next
  case (Side_Flush fd)
  have "clients_greeted kern (x_srv_fd s) [Close fd] (x_log s @ [Shutdown fd SHUT_WR])"
    by (rule greeted_other[of kern _ "tl (farewell fd)"]) (use example_greeted[OF assms(1)] Side_Flush in \<open>simp_all add: farewell_def\<close>)
  then have "clients_greeted kern (x_srv_fd s) [] ((x_log s @ [Shutdown fd SHUT_WR]) @ [Close fd])"
    by (rule greeted_other) simp_all
  then show ?thesis using assms Side_Flush
    by (auto simp: example_inv_def example_side_def flush_and_close_def log_sys_def Let_def)
qed (use assms in \<open>simp add: example_side_def\<close>)

lemma example_main_inv:
  assumes "example_inv kern s" and "example_main kern s = Inr s'"
  shows "example_inv kern s'"
proof (cases "x_main s")
  case Example_Signal
  have "clients_greeted kern (x_srv_fd s) (owed (x_side s)) (x_log s @ [Epoll_Ctl sel op fd ev])" for sel op fd ev
    by (rule greeted_other[of kern _ "owed (x_side s)"]) (use example_greeted[OF assms(1)] in simp_all)
  then show ?thesis using assms Example_Signal by (auto simp: example_inv_def example_main_def log_sys_def Let_def)
next
  case Example_Close
  have r: "x_side s = Side_Returned" using assms(1) Example_Close by (simp add: example_inv_def)
  have "clients_greeted kern (x_srv_fd s) [] ((x_log s @ [Close a]) @ [Close b])" for a b
    by (rule greeted_other[of kern _ "[]"], rule greeted_other[of kern _ "[]"]) (use example_greeted[OF assms(1)] r in simp_all)
  then show ?thesis using assms Example_Close r by (auto simp: example_inv_def example_main_def log_sys_def Let_def)
qed (use assms in \<open>auto simp: example_inv_def example_main_def split: if_splits\<close>)

lemma example_side_fault: "example_side kern err s = Inl f \<Longrightarrow> f = Uninit_Read"
  by (auto simp: example_side_def Let_def log_sys_def split: side_pc.splits if_splits option.splits)

lemma example_main_total: "\<exists>s'. example_main kern s = Inr s'"
  by (cases "x_main s") (auto simp: example_main_def Let_def log_sys_def)

interpretation example: guarded_steps "\<lambda>n s. example_inv kern s" "example_step kern err" 0 "{Uninit_Read}"
  for kern err
proof
  fix n :: nat and s p
  assume inv: "example_inv kern s"
  show "case example_step kern err p s of Inl e \<Rightarrow> e \<in> {Uninit_Read} | Inr s' \<Rightarrow> example_inv kern s'"
  proof (cases p)
    case Example_Side
    then show ?thesis using example_side_inv[OF inv, of err] example_side_fault[of kern err s]
      by (cases "example_side kern err s") simp_all
  next
    case Example_Main
    then show ?thesis using example_main_inv[OF inv] example_main_total[of kern s] by (cases "example_main kern s") auto
  qed
qed

lemma example_run_inv:
  "case example_run kern err sched of Inl f \<Rightarrow> f = Uninit_Read | Inr s \<Rightarrow> example_inv kern s"
  using example.run_ok[of kern "example_start kern" err sched] example_inv_start[of kern]
  by (auto simp: example_run_def split: sum.splits)

section \<open>The test program\<close>

datatype probe_side = Probe_Wait | Probe_Returned

datatype probe_main = Probe_Eventfd | Probe_Signal | Probe_Join | Probe_End | Probe_Done

record probe =
  p_ep_instance :: int
  p_signaler :: "64 word"
  p_side :: probe_side
  p_main :: probe_main
  p_log :: "syscall list"

definition probe_start :: "kernel \<Rightarrow> probe" where
  "probe_start kern =
    (let (ep_instance, log) = log_sys kern (Epoll_Create 0) []
     in \<lparr>p_ep_instance = ep_instance, p_signaler = 0, p_side = Probe_Wait, p_main = Probe_Eventfd, p_log = log\<rparr>)"

definition probe_side_proc :: "kernel \<Rightarrow> probe \<Rightarrow> probe" where
  "probe_side_proc kern s = (case p_side s of
      Probe_Wait \<Rightarrow>
        (let (event_count, log) = log_sys kern (Epoll_Wait (p_ep_instance s) 1 10000) (p_log s)
         in s\<lparr>p_log := log, p_side := if event_count = 0 then Probe_Wait else Probe_Returned\<rparr>)
    | Probe_Returned \<Rightarrow> s)"

definition probe_epoll_event :: "int \<Rightarrow> 32 word \<Rightarrow> epoll_event" where
  "probe_epoll_event fd events = \<lparr>ev_events = events, ev_fd = fd\<rparr>"

definition signal_event :: "probe \<Rightarrow> epoll_event" where
  "signal_event s = probe_epoll_event (to_int (p_signaler s)) EPOLLIN"

definition probe_main_proc :: "kernel \<Rightarrow> probe \<Rightarrow> probe" where
  "probe_main_proc kern s = (case p_main s of
      Probe_Eventfd \<Rightarrow>
        (let (signaler, log) = log_sys kern (Eventfd 2 0) (p_log s)
         in s\<lparr>p_signaler := word_of_int signaler, p_log := log, p_main := Probe_Signal\<rparr>)
    | Probe_Signal \<Rightarrow>
        (let (_, log) = log_sys kern (Epoll_Ctl (p_ep_instance s) EPOLL_CTL_ADD (to_int (p_signaler s)) (Some (signal_event s))) (p_log s)
         in s\<lparr>p_log := log, p_main := Probe_Join\<rparr>)
    | Probe_Join \<Rightarrow> if p_side s = Probe_Returned then s\<lparr>p_main := Probe_End\<rparr> else s
    | Probe_End \<Rightarrow>
        (let (_, log) = log_sys kern (Epoll_Ctl (p_ep_instance s) EPOLL_CTL_DEL (to_int (p_signaler s)) (Some (signal_event s))) (p_log s);
             (_, log) = log_sys kern (Close (to_int (p_signaler s))) log;
             (_, log) = log_sys kern (Close (p_ep_instance s)) log
         in s\<lparr>p_log := log, p_main := Probe_Done\<rparr>)
    | Probe_Done \<Rightarrow> s)"

fun probe_step :: "kernel \<Rightarrow> example_actor \<Rightarrow> probe \<Rightarrow> probe" where
  "probe_step kern Example_Side s = probe_side_proc kern s"
| "probe_step kern Example_Main s = probe_main_proc kern s"

definition probe_run :: "kernel \<Rightarrow> example_actor list \<Rightarrow> probe" where
  "probe_run kern sched = fold (probe_step kern) sched (probe_start kern)"

text \<open>What \<open>main\<close> has called when it has come to some point, the waits of the thread left out.\<close>

fun is_wait :: "syscall \<Rightarrow> bool" where
  "is_wait (Epoll_Wait fd n t) = True"
| "is_wait _ = False"

fun probe_calls :: "int \<Rightarrow> int \<Rightarrow> probe_main \<Rightarrow> syscall list" where
  "probe_calls sel sig Probe_Eventfd = [Epoll_Create 0]"
| "probe_calls sel sig Probe_Signal = [Epoll_Create 0, Eventfd 2 0]"
| "probe_calls sel sig Probe_Done =
    [Epoll_Create 0, Eventfd 2 0, Epoll_Ctl sel EPOLL_CTL_ADD sig (Some \<lparr>ev_events = EPOLLIN, ev_fd = sig\<rparr>),
     Epoll_Ctl sel EPOLL_CTL_DEL sig (Some \<lparr>ev_events = EPOLLIN, ev_fd = sig\<rparr>), Close sig, Close sel]"
| "probe_calls sel sig _ =
    [Epoll_Create 0, Eventfd 2 0, Epoll_Ctl sel EPOLL_CTL_ADD sig (Some \<lparr>ev_events = EPOLLIN, ev_fd = sig\<rparr>)]"

definition probe_inv :: "probe \<Rightarrow> bool" where
  "probe_inv s \<longleftrightarrow>
    filter (\<lambda>c. \<not> is_wait c) (p_log s) = probe_calls (p_ep_instance s) (to_int (p_signaler s)) (p_main s) \<and>
    (p_main s \<in> {Probe_End, Probe_Done} \<longrightarrow> p_side s = Probe_Returned)"

lemmas probe_defs = probe_side_proc_def probe_main_proc_def signal_event_def probe_epoll_event_def log_sys_def Let_def

lemma probe_inv_step: "probe_inv s \<Longrightarrow> probe_inv (probe_step kern p s)"
  by (cases p; cases "p_main s"; cases "p_side s") (simp_all add: probe_inv_def probe_defs)

lemma probe_run_inv: "probe_inv (probe_run kern sched)"
proof -
  have "probe_inv s \<Longrightarrow> probe_inv (fold (probe_step kern) sched s)" for s
    by (induction sched arbitrary: s) (simp_all add: probe_inv_step)
  moreover have "probe_inv (probe_start kern)" by (simp add: probe_inv_def probe_start_def log_sys_def)
  ultimately show ?thesis by (simp add: probe_run_def)
qed

lemma probe_run_append: "probe_run kern (sched @ ps) = fold (probe_step kern) ps (probe_run kern sched)"
  by (simp add: probe_run_def)

section \<open>Properties\<close>

text \<open>C34: The greeting server, under every schedule of its two threads and for every kernel: when \<open>main\<close> has
  returned the thread has returned, the last two calls close the eventfd and the epoll instance, and
  every client that was ever accepted was sent the greeting, shut down and closed, with no other call of
  the thread in between; before that the only fault is the event structure that is read although no
  wait has ever stored an event.\<close>

theorem example_greets_all:
  shows "case example_run kern err sched of Inl f \<Rightarrow> f = Uninit_Read | Inr s \<Rightarrow> x_main s = Example_Returned \<longrightarrow>
    x_side s = Side_Returned \<and> (\<exists>log. x_log s = log @ [Close (to_int (x_signaler s)), Close (x_ep_instance s)]) \<and>
    (\<forall>l l'. x_log s = l @ Accept (x_srv_fd s) # l' \<and> fst (kern l (Accept (x_srv_fd s))) \<noteq> -1 \<longrightarrow>
      (\<exists>k. filter (\<lambda>c. \<not> is_ctl c) l' = farewell (fst (kern l (Accept (x_srv_fd s)))) @ k))"
proof (cases "example_run kern err sched")
  case (Inr s)
  then have inv: "example_inv kern s" using example_run_inv[of kern err sched] by simp
  have "\<exists>k. filter (\<lambda>c. \<not> is_ctl c) l' = farewell (fst (kern l (Accept (x_srv_fd s)))) @ k"
    if "x_side s = Side_Returned" "x_log s = l @ Accept (x_srv_fd s) # l'" "fst (kern l (Accept (x_srv_fd s))) \<noteq> -1" for l l'
    using example_greeted[OF inv] that unfolding clients_greeted_def by fastforce
  moreover have "x_main s = Example_Returned \<Longrightarrow> x_side s = Side_Returned \<and>
      (\<exists>log. x_log s = log @ [Close (to_int (x_signaler s)), Close (x_ep_instance s)])"
    using inv unfolding example_inv_def by blast
  ultimately show ?thesis using Inr by simp
qed (use example_run_inv[of kern err sched] in simp)

text \<open>A kernel on which one client, 9, is accepted before the eventfd is reported.\<close>

definition example_world :: kernel where
  "example_world log c = (case c of
      Epoll_Create n \<Rightarrow> (3, [])
    | Socket d t p \<Rightarrow> (4, [])
    | Eventfd n f \<Rightarrow> (5, [])
    | Accept fd \<Rightarrow> (if 10 \<le> length log then -1 else 9, [])
    | Epoll_Wait fd n t \<Rightarrow> (1, [\<lparr>ev_events = EPOLLIN, ev_fd = (if 10 \<le> length log then 5 else 4)\<rparr>])
    | _ \<Rightarrow> (0, []))"

definition example_schedule :: "example_actor list" where
  "example_schedule = [Example_Side, Example_Side, Example_Side, Example_Main, Example_Main]"

lemma example_greets_all_witness:
  "\<exists>s. example_run example_world (\<lambda>_. 0) (example_schedule @ [Example_Side, Example_Side, Example_Side, Example_Main, Example_Main]) = Inr s \<and>
    x_main s = Example_Returned \<and> x_side s = Side_Returned \<and> [Send 9 greeting, Shutdown 9 SHUT_WR] = take 2 (farewell 9)"
proof -
  let ?sched = "example_schedule @ [Example_Side, Example_Side, Example_Side, Example_Main, Example_Main]"
  have "case example_run example_world (\<lambda>_. 0) ?sched of Inl f \<Rightarrow> False | Inr s \<Rightarrow> x_main s = Example_Returned"
    by code_simp
  then obtain s where s: "example_run example_world (\<lambda>_. 0) ?sched = Inr s" "x_main s = Example_Returned"
    by (auto split: sum.splits)
  then show ?thesis using example_greets_all[of example_world "\<lambda>_. 0" ?sched] by (auto simp: farewell_def)
qed

text \<open>The eventfd ends the greeting server: once \<open>main\<close> has added it to the epoll instance and the
  instance reports it, with no more clients to accept, the thread leaves its loop from wherever it is, and
  \<open>main\<close> joins it and returns.\<close>

theorem example_terminates:
  assumes "example_run kern err sched = Inr s" and "x_main s = Example_Join"
    and "\<And>log. length (x_log s) \<le> length log \<Longrightarrow> fst (kern log (Accept (x_srv_fd s))) = -1"
    and "\<And>log. length (x_log s) \<le> length log \<Longrightarrow> kern log (Epoll_Wait (x_ep_instance s) 1 1000) = (1, [ev])"
    and "word_of_int (ev_fd ev) = x_signaler s"
  shows "\<exists>s'. example_run kern err (sched @ replicate 4 Example_Side @ replicate 2 Example_Main) = Inr s' \<and> x_main s' = Example_Returned"
proof -
  let ?side = "example_side kern err"
  note run = example_side_def log_sys_def flush_and_close_def Let_def
  have wait: "?side t = Inr (t\<lparr>x_event := Some ev, x_log := x_log t @ [Epoll_Wait (x_ep_instance t) 1 1000], x_side := Side_Returned\<rparr>)"
    if "x_side t = Side_Wait" "length (x_log s) \<le> length (x_log t)" "x_ep_instance t = x_ep_instance s" "x_signaler t = x_signaler s" for t
    using that assms(4)[of "x_log t"] assms(5) by (simp add: run)
  have acc: "?side t = Inr (t\<lparr>x_log := x_log t @ [Accept (x_srv_fd t)], x_side := Side_Wait\<rparr>)"
    if "x_side t = Side_Accept" "length (x_log s) \<le> length (x_log t)" "x_srv_fd t = x_srv_fd s" for t
    using that assms(3)[of "x_log t"] by (simp add: run)
  have ret: "?side t = Inr t" if "x_side t = Side_Returned" for t using that by (simp add: run)
  have flush: "?side t = Inr (t\<lparr>x_log := x_log t @ [Shutdown fd SHUT_WR, Close fd], x_side := Side_Accept\<rparr>)"
    if "x_side t = Side_Flush fd" for t fd using that by (simp add: run)
  have send: "?side t = Inr (t\<lparr>x_log := x_log t @ [Send fd greeting], x_side := Side_Flush fd\<rparr>)"
    if "x_side t = Side_Send fd" for t fd using that by (simp add: run)
  let ?A = "[Example_Side, Example_Side, Example_Side, Example_Side]" and ?B = "[Example_Main, Example_Main]"
  have "\<exists>t. rfold (example_step kern err) ?A s = Inr t \<and>
      x_side t = Side_Returned \<and> x_main t = Example_Join"
    using assms(2) by (cases "x_side s") (simp_all add: wait acc ret flush send)
  then obtain t where t: "rfold (example_step kern err) ?A s = Inr t"
    "x_side t = Side_Returned" "x_main t = Example_Join" by blast
  then have main: "\<exists>s'. rfold (example_step kern err) ?B t = Inr s' \<and> x_main s' = Example_Returned"
    by (simp add: example_main_def log_sys_def Let_def)
  have reps: "replicate 4 Example_Side = ?A" "replicate 2 Example_Main = ?B" by (simp_all add: numeral_eq_Suc)
  have run_s: "rfold (example_step kern err) sched (example_start kern) = Inr s" using assms(1) by (simp add: example_run_def)
  show ?thesis unfolding example_run_def reps rfold_append run_s rbind_simps t(1) by (rule main)
qed

lemma example_terminates_witness:
  "\<exists>s'. example_run example_world (\<lambda>_. 0) (example_schedule @ replicate 4 Example_Side @ replicate 2 Example_Main) = Inr s' \<and>
    x_main s' = Example_Returned"
proof -
  have "case example_run example_world (\<lambda>_. 0) example_schedule of Inl f \<Rightarrow> False
    | Inr s \<Rightarrow> x_main s = Example_Join \<and> x_srv_fd s = 4 \<and> x_ep_instance s = 3 \<and> x_signaler s = 5 \<and> length (x_log s) = 12"
    by code_simp
  then obtain s where s: "example_run example_world (\<lambda>_. 0) example_schedule = Inr s" "x_main s = Example_Join"
    "x_srv_fd s = 4" "x_ep_instance s = 3" "x_signaler s = 5" "length (x_log s) = 12"
    by (auto split: sum.splits)
  show ?thesis
    by (rule example_terminates[OF s(1,2), where ev = "\<lparr>ev_events = EPOLLIN, ev_fd = 5\<rparr>"])
       (use s(3-6) in \<open>simp_all add: example_world_def\<close>)
qed

text \<open>The test program ends as it announces: if the epoll instance reports something to every wait that
  comes after the eventfd was added to it, then from every state in which \<open>main\<close> has added it, one more
  turn of the thread and two of \<open>main\<close> end the program; apart from the waits its calls are those of \<open>main\<close>, in
  their order, under every schedule.\<close>

theorem probe_terminates:
  assumes "p_main (probe_run kern sched) \<notin> {Probe_Eventfd, Probe_Signal}" and "s = probe_run kern sched"
    and "\<And>log. Epoll_Ctl (p_ep_instance s) EPOLL_CTL_ADD (to_int (p_signaler s)) (Some \<lparr>ev_events = EPOLLIN, ev_fd = to_int (p_signaler s)\<rparr>) \<in> set log \<Longrightarrow>
      fst (kern log (Epoll_Wait (p_ep_instance s) 1 10000)) \<noteq> 0"
    and "t = probe_run kern (sched @ [Example_Side, Example_Main, Example_Main])"
  shows "p_main t = Probe_Done \<and> p_side t = Probe_Returned \<and>
    filter (\<lambda>c. \<not> is_wait c) (p_log t) = probe_calls (p_ep_instance t) (to_int (p_signaler t)) Probe_Done"
proof -
  let ?add = "Epoll_Ctl (p_ep_instance s) EPOLL_CTL_ADD (to_int (p_signaler s)) (Some \<lparr>ev_events = EPOLLIN, ev_fd = to_int (p_signaler s)\<rparr>)"
  have inv: "probe_inv s" "probe_inv t" using probe_run_inv assms(2,4) by simp_all
  have "?add \<in> set (filter (\<lambda>c. \<not> is_wait c) (p_log s))"
    using inv(1) assms(1,2) by (cases "p_main s") (simp_all add: probe_inv_def)
  then have "fst (kern (p_log s) (Epoll_Wait (p_ep_instance s) 1 10000)) \<noteq> 0" using assms(3) by simp
  then have t: "p_side (probe_step kern Example_Side s) = Probe_Returned" "p_main (probe_step kern Example_Side s) = p_main s"
    by (cases "p_side s"; simp add: probe_defs)+
  have "t = probe_step kern Example_Main (probe_step kern Example_Main (probe_step kern Example_Side s))"
    unfolding assms(4) probe_run_append using assms(2) by simp
  then have "p_main t = Probe_Done"
    using t inv(1) assms(1,2) by (cases "p_main s") (simp_all add: probe_defs probe_inv_def)
  then show ?thesis using inv(2) by (simp add: probe_inv_def)
qed

lemma probe_terminates_witness:
  "p_main (probe_run example_world ([Example_Main, Example_Main] @ [Example_Side, Example_Main, Example_Main])) = Probe_Done"
proof -
  have "p_main (probe_run example_world [Example_Main, Example_Main]) \<notin> {Probe_Eventfd, Probe_Signal}" by code_simp
  from probe_terminates[OF this refl _ refl] show ?thesis by (simp add: example_world_def)
qed

end
