(* ===== verification/Unit_Tests.thy ===== *)
theory Unit_Tests
  imports Job_Queue Node_Stack Boolset Http_Headers
begin

text \<open>
  The unit tests of the repository (\<open>test/*.cpp\<close>) on the models of the containers and of the header parser.  The tests of
  the containers pass for all values and every allocator that grants the memory, and leave the heap as it was; the
  headers are evaluated.  \<open>test/workers-T.cpp\<close> and \<open>test/endpoint-T.cpp\<close> run threads and sockets: what they expect is the subject
  of \<open>Pool_Properties\<close> and \<open>Endpoint_Properties\<close>.
\<close>

section \<open>The queue\<close>

text \<open>The tests \<open>basic_function\<close> (7 values), \<open>push_requiring_resize\<close> (11) and \<open>giant_data_set\<close> (ten million): all values are pushed, all are
  read, and the queue is destroyed.\<close>

definition queue_test :: "64 word list \<Rightarrow> heap \<Rightarrow> (64 word list \<times> heap) result" where
  "queue_test numbers h =
    rbind (run_ops jq_push jq_next (map Put numbers @ replicate (length numbers) Get) (q_create h)) (\<lambda>(vs, (q, h1)).
    rbind (q_destroy q h1) (\<lambda>h2. Inr (vs, h2)))"

lemma jq_created:
  assumes "ample 28 h"
  shows "jq_inv (q_create h)" "jq_list (q_create h) = []" "jq_room (2 ^ 30) (q_create h)"
  using jq_create[OF assms order_refl] by simp_all

lemma jq_room_less: "jq_room n s \<Longrightarrow> m \<le> n \<Longrightarrow> jq_room m s"
  by (auto simp: jq_room_def split: prod.splits)

lemma queue_test_ends:
  assumes "ample 28 h" and "run_ops jq_push jq_next ops (q_create h) = Inr (vs, (q, h1))"
  shows "\<exists>h2. q_destroy q h1 = Inr h2 \<and> mem h2 = mem h"
  using queue_no_leak[OF _ assms(2)] ample_can_alloc[of 27 h] assms(1) by simp

lemma queue_test_passes:
  assumes "ample 28 h" and "length numbers \<le> 2 ^ 30"
  shows "\<exists>h'. queue_test numbers h = Inr (numbers, h') \<and> mem h' = mem h"
proof -
  note c = jq_created[OF assms(1)]
  obtain q h1 where run: "run_ops jq_push jq_next (map Put numbers @ replicate (length numbers) Get) (q_create h) = Inr (numbers, (q, h1))"
    using jq.fifo_order[OF c(1,2) jq_room_less[OF c(3) assms(2)]] by auto
  then show ?thesis using queue_test_ends[OF assms(1) run] by (auto simp: queue_test_def)
qed

text \<open>The test \<open>circle_test\<close>: half of the buffer goes in and out, then all of it: the indices wrap.\<close>

definition circle_test :: "64 word list \<Rightarrow> heap \<Rightarrow> (64 word list \<times> heap) result" where
  "circle_test numbers h =
    rbind (run_ops jq_push jq_next (map Put (take 4 numbers) @ replicate 4 Get @ map Put numbers @ replicate 8 Get) (q_create h))
      (\<lambda>(vs, (q, h1)). rbind (q_destroy q h1) (\<lambda>h2. Inr (vs, h2)))"

lemma circle_test_passes:
  assumes "ample 28 h" and "length numbers = 8"
  shows "\<exists>h'. circle_test numbers h = Inr (take 4 numbers @ numbers, h') \<and> mem h' = mem h"
proof -
  note c = jq_created[OF assms(1)]
  let ?ops = "map Put (take 4 numbers) @ replicate 4 Get @ map Put numbers @ replicate 8 Get"
  obtain a1 a2 a3 a4 a5 a6 a7 a8 where n: "numbers = [a1, a2, a3, a4, a5, a6, a7, a8]"
    using assms(2) by (auto simp: numeral_eq_Suc length_Suc_conv)
  have "spec_ops (\<lambda>x xs. xs @ [x]) ?ops (jq_list (q_create h)) = Some (take 4 numbers @ numbers, [])"
    by (simp add: n c(2) numeral_eq_Suc)
  moreover have "fits 1 ?ops 8" by (simp add: n numeral_eq_Suc)
  ultimately obtain q h1 where run: "run_ops jq_push jq_next ?ops (q_create h) = Inr (take 4 numbers @ numbers, (q, h1))"
    using jq.run_refines[OF c(1) jq_room_less[OF c(3), of 8], of ?ops] by auto
  then show ?thesis using queue_test_ends[OF assms(1) run] by (auto simp: circle_test_def)
qed

text \<open>The test \<open>is_empty\<close>.\<close>

lemma is_empty_test_passes:
  assumes "ample 28 h"
  shows "\<exists>s1 s2. jq_is_empty (q_create h) \<and> jq_push 1 (q_create h) = Inr s1 \<and> \<not> jq_is_empty s1 \<and>
    jq_next s1 = Inr (1, s2) \<and> jq_is_empty s2"
proof -
  note c = jq_created[OF assms]
  obtain s1 where s1: "jq_push 1 (q_create h) = Inr s1" "jq_inv s1" "jq_list s1 = [1]"
    using jq.push_ok[OF c(1) jq_room_less[OF c(3), of 1, simplified], of 1] c(2) by auto
  obtain s2 where "jq_next s1 = Inr (1, s2)" "jq_inv s2" "jq_list s2 = []" using jq.pop_ok[OF s1(2,3)] by blast
  moreover from this have "jq_is_empty s2" using jq.empty_iff by blast
  ultimately show ?thesis using s1 c(1,2) jq.empty_iff by (metis list.distinct(1))
qed

section \<open>The stack\<close>

lemma st_created:
  assumes "ample n h"
  shows "st_inv (stack_create, h)" "st_list (stack_create, h) = []" "st_room n (stack_create, h)"
  using assms by (simp_all add: stack_at_create st_room_def)

text \<open>The tests push values, pop the first \<open>k\<close> of them and destroy the stack: two of two in \<open>returns_two_values_corretly\<close>, none of
  one in \<open>push_test\<close> and of four in \<open>destroy_test\<close>, one of one in \<open>empty_test\<close>.\<close>

definition stack_test :: "64 word list \<Rightarrow> nat \<Rightarrow> heap \<Rightarrow> (64 word list \<times> stack \<times> heap) result" where
  "stack_test vals k h =
    rbind (run_ops st_push st_pop (map Put vals @ replicate k Get) (stack_create, h)) (\<lambda>(vs, (s, h1)).
    rbind (stack_destroy s h1) (\<lambda>(s, h2). Inr (vs, s, h2)))"

lemma stack_spec: "k \<le> length xs \<Longrightarrow> spec_ops (#) (replicate k Get) xs = Some (take k xs, drop k xs)"
proof (induction k arbitrary: xs)
  case (Suc k)
  then show ?case by (cases xs) auto
qed simp

lemma stack_test_passes:
  assumes "ample (length vals) h" and "k \<le> length vals"
  shows "\<exists>h'. stack_test vals k h = Inr (take k (rev vals), stack_create, h') \<and> mem h' = mem h"
proof -
  note c = st_created[OF assms(1)]
  have "spec_ops (#) (map Put vals @ replicate k Get) (st_list (stack_create, h)) = Some (take k (rev vals), drop k (rev vals))"
    using assms(2) by (simp add: c(2) st.put_all stack_spec)
  then obtain s h1 where run: "run_ops st_push st_pop (map Put vals @ replicate k Get) (stack_create, h) = Inr (take k (rev vals), (s, h1))"
    using st.run_refines[OF c(1,3), of "map Put vals @ replicate k Get"] by (auto simp: fits_Put)
  then show ?thesis using stack_no_leak[OF run] by (auto simp: stack_test_def)
qed

section \<open>The bit set\<close>

text \<open>The test \<open>one_billion_bits_with_a_few_bits_set_to_1\<close>: the bits with the indices 1, 2, 4, ... below \<open>10 ^ 9\<close> are set.\<close>

definition billion_updates :: "(64 word \<times> bool) list" where
  "billion_updates = map (\<lambda>k. (2 ^ k, True)) [0..<30]"

lemma all_set: "fold upd_member (map (\<lambda>k. (f k, True)) ks) A = f ` set ks \<union> A"
  by (induction ks arbitrary: A) (auto simp: upd_member_def)

lemma billion_bits_passes:
  assumes "ample 31 h"
  shows "\<exists>s b h1. boolset_create h = Inr s \<and> rfold (\<lambda>(i, v). bset_put i v) billion_updates s = Inr (b, h1) \<and>
    (\<forall>i. unat i div 64 < unat (bs_size b) \<longrightarrow> boolset_get b i h1 = Inr (\<exists>k < 30. i = 2 ^ k)) \<and>
    (\<exists>h2. boolset_destroy b h1 = Inr h2 \<and> mem h2 = mem h)"
proof -
  obtain b0 h0 where c: "boolset_create h = Inr (b0, h0)" "bs_inv b0 h0" "bs_members b0 h0 = {}"
    "\<forall>a. a \<noteq> bs_data b0 \<longrightarrow> mem h0 a = mem h a" "answers h0 = tl (answers h)" "bs_data b0 = hd (answers h)"
    by (rule boolset_create_ok[OF ample_can_alloc[of 30 h]]) (use assms in auto)
  have "ample 30 h0" using ample_step[of 30 h h0] assms c(4,5,6) by auto
  then obtain b h1 where run: "rfold (\<lambda>(i, v). bset_put i v) billion_updates (b0, h0) = Inr (b, h1)"
    and bs: "bs_inv b h1" "bs_members b h1 = (\<lambda>k. 2 ^ k) ` {0..<30}"
    using bset.put_all[of "(b0, h0)" billion_updates] c(2,3)
    by (auto simp: bset_defs billion_updates_def all_set)
  have "boolset_get b i h1 = Inr (\<exists>k < 30. i = 2 ^ k)" if "unat i div 64 < unat (bs_size b)" for i
  proof -
    have "bset_get i (b, h1) = Inr v \<Longrightarrow> v \<longleftrightarrow> i \<in> bset_members (b, h1)" for v
      by (rule bset.get_sound) (simp_all add: bset_defs bs(1))
    then show ?thesis using boolset_get_eq[OF bs(1), of i] that bs(2) by (auto simp: bset_defs)
  qed
  then show ?thesis using c(1) run boolset_no_leak[OF c(1) run] by auto
qed

text \<open>The test \<open>the_first_bit\<close>.\<close>

lemma first_bit_passes:
  assumes "ample 4 h"
  shows "\<exists>s s1 s2 s3. boolset_create h = Inr s \<and> bset_get 0 s = Inr False \<and> bset_put 0 False s = Inr s1 \<and> bset_get 0 s1 = Inr False \<and>
    bset_put 0 True s1 = Inr s2 \<and> bset_get 0 s2 = Inr True \<and> bset_put 0 False s2 = Inr s3 \<and> bset_get 0 s3 = Inr False"
proof -
  obtain b0 h0 where c: "boolset_create h = Inr (b0, h0)" "bs_inv b0 h0" "bs_members b0 h0 = {}" "bs_size b0 = 1"
    "\<forall>a. a \<noteq> bs_data b0 \<longrightarrow> mem h0 a = mem h a" "answers h0 = tl (answers h)" "bs_data b0 = hd (answers h)"
    by (rule boolset_create_ok[OF ample_can_alloc[of 3 h]]) (use assms in auto)
  have inv: "bset_inv (b0, h0)" and room: "bset_room 3 (b0, h0)" and get: "bset_get 0 (b0, h0) = Inr False"
    using ample_step[of 3 h h0] assms c boolset_get_eq[OF c(2), of 0] by (auto simp: bset_defs)
  obtain s1 where s1: "bset_put 0 False (b0, h0) = Inr s1" "bset_inv s1" "bset_room 2 s1"
    using bset.put_ok[OF inv, of 2 0 False] room by auto
  obtain s2 where s2: "bset_put 0 True s1 = Inr s2" "bset_inv s2" "bset_room 1 s2"
    using bset.put_ok[OF s1(2), of 1 0 True] s1(3) by (auto simp: numeral_2_eq_2)
  obtain s3 where s3: "bset_put 0 False s2 = Inr s3" using bset.put_ok[OF s2(2), of 0 0 False] s2(3) by auto
  show ?thesis
    by (intro exI conjI; fact c(1) get s1(1) s2(1) s3 bset.get_put[OF inv s1(1)] bset.get_put[OF s1(2) s2(1)] bset.get_put[OF s2(2) s3])
qed

section \<open>Headers\<close>

text \<open>The tests \<open>string_to_header\<close> and \<open>header_to_string\<close>.\<close>

lemma string_to_header_passes:
  "\<forall>str \<in> {''Connection: close'', '' Connection : close ''}.
    (case http_str_to_header blank_header (str @ [NUL]) 0 (word_of_nat (length str)) of
       Inl e \<Rightarrow> False
     | Inr (r, hdr) \<Rightarrow> r = 0 \<and> http_header_set blank_header (''Connection'' @ [NUL]) (''close'' @ [NUL]) = Inr (0, hdr))"
  by code_simp

lemma header_to_string_passes:
  "rbind (http_header_set blank_header (''Connection'' @ [NUL]) (''close'' @ [NUL])) (\<lambda>(_, hdr).
    http_header_to_str (replicate 64 NUL) hdr 64) = Inr (None, put_cstr ''Connection: close'' (replicate 64 NUL))"
  by code_simp

text \<open>The test \<open>parse_headers\<close> runs into an access behind its array: the scan for a fourth header starts three bytes
  behind the text.  It passes when three more bytes can be read.\<close>

definition header_data :: string where
  "header_data = ''Connection: close'' @ [CR, LF] @ ''Last-modified: 20240902'' @ [CR, LF] @ ''Host: www.internet.com''"

lemma parse_headers_faults:
  "http_str_to_headers (replicate 3 blank_header) 3 (header_data @ [NUL]) (word_of_nat (length header_data)) = Inl Out_Of_Bounds"
  by code_simp

lemma parse_headers_slack:
  "\<forall>x \<in> {NUL, CR, CHR ''x''}.
    http_str_to_headers (replicate 3 blank_header) 3 (header_data @ [NUL, x, x, x]) (word_of_nat (length header_data)) =
      Inr (3, [\<lparr>hkey = put_cstr ''Connection'' (replicate 64 NUL), hvalue = put_cstr ''close'' (replicate 64 NUL)\<rparr>,
        \<lparr>hkey = put_cstr ''Last-modified'' (replicate 64 NUL), hvalue = put_cstr ''20240902'' (replicate 64 NUL)\<rparr>,
        \<lparr>hkey = put_cstr ''Host'' (replicate 64 NUL), hvalue = put_cstr ''www.internet.com'' (replicate 64 NUL)\<rparr>])"
  by code_simp

end
