(* ===== verification/Spec2Isabelle.thy ===== *)
theory Spec2Isabelle
  imports C_Prelude Interfaces Job_Queue Node_Stack Boolset C_Strings Http_Headers Worker_Pool Pool_Invariants
    Pool_Properties Pool_Memory Pool_Rest Pool_Contract Cpp_Threadpool Endpoint Endpoint_Refinement Endpoint_Properties Endpoint2 Calc_Service Html_Service
    Udp_Server Server_Loops Tcp_Server Server_Invariants Server_Properties Html_Server Server_Liveness
    Epoll_Experiments Unit_Tests
begin

text \<open>
  A verification library for the network programs of C10K: a C library of containers, a thread pool,
  a socket endpoint and an HTTP header parser (\<open>src/unix\<close>, \<open>include/unix\<close>), and the servers that
  are built on it (\<open>apps\<close>).

  \<^bold>\<open>The program and its parts.\<close>  A server creates a pool of workers (\<open>workers.c\<close>) and an endpoint
  (\<open>endpoint.c\<close>).  The endpoint keeps its connected clients in a bit set (\<open>boolset.c\<close>) and the clients
  that hung up in a linked stack (\<open>stack.c\<close>); one thread accepts clients, another waits for their
  events and posts one job per event, whose function and argument go through the pool's ring buffer
  (\<open>queue.c\<close>).  A worker takes the job, receives the client's request and answers it: an
  arithmetic expression (\<open>Run_calc_srv.c\<close>, and over UDP without pool and endpoint
  \<open>Run_calc_udp_srv.c\<close>), or an HTTP request whose headers are parsed by \<open>http.c\<close>
  (\<open>Run_unix_srv.c\<close>).

  \<^bold>\<open>The machine.\<close>  \<open>C_Prelude\<close> has the results (\<open>fault + 'a\<close>), in which every undefined behaviour of
  C the sources can run into is a fault: null and dangling accesses, accesses out of bounds,
  uninitialised reads, signed overflow, shifts out of range, division by zero, misuse of a lock.
  Signed integers are \<open>int\<close> with a check at their width, \<open>size_t\<close> and pointers are 64 bit words that
  wrap.  The heap is a map from addresses to blocks of 64 bit cells; the answers of \<open>malloc\<close> are a list
  kept in the heap, so that a theorem for every heap holds for every allocator, failing ones
  included.  \<open>ample n h\<close> says that the next \<open>n\<close> allocations succeed.  \<open>C_Strings\<close> has character arrays,
  the scanning loops and the string functions of the C library.

  \<^bold>\<open>The interfaces.\<close>  \<open>Interfaces\<close> states the contracts as locales: \<open>container\<close> with its extensions
  \<open>fifo\<close> and \<open>lifo\<close>, \<open>index_set\<close>, and \<open>stepwise_refinement\<close>, which lifts the simulation of one
  operation to all sequences of operations, \<open>guarded_steps\<close>, which lifts an invariant and a set of
  possible faults from one turn of an actor to all schedules, \<open>action_simulation\<close>, by which the runs
  of a concurrent system are those of an abstract machine, and \<open>fair_progress\<close>, by which a fair schedule comes to
  an end.  They are interpreted on the queue, the
  stack, the bit set, the endpoint, the thread pool and the servers.  What a TCP server needs of the job
  that it posts is the locale \<open>tcp_service\<close> of \<open>Server_Invariants\<close>, interpreted on the jobs of the
  calculator and of the HTTP server.

  \<^bold>\<open>The components.\<close>

  \<^item> \<open>Job_Queue\<close>: \<open>queue.c\<close>.  The record \<open>queue\<close> and all its operations; \<open>MSB\<close> is the source's loop.
    Invariant, refinement of a first-in first-out list across reallocations, every branch of
    \<open>q_push\<close>, what \<open>q_resize\<close> keeps, no leak.
  \<^item> \<open>Node_Stack\<close>: \<open>stack.c\<close>, nodes as heap blocks.  Refinement of a last-in first-out list,
    termination and effect of \<open>stack_destroy\<close>.
  \<^item> \<open>Boolset\<close>: \<open>boolset.c\<close>.  The set of the indices whose bit is one, growth included; the loop
    \<open>boolset_foreach\<close> with a callback that changes the set; no leak.
  \<^item> \<open>Worker_Pool\<close>, \<open>Pool_Invariants\<close>, \<open>Pool_Properties\<close>, \<open>Pool_Memory\<close>, \<open>Pool_Rest\<close>: \<open>workers.c\<close> as a step relation of any
    number of threads, one statement per step, with the POSIX mutex and condition variable (spurious
    wake-ups included) and the queue of \<open>Job_Queue\<close> as its state.  Mutual exclusion, no job lost or
    performed twice while the pool runs, progress, the only possible faults; without new calls the pool comes to rest,
    with every job performed, or joined, or in a join that waits for a worker that missed its signal; and two executions the
    source does not exclude: a lost signal that makes \<open>w_join\<close> wait for ever, and a job that was posted before
    \<open>w_join\<close> was called and is left in the queue.  \<open>Pool_Memory\<close> says which blocks of the heap belong to the pool, and that
    \<open>w_join\<close> never frees the buffer of the queue.
  \<^item> \<open>Pool_Contract\<close>: what the pool promises as an abstract machine (waiting jobs, jobs in
    hand, joined); the pool refines it under every interleaving.  \<open>worker_take\<close> of \<open>Tcp_Server\<close> is a step of this machine;
    it has no code of its own.
  \<^item> \<open>Cpp_Threadpool\<close>: the C++ pool of \<open>Nettverksprog/Threadpool.cpp\<close>, statement by statement.  It refines the
    same contract, its only fault is the call of a null function, and it has the two hazards of
    \<open>workers.c\<close>.
  \<^item> \<open>Http_Headers\<close>: \<open>http.c\<close>.  Parser and printer of header lines: what well-formed lines and blocks
    give, the round trip, and where malformed lines lead the parser out of its buffers.
  \<^item> \<open>Endpoint\<close>: every function of \<open>endpoint.c\<close>.  The operating system is a parameter, a function
    \<open>kernel\<close> that answers a call from the calls made before; the calls are kept in \<open>e_log\<close>, which makes
    the order of system calls a subject of the theorems.  \<open>Endpoint_Refinement\<close> defines the abstract
    client book (connected clients, hangup queue, calls) and shows that every operation implements its
    step on it (\<open>ep_rep\<close>); \<open>Endpoint_Properties\<close> has the theorems: the refinement for all sequences
    of operations, creation and closing with all calls and no leak, acceptance, event reporting, and
    the scenarios in which the code goes wrong.
  \<^item> \<open>Endpoint2\<close>: what is written of \<open>endpoint2.c\<close>, an unfinished second endpoint.  Its operations equal those
    of \<open>endpoint.c\<close> on the shared fields (\<open>ep_of\<close>) and refine the same client book, from which the round of
    events that is new there is followed.  Its stack of closing clients is an option, for \<open>endpoint2_create\<close> leaves it
    uninitialised: the refinement is proved for a static object, which starts with the empty stack, and for any other
    the first round is shown to read the uninitialised field.
  \<^item> \<open>Calc_Service\<close>: \<open>calc_request\<close> over TCP and UDP, the packing of a job's argument and
    \<open>client_event\<close>.  Both handlers compute \<open>calc_reply\<close>; their only faults are arithmetic ones.
  \<^item> \<open>Udp_Server\<close>: \<open>srv_proc\<close>, the thread of the UDP server: it answers the datagrams one by one until
    \<open>recvfrom\<close> fails; and the program with \<open>main\<close>, under any schedule of the two, in which \<open>main\<close> may close the
    socket between a \<open>recvfrom\<close> and its \<open>sendto\<close>.
  \<^item> \<open>Html_Service\<close>: \<open>html_answer\<close> from the received bytes to the page that is sent, through the
    parser of \<open>Http_Headers\<close>, and its \<open>client_event\<close>.
  \<^item> \<open>Server_Loops\<close>: the threads of the two servers.  \<open>stop\<close> is a function of the system calls made so
    far, so that a theorem for every such function holds for every moment at which the main thread
    sets it.  The threads end once it is set, and the processor posts one job for each reported event.
  \<^item> \<open>Tcp_Server\<close>, \<open>Server_Invariants\<close>, \<open>Server_Properties\<close>, \<open>Html_Server\<close>, \<open>Server_Liveness\<close>: the calculator and the HTTP
    server as a whole, \<open>main\<close> included, as actors that take turns under any schedule.  A turn is one call of an endpoint
    function, one test, one post, or one stage of a job: its \<open>recv\<close>, its computation and \<open>send\<close>, its disconnection.
    The stages without interruption are the \<open>client_event\<close> of the program (\<open>job_stages_are_client_event\<close>); between
    them any other actor may move.  Every answer is the reply to a request received before from the same descriptor,
    which the selector had reported; every request is answered or still in hand; but the descriptor may have been
    closed and given to a new client in between, which then gets the reply (\<open>reply_to_other_client\<close>).  Shutting down
    releases the endpoint: its blocks, its locks, and every client that was ever accepted.  Only four kinds of fault
    can occur in each, and once \<open>main\<close> has its input every fair schedule brings the server to its end (with a
    pool whose join returns when no job is in hand; \<open>workers.c\<close> can miss that moment, see above).
  \<^item> \<open>Epoll_Experiments\<close>: the stand-alone programs \<open>Server_example.c\<close> and \<open>Epoll_test.c\<close>, thread and \<open>main\<close>
    as actors: every accepted client is greeted and closed, and the eventfd ends the programs.
  \<^item> \<open>Unit_Tests\<close>: the repository's tests of the containers and of the header parser, as theorems about the models.

  \<^bold>\<open>Assumptions.\<close>  What is not in the sources is a hypothesis by name: \<open>accept_documented\<close>,
  \<open>epoll_documented\<close> and \<open>recv_documented\<close> state the documented results of these system calls;
  everything else is proved for every kernel.  Descriptors are in the range of \<open>fd_ok\<close>.  Theorems about
  the pool suppose fewer than \<open>2 ^ 60\<close> threads, that a job does not call the pool back, and that reads
  without a lock see the current value.  The functions of an endpoint run one at a time: their locks are
  checked for misuse, not for interleavings.  In the server as a whole the pool enters as its contract
  (jobs are taken in order, several may be in hand, some may be left when \<open>w_join\<close> returns); its memory, mutex and
  condition variable are not in the state of the servers but in that of \<open>Worker_Pool\<close>; a schedule of k turns supposes 2 * k + 1 allocations that succeed.  The loops of the library and the handlers are total
  functions: each round frees a block or moves on in an array.  The loops of the server threads are
  partial functions, \<open>None\<close> when they never end, and are shown to end once \<open>stop\<close> is set.  No fuel is used.
  \<open>closed_documented\<close> says that \<open>recvfrom\<close> fails on the closed socket, \<open>epoll_distinct\<close> that
  an epoll instance reports a descriptor once in a call, \<open>flags_documented\<close> that \<open>epoll_wait\<close> does not report the flag \<open>EPOLLET\<close>.

  \<^bold>\<open>Not modelled.\<close>  \<open>endpoint2.c\<close> is commented out of the build and does not compile: the loop that accepts clients in
  \<open>endpoint2_step\<close> is not a statement, \<open>accept_new_clients_dontuse\<close> uses variables that are declared nowhere,
  and \<open>endpoint_disconnect_all_clients\<close> calls a function of the other endpoint; these three have no model.
  \<open>Run.c\<close> prints one line.  Of the C++ tests those of the thread pool and the endpoint are not restated.  Allocation failures of \<open>std::queue\<close>, exceptions of
  \<open>std::thread\<close> and overlapping calls of \<open>join\<close> are left out of the C++ pool.  Output
  to the terminal is left out everywhere.
\<close>

end
